(* ===== verification/Prelude.thy ===== *)
theory Prelude
  imports Main "HOL-Library.Word"
begin

text \<open>
  The vocabulary shared by the component theories: Go's 64-bit signed arithmetic on \<^typ>\<open>int\<close>
  with the wrap-around written out, Go's error values, the result type of code that mutates a
  state and may return an error, the receipt a transaction handler returns, and the proof rules
  for error propagation.

  A Go function \<open>f(args) (T, error)\<close> that changes the state becomes a HOL function that ends in
  \<open>'s \<Rightarrow> (err + 'a) \<times> 's\<close>. The error case keeps the state the code has reached when it
  returns: an early return does not undo the writes made before it.
\<close>

named_theorems go_arith \<open>bounds and normal forms of 64-bit arithmetic\<close>
named_theorems go_result \<open>inversion rules for results that are not errors\<close>

section \<open>64-bit signed integers\<close>

definition wrap64 :: "int \<Rightarrow> int" where
  "wrap64 x = (x + 2 ^ 63) mod 2 ^ 64 - 2 ^ 63"

definition MaxInt64 :: int where
  "MaxInt64 = 2 ^ 63 - 1"

definition in64 :: "int \<Rightarrow> bool" where
  "in64 x \<longleftrightarrow> - (2 ^ 63) \<le> x \<and> x < 2 ^ 63"

definition add64 :: "int \<Rightarrow> int \<Rightarrow> int" where
  "add64 a b = wrap64 (a + b)"

definition sub64 :: "int \<Rightarrow> int \<Rightarrow> int" where
  "sub64 a b = wrap64 (a - b)"

definition mul64 :: "int \<Rightarrow> int \<Rightarrow> int" where
  "mul64 a b = wrap64 (a * b)"

text \<open>Go's integer division truncates towards zero; the remainder has the sign of the dividend.\<close>

definition div64 :: "int \<Rightarrow> int \<Rightarrow> int" where
  "div64 a b = wrap64 (sgn a * sgn b * (\<bar>a\<bar> div \<bar>b\<bar>))"

definition rem64 :: "int \<Rightarrow> int \<Rightarrow> int" where
  "rem64 a b = sgn a * (\<bar>a\<bar> mod \<bar>b\<bar>)"

lemma in64_wrap64 [simp, intro]: "in64 (wrap64 x)"
  unfolding in64_def wrap64_def by (simp add: pos_mod_bound [of "2 ^ 64", simplified])

lemma wrap64_id [go_arith]: "in64 x \<Longrightarrow> wrap64 x = x"
  unfolding in64_def wrap64_def by simp

lemma wrap64_wrap64 [simp]: "wrap64 (wrap64 x) = wrap64 x"
  by (simp add: wrap64_id)

lemma wrap64_fix_iff: "wrap64 x = x \<longleftrightarrow> in64 x"
  by (metis in64_wrap64 wrap64_id)

lemma in64_nonneg [go_arith]: "0 \<le> x \<Longrightarrow> x \<le> MaxInt64 \<Longrightarrow> in64 x"
  by (simp add: in64_def MaxInt64_def)

lemma in64_between: "in64 a \<Longrightarrow> in64 b \<Longrightarrow> a \<le> x \<Longrightarrow> x \<le> b \<Longrightarrow> in64 x"
  by (simp add: in64_def)

lemma add64_exact [go_arith]: "in64 (a + b) \<Longrightarrow> add64 a b = a + b"
  by (simp add: add64_def wrap64_id)

lemma sub64_exact [go_arith]: "in64 (a - b) \<Longrightarrow> sub64 a b = a - b"
  by (simp add: sub64_def wrap64_id)

lemma mul64_exact [go_arith]: "in64 (a * b) \<Longrightarrow> mul64 a b = a * b"
  by (simp add: mul64_def wrap64_id)

lemma in64_results [simp, intro]:
  "in64 (add64 a b)" "in64 (sub64 a b)" "in64 (mul64 a b)" "in64 (div64 a b)"
  by (simp_all add: add64_def sub64_def mul64_def div64_def)

text \<open>Adding and subtracting non-negative quantities that stay below the largest integer.\<close>

lemma add64_nonneg [go_arith]:
  "0 \<le> a \<Longrightarrow> 0 \<le> b \<Longrightarrow> a + b \<le> MaxInt64 \<Longrightarrow> add64 a b = a + b"
  by (simp add: add64_exact in64_nonneg)

lemma sub64_nonneg [go_arith]:
  "0 \<le> a \<Longrightarrow> a \<le> MaxInt64 \<Longrightarrow> 0 \<le> b \<Longrightarrow> b \<le> MaxInt64 \<Longrightarrow> sub64 a b = a - b"
  by (simp add: sub64_exact in64_def MaxInt64_def)

lemma div64_nonneg [go_arith]:
  assumes "0 \<le> a" "a \<le> MaxInt64" "0 < b"
  shows "div64 a b = a div b"
proof -
  have q: "0 \<le> a div b" "a div b \<le> a"
    using assms zdiv_mono2 [of a 1 b] by (simp_all add: pos_imp_zdiv_nonneg_iff)
  have "sgn a * sgn b * (\<bar>a\<bar> div \<bar>b\<bar>) = a div b"
    using assms by (cases "a = 0") simp_all
  with q assms(2) show ?thesis
    by (simp add: div64_def wrap64_id in64_nonneg)
qed

text \<open>Sums that wrap around agree modulo the word size.\<close>

lemma wrap64_mod: "wrap64 x mod 2 ^ 64 = x mod 2 ^ 64"
  by (simp add: wrap64_def mod_simps)

lemma wrap64_eqI: "x mod 2 ^ 64 = y mod 2 ^ 64 \<Longrightarrow> wrap64 x = wrap64 y"
  unfolding wrap64_def by (metis mod_add_left_eq)

lemma wrap64_eqD: "wrap64 x = wrap64 y \<Longrightarrow> x mod 2 ^ 64 = y mod 2 ^ 64"
  by (metis wrap64_mod)

lemma wrap64_cong_add: "wrap64 a = wrap64 a' \<Longrightarrow> wrap64 b = wrap64 b' \<Longrightarrow> wrap64 (a + b) = wrap64 (a' + b')"
  by (rule wrap64_eqI, rule mod_add_cong; rule wrap64_eqD)

lemma wrap64_cong_sub: "wrap64 a = wrap64 a' \<Longrightarrow> wrap64 b = wrap64 b' \<Longrightarrow> wrap64 (a - b) = wrap64 (a' - b')"
  by (rule wrap64_eqI, rule mod_diff_cong; rule wrap64_eqD)

lemma wrap64_cong_mul: "wrap64 a = wrap64 a' \<Longrightarrow> wrap64 (c * a) = wrap64 (c * a')"
  by (rule wrap64_eqI, rule mod_mult_cong [OF refl], rule wrap64_eqD)

section \<open>Error values\<close>

text \<open>
  The error variables the modelled code returns, under their Go names. \<open>Panic\<close> stands for a
  call of \<open>panic\<close> or a run-time panic. \<open>ErrText\<close> is an error made on the spot with
  \<open>fmt.Errorf\<close>.
\<close>

datatype err =
    ErrNotFound | ErrNoBalance | ErrAmount | ErrSendSameToRecv | ErrNotAllowDeposit
  | ErrInvalidParam | ErrInvalidAddress | ErrExecNameNotAllow | ErrSymbolNameNotAllow | ErrDecode
  | ErrHashlockAmount | ErrHashlockStatus | ErrTime | ErrHashlockReturnAddrss | ErrHashlockTime
  | ErrHashlockReapeathash | ErrHashlockSendAddress
  | ErrGameCreateAmount | ErrGameMatchStatus | ErrGameMatch | ErrGameCancleAddr
  | ErrGameCancleStatus | ErrGameCloseAddr | ErrGameCloseStatus
  | ErrRetrieveDefaultAddress | ErrRetrieveRelateLimit | ErrRetrieveRepeatAddress
  | ErrRetrievePrepareAddress | ErrRetrieveRelation | ErrRetrieveStatus | ErrRetrievePerformAddress
  | ErrRetrievePeriodLimit | ErrRetrieveNoBalance | ErrRetrieveCancelAddress
  | ErrTSellOrderNotExist | ErrTSellOrderNotStart | ErrTSellOrderSoldout | ErrTSellOrderNotEnough
  | ErrTSellOrderRevoked | ErrTSellOrderExpired | ErrTSellOrderRevoke | ErrTCntLessThanMinBoardlot
  | ErrTBuyOrderNotExist | ErrTBuyOrderSoldout | ErrTBuyOrderRevoked | ErrTBuyOrderNotEnough
  | ErrTBuyOrderRevoke
  | ErrText string | Panic

type_synonym bytes = string
type_synonym addr = string

section \<open>Code that changes a state and may fail\<close>

type_synonym ('s, 'a) outcome = "(err + 'a) \<times> 's"

text \<open>\<open>x, err := f(); if err != nil { return nil, err }\<close> followed by the rest of the body.\<close>

definition bindE :: "('s, 'a) outcome \<Rightarrow> ('a \<Rightarrow> 's \<Rightarrow> ('s, 'b) outcome) \<Rightarrow> ('s, 'b) outcome" where
  "bindE m k = (case m of (Inl e, s) \<Rightarrow> (Inl e, s) | (Inr a, s) \<Rightarrow> k a s)"

lemma bindE_simps [simp]:
  "bindE (Inl e, s) k = (Inl e, s)"
  "bindE (Inr a, s) k = k a s"
  by (simp_all add: bindE_def)

lemma bindE_ok [go_result]:
  "bindE m k = (Inr b, t) \<longleftrightarrow> (\<exists>a s. m = (Inr a, s) \<and> k a s = (Inr b, t))"
  by (auto simp: bindE_def split: prod.splits sum.splits)

lemma bindE_err:
  "bindE m k = (Inl e, t) \<longleftrightarrow>
     m = (Inl e, t) \<or> (\<exists>a s. m = (Inr a, s) \<and> k a s = (Inl e, t))"
  by (auto simp: bindE_def split: prod.splits sum.splits)

text \<open>A guard: \<open>if c { return nil, e }\<close>.\<close>

definition failif :: "bool \<Rightarrow> err \<Rightarrow> ('s, 'a) outcome \<Rightarrow> 's \<Rightarrow> ('s, 'a) outcome" where
  "failif c e rest s = (if c then (Inl e, s) else rest)"

lemma failif_ok [go_result]:
  "failif c e rest s = (Inr a, t) \<longleftrightarrow> \<not> c \<and> rest = (Inr a, t)"
  by (simp add: failif_def)

lemma failif_simps [simp]:
  "failif True e rest s = (Inl e, s)"
  "failif False e rest s = rest"
  by (simp_all add: failif_def)

lemma failif_err:
  "failif c e rest s = (Inl e', t) \<longleftrightarrow> c \<and> e' = e \<and> t = s \<or> \<not> c \<and> rest = (Inl e', t)"
  by (auto simp: failif_def)

definition is_ok :: "('s, 'a) outcome \<Rightarrow> bool" where
  "is_ok m = (case fst m of Inl _ \<Rightarrow> False | Inr _ \<Rightarrow> True)"

lemma is_ok_simps [simp]: "is_ok (Inr a, s)" "\<not> is_ok (Inl e, s)"
  by (simp_all add: is_ok_def)

lemma is_okE:
  assumes "is_ok m"
  obtains a s where "m = (Inr a, s)"
  using assms by (cases m) (auto simp: is_ok_def split: sum.splits)

section \<open>The transaction environment\<close>

text \<open>
  The fields the \<open>Action\<close> structs of the executors take from the transaction and the block.
  The account database and the state database are the state the operations are applied to.
\<close>

record action =
  txhash :: bytes
  fromaddr :: addr
  blocktime :: int
  height :: int
  execaddr :: addr
  index :: int

section \<open>Sums over finite maps\<close>

definition msum :: "('v \<Rightarrow> int) \<Rightarrow> ('k \<Rightarrow> 'v option) \<Rightarrow> int" where
  "msum f m = (\<Sum>k\<in>dom m. f (the (m k)))"

lemma msum_empty [simp]: "msum f (\<lambda>_. None) = 0"
  by (simp add: msum_def)

lemma msum_upd:
  assumes "finite (dom m)"
  shows "msum f (m(k \<mapsto> v)) = msum f m - (case m k of None \<Rightarrow> 0 | Some u \<Rightarrow> f u) + f v"
proof -
  have rest: "(\<Sum>j\<in>dom m - {k}. f (the ((m(k \<mapsto> v)) j))) = (\<Sum>j\<in>dom m - {k}. f (the (m j)))"
    by (rule sum.cong) auto
  have new: "msum f (m(k \<mapsto> v)) = f v + (\<Sum>j\<in>dom m - {k}. f (the (m j)))"
    unfolding msum_def using assms rest by (simp add: sum.insert_remove)
  show ?thesis
  proof (cases "m k")
    case None
    then have "dom m - {k} = dom m" by auto
    with new None show ?thesis by (simp add: msum_def)
  next
    case (Some u)
    then have "msum f m = f u + (\<Sum>j\<in>dom m - {k}. f (the (m j)))"
      unfolding msum_def using assms by (subst sum.remove [of _ k]) auto
    with new Some show ?thesis by simp
  qed
qed

lemma msum_nonneg: "(\<And>k v. m k = Some v \<Longrightarrow> 0 \<le> f v) \<Longrightarrow> 0 \<le> msum f m"
  unfolding msum_def by (rule sum_nonneg) auto

lemma msum_mono: "(\<And>k v. m k = Some v \<Longrightarrow> f v \<le> g v) \<Longrightarrow> msum f m \<le> msum g m"
  unfolding msum_def by (rule sum_mono) auto

lemma msum_le_one:
  assumes "finite (dom m)" "\<And>k v. m k = Some v \<Longrightarrow> 0 \<le> f v" "m k = Some v"
  shows "f v \<le> msum f m"
proof -
  have "f (the (m k)) \<le> (\<Sum>j\<in>dom m. f (the (m j)))"
    using assms by (intro member_le_sum) auto
  with assms(3) show ?thesis by (simp add: msum_def)
qed

lemma msum_le_two:
  assumes fin: "finite (dom m)" and nn: "\<And>k v. m k = Some v \<Longrightarrow> 0 \<le> f v"
    and k: "m k = Some v" "m j = Some u" "k \<noteq> j"
  shows "f v + f u \<le> msum f m"
proof -
  have "f v + f u = (\<Sum>i\<in>{k, j}. f (the (m i)))"
    using k by simp
  also have "\<dots> \<le> (\<Sum>i\<in>dom m. f (the (m i)))"
    using k nn fin by (intro sum_mono2) auto
  finally show ?thesis by (simp add: msum_def)
qed

lemma finite_dom_curry:
  assumes "finite (dom m)"
  shows "finite (dom (\<lambda>a. m (p, a)))"
proof -
  have "Pair p ` dom (\<lambda>a. m (p, a)) \<subseteq> dom m" by auto
  then show ?thesis
    using assms by (meson finite_imageD finite_subset inj_onI prod.inject)
qed

section \<open>Hexadecimal strings\<close>

text \<open>\<open>common.ToHex\<close>: the empty string for no bytes, otherwise lower-case digits after \<open>0x\<close>.\<close>

definition hex_digit :: "nat \<Rightarrow> char" where
  "hex_digit n = (if n < 10 then char_of (48 + n) else char_of (87 + n))"

definition Bytes2Hex :: "bytes \<Rightarrow> string" where
  "Bytes2Hex b = concat (map (\<lambda>c. [hex_digit (of_char c div 16), hex_digit (of_char c mod 16)]) b)"

definition ToHex :: "bytes \<Rightarrow> string" where
  "ToHex b = (if Bytes2Hex b = [] then [] else ''0x'' @ Bytes2Hex b)"

end
