(* ===== verification/Ledger.thy ===== *)
theory Ledger
  imports Prelude
begin

text \<open>
  The account database every executor calls: \<open>account.DB\<close> with its coin accounts and the
  sub-accounts an address keeps inside an executor, each with an active and a frozen balance
  (\<open>vendor/github.com/33cn/chain33/account/account.go\<close>, \<open>execaccount.go\<close> and
  \<open>genesis.go\<close>).

  A handle \<open>AccDB execer symbol\<close> is the pair of executor name and symbol from which the Go code
  builds the key prefix. The key-value store is split into its two key spaces,
  \<open>AccountKey\<close> and \<open>ExecAccountKey\<close>, and a stored value is the decoded \<open>types.Account\<close>.
  The record is extensible: each executor extends it with its own tables, and the account
  operations change those tables nowhere.
\<close>

section \<open>State\<close>

datatype accdb = AccDB (Execer: string) (Symbol: string)

record account =
  Currency :: int
  Balance :: int
  Frozen :: int
  Addr :: addr

record ledger =
  accts :: "accdb \<times> addr \<Rightarrow> account option"
  execs :: "accdb \<times> addr \<times> addr \<Rightarrow> account option"

datatype 'd kv =
    KVAcc accdb addr account
  | KVExec accdb addr addr account
  | KVDapp 'd

datatype 'l rlog =
    LogAcc int account account
  | LogExec int addr account account
  | LogDapp 'l

record ('d, 'l) receipt =
  rTy :: int
  rKV :: "'d kv list"
  rLogs :: "'l rlog list"

definition NewCoinsAccount :: accdb where
  "NewCoinsAccount = AccDB ''coins'' ''bty''"

definition NewAccountDB :: "string \<Rightarrow> string \<Rightarrow> err + accdb" where
  "NewAccountDB execer symbol =
     (if CHR ''-'' \<in> set execer then Inl ErrExecNameNotAllow
      else if CHR ''-'' \<in> set symbol then Inl ErrSymbolNameNotAllow
      else Inr (AccDB execer symbol))"

definition ExecOk :: int where "ExecOk = 2"

definition MaxCoin :: int where "MaxCoin = 10 ^ 17"

definition Coin :: int where "Coin = 10 ^ 8"

definition CheckAmount :: "int \<Rightarrow> bool" where
  "CheckAmount amount = (\<not> (amount \<le> 0 \<or> amount \<ge> MaxCoin))"

section \<open>Operations\<close>

definition newAccount :: "addr \<Rightarrow> account" where
  "newAccount a = \<lparr>Currency = 0, Balance = 0, Frozen = 0, Addr = a\<rparr>"

definition LoadAccount :: "accdb \<Rightarrow> addr \<Rightarrow> 'a ledger_scheme \<Rightarrow> account" where
  "LoadAccount db a s = (case accts s (db, a) of None \<Rightarrow> newAccount a | Some acc \<Rightarrow> acc)"

definition LoadExecAccount :: "accdb \<Rightarrow> addr \<Rightarrow> addr \<Rightarrow> 'a ledger_scheme \<Rightarrow> account" where
  "LoadExecAccount db a x s = (case execs s (db, x, a) of None \<Rightarrow> newAccount a | Some acc \<Rightarrow> acc)"

definition SaveAccount :: "accdb \<Rightarrow> account \<Rightarrow> 'a ledger_scheme \<Rightarrow> 'a ledger_scheme" where
  "SaveAccount db acc s = s\<lparr>accts := (accts s)((db, Addr acc) \<mapsto> acc)\<rparr>"

definition SaveExecAccount :: "accdb \<Rightarrow> addr \<Rightarrow> account \<Rightarrow> 'a ledger_scheme \<Rightarrow> 'a ledger_scheme" where
  "SaveExecAccount db x acc s = s\<lparr>execs := (execs s)((db, x, Addr acc) \<mapsto> acc)\<rparr>"

definition GetKVSet :: "accdb \<Rightarrow> account \<Rightarrow> 'd kv list" where
  "GetKVSet db acc = [KVAcc db (Addr acc) acc]"

definition GetExecKVSet :: "accdb \<Rightarrow> addr \<Rightarrow> account \<Rightarrow> 'd kv list" where
  "GetExecKVSet db x acc = [KVExec db x (Addr acc) acc]"

definition transferReceipt ::
  "accdb \<Rightarrow> account \<Rightarrow> account \<Rightarrow> account \<Rightarrow> account \<Rightarrow> ('d, 'l) receipt" where
  "transferReceipt db from to prevFrom prevTo =
     \<lparr>rTy = ExecOk, rKV = GetKVSet db from @ GetKVSet db to,
      rLogs = [LogAcc 3 prevFrom from, LogAcc 3 prevTo to]\<rparr>"

definition execReceipt ::
  "accdb \<Rightarrow> int \<Rightarrow> addr \<Rightarrow> account \<Rightarrow> account \<Rightarrow> ('d, 'l) receipt" where
  "execReceipt db ty x prev acc1 =
     \<lparr>rTy = ExecOk, rKV = GetExecKVSet db x acc1, rLogs = [LogExec ty x prev acc1]\<rparr>"

definition execReceipt2 ::
  "accdb \<Rightarrow> addr \<Rightarrow> account \<Rightarrow> account \<Rightarrow> account \<Rightarrow> account \<Rightarrow> ('d, 'l) receipt" where
  "execReceipt2 db x acc1 acc2 prev1 prev2 =
     \<lparr>rTy = ExecOk, rKV = GetExecKVSet db x acc1 @ GetExecKVSet db x acc2,
      rLogs = [LogExec 6 x prev1 acc1, LogExec 6 x prev2 acc2]\<rparr>"

definition mergeReceipt :: "('d, 'l) receipt \<Rightarrow> ('d, 'l) receipt \<Rightarrow> ('d, 'l) receipt" where
  "mergeReceipt r1 r2 = r1\<lparr>rLogs := rLogs r1 @ rLogs r2, rKV := rKV r1 @ rKV r2\<rparr>"

definition CheckTransfer :: "accdb \<Rightarrow> addr \<Rightarrow> addr \<Rightarrow> int \<Rightarrow> 'a ledger_scheme \<Rightarrow> err option" where
  "CheckTransfer db from to amount s =
     (if \<not> CheckAmount amount then Some ErrAmount
      else if sub64 (Balance (LoadAccount db from s)) amount < 0 then Some ErrNoBalance
      else None)"

definition Transfer ::
  "accdb \<Rightarrow> addr \<Rightarrow> addr \<Rightarrow> int \<Rightarrow> 'a ledger_scheme \<Rightarrow>
   ('a ledger_scheme, ('d, 'l) receipt) outcome" where
  "Transfer db from to amount s =
     (if \<not> CheckAmount amount then (Inl ErrAmount, s)
      else let accFrom = LoadAccount db from s; accTo = LoadAccount db to s in
      if Addr accFrom = Addr accTo then (Inl ErrSendSameToRecv, s)
      else if sub64 (Balance accFrom) amount \<ge> 0 then
        let accFrom' = accFrom\<lparr>Balance := sub64 (Balance accFrom) amount\<rparr>;
            accTo' = accTo\<lparr>Balance := add64 (Balance accTo) amount\<rparr>
        in (Inr (transferReceipt db accFrom' accTo' accFrom accTo),
            SaveAccount db accTo' (SaveAccount db accFrom' s))
      else (Inl ErrNoBalance, s))"

definition depositBalance ::
  "accdb \<Rightarrow> addr \<Rightarrow> int \<Rightarrow> 'a ledger_scheme \<Rightarrow> ('a ledger_scheme, ('d, 'l) receipt) outcome" where
  "depositBalance db x amount s =
     (if \<not> CheckAmount amount then (Inl ErrAmount, s)
      else let acc = LoadAccount db x s; acc' = acc\<lparr>Balance := add64 (Balance acc) amount\<rparr>
      in (Inr \<lparr>rTy = ExecOk, rKV = GetKVSet db acc', rLogs = [LogAcc 5 acc acc']\<rparr>,
          SaveAccount db acc' s))"

definition ExecFrozen ::
  "accdb \<Rightarrow> addr \<Rightarrow> addr \<Rightarrow> int \<Rightarrow> 'a ledger_scheme \<Rightarrow>
   ('a ledger_scheme, ('d, 'l) receipt) outcome" where
  "ExecFrozen db a x amount s =
     (if a = x then (Inl ErrSendSameToRecv, s)
      else if \<not> CheckAmount amount then (Inl ErrAmount, s)
      else let acc = LoadExecAccount db a x s in
      if sub64 (Balance acc) amount < 0 then (Inl ErrNoBalance, s)
      else
        let acc' = acc\<lparr>Balance := sub64 (Balance acc) amount,
                       Frozen := add64 (Frozen acc) amount\<rparr>
        in (Inr (execReceipt db 9 x acc acc'), SaveExecAccount db x acc' s))"

definition ExecActive ::
  "accdb \<Rightarrow> addr \<Rightarrow> addr \<Rightarrow> int \<Rightarrow> 'a ledger_scheme \<Rightarrow>
   ('a ledger_scheme, ('d, 'l) receipt) outcome" where
  "ExecActive db a x amount s =
     (if a = x then (Inl ErrSendSameToRecv, s)
      else if \<not> CheckAmount amount then (Inl ErrAmount, s)
      else let acc = LoadExecAccount db a x s in
      if sub64 (Frozen acc) amount < 0 then (Inl ErrNoBalance, s)
      else
        let acc' = acc\<lparr>Balance := add64 (Balance acc) amount,
                       Frozen := sub64 (Frozen acc) amount\<rparr>
        in (Inr (execReceipt db 10 x acc acc'), SaveExecAccount db x acc' s))"

definition ExecTransfer ::
  "accdb \<Rightarrow> addr \<Rightarrow> addr \<Rightarrow> addr \<Rightarrow> int \<Rightarrow> 'a ledger_scheme \<Rightarrow>
   ('a ledger_scheme, ('d, 'l) receipt) outcome" where
  "ExecTransfer db from to x amount s =
     (if from = to then (Inl ErrSendSameToRecv, s)
      else if \<not> CheckAmount amount then (Inl ErrAmount, s)
      else let accFrom = LoadExecAccount db from x s; accTo = LoadExecAccount db to x s in
      if sub64 (Balance accFrom) amount < 0 then (Inl ErrNoBalance, s)
      else
        let accFrom' = accFrom\<lparr>Balance := sub64 (Balance accFrom) amount\<rparr>;
            accTo' = accTo\<lparr>Balance := add64 (Balance accTo) amount\<rparr>
        in (Inr (execReceipt2 db x accFrom' accTo' accFrom accTo),
            SaveExecAccount db x accTo' (SaveExecAccount db x accFrom' s)))"

definition ExecTransferFrozen ::
  "accdb \<Rightarrow> addr \<Rightarrow> addr \<Rightarrow> addr \<Rightarrow> int \<Rightarrow> 'a ledger_scheme \<Rightarrow>
   ('a ledger_scheme, ('d, 'l) receipt) outcome" where
  "ExecTransferFrozen db from to x amount s =
     (if from = to then (Inl ErrSendSameToRecv, s)
      else if \<not> CheckAmount amount then (Inl ErrAmount, s)
      else let accFrom = LoadExecAccount db from x s; accTo = LoadExecAccount db to x s in
      if sub64 (Frozen accFrom) amount < 0 then (Inl ErrNoBalance, s)
      else
        let accFrom' = accFrom\<lparr>Frozen := sub64 (Frozen accFrom) amount\<rparr>;
            accTo' = accTo\<lparr>Balance := add64 (Balance accTo) amount\<rparr>
        in (Inr (execReceipt2 db x accFrom' accTo' accFrom accTo),
            SaveExecAccount db x accTo' (SaveExecAccount db x accFrom' s)))"

definition ExecDeposit ::
  "accdb \<Rightarrow> addr \<Rightarrow> addr \<Rightarrow> int \<Rightarrow> 'a ledger_scheme \<Rightarrow>
   ('a ledger_scheme, ('d, 'l) receipt) outcome" where
  "ExecDeposit db a x amount s =
     (if a = x then (Inl ErrSendSameToRecv, s)
      else if \<not> CheckAmount amount then (Inl ErrAmount, s)
      else let acc = LoadExecAccount db a x s; acc' = acc\<lparr>Balance := add64 (Balance acc) amount\<rparr>
      in (Inr (execReceipt db 8 x acc acc'), SaveExecAccount db x acc' s))"

definition execDepositFrozen ::
  "accdb \<Rightarrow> addr \<Rightarrow> addr \<Rightarrow> int \<Rightarrow> 'a ledger_scheme \<Rightarrow>
   ('a ledger_scheme, ('d, 'l) receipt) outcome" where
  "execDepositFrozen db a x amount s =
     (if a = x then (Inl ErrSendSameToRecv, s)
      else if \<not> CheckAmount amount then (Inl ErrAmount, s)
      else let acc = LoadExecAccount db a x s; acc' = acc\<lparr>Frozen := add64 (Frozen acc) amount\<rparr>
      in (Inr (execReceipt db 8 x acc acc'), SaveExecAccount db x acc' s))"

text \<open>
  \<open>allowed\<close> is the list of executor addresses computed from \<open>types.AllowDepositExec\<close>; the
  address of an executor name is the hash \<open>address.ExecAddress\<close>.
\<close>

definition ExecDepositFrozen ::
  "addr list \<Rightarrow> accdb \<Rightarrow> addr \<Rightarrow> addr \<Rightarrow> int \<Rightarrow> 'a ledger_scheme \<Rightarrow>
   ('a ledger_scheme, ('d, 'l) receipt) outcome" where
  "ExecDepositFrozen allowed db a x amount s =
     (if a = x then (Inl ErrSendSameToRecv, s)
      else if x \<notin> set allowed then (Inl ErrNotAllowDeposit, s)
      else bindE (depositBalance db x amount s) (\<lambda>r1 s1.
           bindE (execDepositFrozen db a x amount s1) (\<lambda>r2 s2. (Inr (mergeReceipt r1 r2), s2))))"

definition ExecWithdraw ::
  "accdb \<Rightarrow> addr \<Rightarrow> addr \<Rightarrow> int \<Rightarrow> 'a ledger_scheme \<Rightarrow>
   ('a ledger_scheme, ('d, 'l) receipt) outcome" where
  "ExecWithdraw db x a amount s =
     (if a = x then (Inl ErrSendSameToRecv, s)
      else if \<not> CheckAmount amount then (Inl ErrAmount, s)
      else let acc = LoadExecAccount db a x s in
      if sub64 (Balance acc) amount < 0 then (Inl ErrNoBalance, s)
      else let acc' = acc\<lparr>Balance := sub64 (Balance acc) amount\<rparr>
      in (Inr (execReceipt db 7 x acc acc'), SaveExecAccount db x acc' s))"

definition TransferToExec ::
  "accdb \<Rightarrow> addr \<Rightarrow> addr \<Rightarrow> int \<Rightarrow> 'a ledger_scheme \<Rightarrow>
   ('a ledger_scheme, ('d, 'l) receipt) outcome" where
  "TransferToExec db from to amount s =
     bindE (Transfer db from to amount s) (\<lambda>r1 s1.
       case ExecDeposit db from to amount s1 of
         (Inl e, s2) \<Rightarrow> (Inl Panic, s2)
       | (Inr r2, s2) \<Rightarrow> (Inr (mergeReceipt r1 r2), s2))"

definition TransferWithdraw ::
  "accdb \<Rightarrow> addr \<Rightarrow> addr \<Rightarrow> int \<Rightarrow> 'a ledger_scheme \<Rightarrow>
   ('a ledger_scheme, ('d, 'l) receipt) outcome" where
  "TransferWithdraw db from to amount s =
     (case CheckTransfer db to from amount s of
        Some e \<Rightarrow> (Inl e, s)
      | None \<Rightarrow>
          bindE (ExecWithdraw db to from amount s) (\<lambda>r1 s1.
            case Transfer db to from amount s1 of
              (Inl e, s2) \<Rightarrow> (Inl Panic, s2)
            | (Inr r2, s2) \<Rightarrow> (Inr (mergeReceipt r1 r2), s2)))"

definition GenesisInit ::
  "accdb \<Rightarrow> addr \<Rightarrow> int \<Rightarrow> 'a ledger_scheme \<Rightarrow> ('a ledger_scheme, ('d, 'l) receipt) outcome" where
  "GenesisInit db a amount s =
     (let accTo = LoadAccount db a s; accTo' = accTo\<lparr>Balance := add64 (Balance accTo) amount\<rparr>
      in (Inr \<lparr>rTy = ExecOk, rKV = GetKVSet db accTo', rLogs = [LogAcc 11 accTo accTo']\<rparr>,
          SaveAccount db accTo' s))"

section \<open>Balances, totals and the well-formedness invariant\<close>

abbreviation bal :: "accdb \<Rightarrow> addr \<Rightarrow> addr \<Rightarrow> 'a ledger_scheme \<Rightarrow> int" where
  "bal db x a s \<equiv> Balance (LoadExecAccount db a x s)"

abbreviation frz :: "accdb \<Rightarrow> addr \<Rightarrow> addr \<Rightarrow> 'a ledger_scheme \<Rightarrow> int" where
  "frz db x a s \<equiv> Frozen (LoadExecAccount db a x s)"

definition holding :: "account \<Rightarrow> int" where
  "holding acc = Balance acc + Frozen acc"

text \<open>What the sub-accounts of executor address \<open>x\<close> hold together, and the coin accounts.\<close>

definition exec_total :: "accdb \<Rightarrow> addr \<Rightarrow> 'a ledger_scheme \<Rightarrow> int" where
  "exec_total db x s = msum holding (\<lambda>a. execs s (db, x, a))"

definition acct_total :: "accdb \<Rightarrow> 'a ledger_scheme \<Rightarrow> int" where
  "acct_total db s = msum holding (\<lambda>a. accts s (db, a))"

definition wf_account :: "addr \<Rightarrow> account \<Rightarrow> bool" where
  "wf_account a acc \<longleftrightarrow> Addr acc = a \<and> 0 \<le> Balance acc \<and> 0 \<le> Frozen acc"

definition wf_ledger :: "'a ledger_scheme \<Rightarrow> bool" where
  "wf_ledger s \<longleftrightarrow>
     finite (dom (accts s)) \<and> finite (dom (execs s)) \<and>
     (\<forall>db a acc. accts s (db, a) = Some acc \<longrightarrow> wf_account a acc) \<and>
     (\<forall>db x a acc. execs s (db, x, a) = Some acc \<longrightarrow> wf_account a acc) \<and>
     (\<forall>db. acct_total db s \<le> MaxInt64) \<and>
     (\<forall>db x. exec_total db x s \<le> MaxInt64)"

text \<open>Writing the two balances of one sub-account.\<close>

definition setExec ::
  "accdb \<Rightarrow> addr \<Rightarrow> addr \<Rightarrow> int \<Rightarrow> int \<Rightarrow> 'a ledger_scheme \<Rightarrow> 'a ledger_scheme" where
  "setExec db x a b f s = s\<lparr>execs := (execs s)((db, x, a) \<mapsto>
     (LoadExecAccount db a x s)\<lparr>Balance := b, Frozen := f\<rparr>)\<rparr>"

definition setAcct :: "accdb \<Rightarrow> addr \<Rightarrow> int \<Rightarrow> 'a ledger_scheme \<Rightarrow> 'a ledger_scheme" where
  "setAcct db a b s = s\<lparr>accts := (accts s)((db, a) \<mapsto> (LoadAccount db a s)\<lparr>Balance := b\<rparr>)\<rparr>"

lemma wf_newAccount [simp]: "wf_account a (newAccount a)"
  by (simp add: wf_account_def newAccount_def)

lemma holding_newAccount [simp]: "holding (newAccount a) = 0"
  by (simp add: holding_def newAccount_def)

lemma wf_LoadExec: "wf_ledger s \<Longrightarrow> wf_account a (LoadExecAccount db a x s)"
  by (auto simp: LoadExecAccount_def wf_ledger_def split: option.splits)

lemma wf_LoadAcct: "wf_ledger s \<Longrightarrow> wf_account a (LoadAccount db a s)"
  by (auto simp: LoadAccount_def wf_ledger_def split: option.splits)

lemma Addr_LoadExec [simp]: "wf_ledger s \<Longrightarrow> Addr (LoadExecAccount db a x s) = a"
  using wf_LoadExec [of s a db x] by (simp add: wf_account_def)

lemma Addr_LoadAcct [simp]: "wf_ledger s \<Longrightarrow> Addr (LoadAccount db a s) = a"
  using wf_LoadAcct [of s a db] by (simp add: wf_account_def)

lemma bal_nonneg [simp]: "wf_ledger s \<Longrightarrow> 0 \<le> bal db x a s"
  and frz_nonneg [simp]: "wf_ledger s \<Longrightarrow> 0 \<le> frz db x a s"
  using wf_LoadExec [of s a db x] by (simp_all add: wf_account_def)

lemma holding_nonneg: "wf_account a acc \<Longrightarrow> 0 \<le> holding acc"
  by (simp add: wf_account_def holding_def)

lemma exec_map_facts:
  assumes "wf_ledger s"
  shows "finite (dom (\<lambda>a. execs s (db, x, a)))"
    and "\<And>a acc. execs s (db, x, a) = Some acc \<Longrightarrow> 0 \<le> holding acc"
proof -
  have "finite (dom (execs s))" using assms by (simp add: wf_ledger_def)
  then have "finite (dom (\<lambda>p. execs s (db, p)))" by (rule finite_dom_curry)
  then show "finite (dom (\<lambda>a. execs s (db, x, a)))" by (rule finite_dom_curry)
  show "\<And>a acc. execs s (db, x, a) = Some acc \<Longrightarrow> 0 \<le> holding acc"
    using assms unfolding wf_ledger_def by (blast intro: holding_nonneg)
qed

lemma acct_map_facts:
  assumes "wf_ledger s"
  shows "finite (dom (\<lambda>a. accts s (db, a)))"
    and "\<And>a acc. accts s (db, a) = Some acc \<Longrightarrow> 0 \<le> holding acc"
  using assms unfolding wf_ledger_def by (blast intro: holding_nonneg finite_dom_curry)+

lemma exec_total_nonneg: "wf_ledger s \<Longrightarrow> 0 \<le> exec_total db x s"
  unfolding exec_total_def by (rule msum_nonneg) (rule exec_map_facts)

lemma exec_total_max: "wf_ledger s \<Longrightarrow> exec_total db x s \<le> MaxInt64"
  by (simp add: wf_ledger_def)

lemma acct_total_max: "wf_ledger s \<Longrightarrow> acct_total db s \<le> MaxInt64"
  by (simp add: wf_ledger_def)

lemma exec_holding_le_total:
  assumes "wf_ledger s"
  shows "bal db x a s + frz db x a s \<le> exec_total db x s"
proof (cases "execs s (db, x, a)")
  case None
  then show ?thesis
    using exec_total_nonneg [OF assms, of db x] by (simp add: LoadExecAccount_def newAccount_def)
next
  case (Some acc)
  then have "holding acc \<le> exec_total db x s"
    unfolding exec_total_def using exec_map_facts [OF assms] by (intro msum_le_one) auto
  with Some show ?thesis by (simp add: LoadExecAccount_def holding_def)
qed

lemma exec_two_holdings_le_total:
  assumes "wf_ledger s" "a \<noteq> b"
  shows "bal db x a s + frz db x a s + (bal db x b s + frz db x b s) \<le> exec_total db x s"
proof (cases "execs s (db, x, a) = None \<or> execs s (db, x, b) = None")
  case True
  then show ?thesis
    using exec_holding_le_total [OF assms(1), of db a x] exec_holding_le_total [OF assms(1), of db b x]
    by (auto simp: LoadExecAccount_def newAccount_def)
next
  case False
  then obtain u v where uv: "execs s (db, x, a) = Some u" "execs s (db, x, b) = Some v" by auto
  then have "holding u + holding v \<le> exec_total db x s"
    unfolding exec_total_def using exec_map_facts [OF assms(1)] assms(2)
    by (intro msum_le_two [where k = a and j = b]) auto
  with uv show ?thesis by (simp add: LoadExecAccount_def holding_def)
qed

lemma acct_two_le_total:
  assumes "wf_ledger s" "a \<noteq> b"
  shows "holding (LoadAccount db a s) + holding (LoadAccount db b s) \<le> acct_total db s"
proof -
  have one: "holding (LoadAccount db c s) \<le> acct_total db s" for c
    using acct_map_facts [OF assms(1), of db] msum_nonneg [of "\<lambda>a. accts s (db, a)" holding]
    by (cases "accts s (db, c)")
      (auto simp: LoadAccount_def acct_total_def intro: msum_le_one)
  show ?thesis
  proof (cases "accts s (db, a) = None \<or> accts s (db, b) = None")
    case True
    then show ?thesis using one [of a] one [of b] by (auto simp: LoadAccount_def)
  next
    case False
    then obtain u v where uv: "accts s (db, a) = Some u" "accts s (db, b) = Some v" by auto
    then have "holding u + holding v \<le> acct_total db s"
      unfolding acct_total_def using acct_map_facts [OF assms(1)] assms(2)
      by (intro msum_le_two [where k = a and j = b]) auto
    with uv show ?thesis by (simp add: LoadAccount_def)
  qed
qed

section \<open>Effect of writing one account\<close>

lemma LoadExec_setExec [simp]:
  "LoadExecAccount db' a' x' (setExec db x a b f s) =
     (if db' = db \<and> x' = x \<and> a' = a then (LoadExecAccount db a x s)\<lparr>Balance := b, Frozen := f\<rparr>
      else LoadExecAccount db' a' x' s)"
  by (simp add: setExec_def LoadExecAccount_def [of _ _ _ "ledger.execs_update _ _"])
     (auto simp: LoadExecAccount_def)

lemma accts_setExec [simp]: "accts (setExec db x a b f s) = accts s"
  and more_setExec [simp]: "ledger.more (setExec db x a b f s) = ledger.more s"
  by (simp_all add: setExec_def)

lemma LoadAccount_setExec [simp]: "LoadAccount db' a' (setExec db x a b f s) = LoadAccount db' a' s"
  by (simp add: LoadAccount_def)

lemma exec_total_setExec:
  assumes "wf_ledger s"
  shows "exec_total db' x' (setExec db x a b f s) =
    (if db' = db \<and> x' = x then exec_total db x s - bal db x a s - frz db x a s + b + f
     else exec_total db' x' s)"
proof (cases "db' = db \<and> x' = x")
  case True
  let ?m = "\<lambda>a. execs s (db, x, a)"
  let ?acc = "(LoadExecAccount db a x s)\<lparr>Balance := b, Frozen := f\<rparr>"
  have "(\<lambda>c. execs (setExec db x a b f s) (db, x, c)) = ?m(a \<mapsto> ?acc)"
    using assms by (auto simp: setExec_def)
  then have "exec_total db x (setExec db x a b f s) = msum holding (?m(a \<mapsto> ?acc))"
    by (simp add: exec_total_def)
  also have "\<dots> = exec_total db x s - (case ?m a of None \<Rightarrow> 0 | Some u \<Rightarrow> holding u) + (b + f)"
    using exec_map_facts(1) [OF assms, of db x]
    by (simp add: msum_upd exec_total_def holding_def [of ?acc])
  finally show ?thesis
    using True by (auto simp: LoadExecAccount_def holding_def newAccount_def split: option.splits)
next
  case False
  then have "(\<lambda>c. execs (setExec db x a b f s) (db', x', c)) = (\<lambda>c. execs s (db', x', c))"
    by (auto simp: setExec_def)
  with False show ?thesis by (auto simp: exec_total_def)
qed

lemma wf_setExec:
  assumes "wf_ledger s" "0 \<le> b" "0 \<le> f"
    and "exec_total db x s - bal db x a s - frz db x a s + b + f \<le> MaxInt64"
  shows "wf_ledger (setExec db x a b f s)"
proof -
  let ?t = "setExec db x a b f s"
  have "finite (dom (execs ?t))"
    using assms(1) by (simp add: setExec_def wf_ledger_def)
  moreover have "\<forall>db' x' c acc. execs ?t (db', x', c) = Some acc \<longrightarrow> wf_account c acc"
    using assms(1-3) wf_LoadExec [OF assms(1), of a db x]
    by (auto simp: setExec_def wf_ledger_def wf_account_def)
  moreover have "exec_total db' x' ?t \<le> MaxInt64" for db' x'
    using assms(4) exec_total_max [OF assms(1), of db' x'] by (simp add: exec_total_setExec [OF assms(1)])
  ultimately show ?thesis
    using assms(1) by (simp add: wf_ledger_def acct_total_def)
qed

lemma LoadAccount_setAcct [simp]:
  "LoadAccount db' a' (setAcct db a b s) =
     (if db' = db \<and> a' = a then (LoadAccount db a s)\<lparr>Balance := b\<rparr> else LoadAccount db' a' s)"
  by (simp add: setAcct_def LoadAccount_def [of _ _ "ledger.accts_update _ _"])
     (auto simp: LoadAccount_def)

lemma execs_setAcct [simp]: "execs (setAcct db a b s) = execs s"
  and more_setAcct [simp]: "ledger.more (setAcct db a b s) = ledger.more s"
  by (simp_all add: setAcct_def)

lemma LoadExec_setAcct [simp]: "LoadExecAccount db' a' x (setAcct db a b s) = LoadExecAccount db' a' x s"
  by (simp add: LoadExecAccount_def)

lemma acct_total_setAcct:
  assumes "wf_ledger s"
  shows "acct_total db' (setAcct db a b s) =
    (if db' = db then acct_total db s - Balance (LoadAccount db a s) + b else acct_total db' s)"
proof (cases "db' = db")
  case True
  let ?m = "\<lambda>a. accts s (db, a)"
  let ?acc = "(LoadAccount db a s)\<lparr>Balance := b\<rparr>"
  have "(\<lambda>c. accts (setAcct db a b s) (db, c)) = ?m(a \<mapsto> ?acc)"
    using assms by (auto simp: setAcct_def)
  then have "acct_total db (setAcct db a b s) = msum holding (?m(a \<mapsto> ?acc))"
    by (simp add: acct_total_def)
  also have "\<dots> = acct_total db s - (case ?m a of None \<Rightarrow> 0 | Some u \<Rightarrow> holding u) + holding ?acc"
    using acct_map_facts(1) [OF assms, of db] by (simp add: msum_upd acct_total_def)
  finally show ?thesis
    using True by (auto simp: LoadAccount_def holding_def newAccount_def split: option.splits)
next
  case False
  then have "(\<lambda>c. accts (setAcct db a b s) (db', c)) = (\<lambda>c. accts s (db', c))"
    by (auto simp: setAcct_def)
  with False show ?thesis by (simp add: acct_total_def)
qed

lemma wf_setAcct:
  assumes "wf_ledger s" "0 \<le> b" "acct_total db s - Balance (LoadAccount db a s) + b \<le> MaxInt64"
  shows "wf_ledger (setAcct db a b s)"
proof -
  let ?t = "setAcct db a b s"
  have "finite (dom (accts ?t))"
    using assms(1) by (simp add: setAcct_def wf_ledger_def)
  moreover have "\<forall>db' c acc. accts ?t (db', c) = Some acc \<longrightarrow> wf_account c acc"
    using assms(1,2) wf_LoadAcct [OF assms(1), of a db]
    by (auto simp: setAcct_def wf_ledger_def wf_account_def)
  moreover have "acct_total db' ?t \<le> MaxInt64" for db'
    using assms(3) acct_total_max [OF assms(1), of db'] by (simp add: acct_total_setAcct [OF assms(1)])
  ultimately show ?thesis
    using assms(1) by (simp add: wf_ledger_def exec_total_def)
qed

section \<open>Operations on a well-formed ledger\<close>

text \<open>
  On a well-formed ledger no operation wraps around, and each is the plain arithmetic on the
  balances of the accounts it names.
\<close>

lemma CheckAmount_iff: "CheckAmount n \<longleftrightarrow> 0 < n \<and> n < MaxCoin"
  by (auto simp: CheckAmount_def)

lemma CheckAmount_bounds: "CheckAmount n \<Longrightarrow> 0 < n \<and> n \<le> MaxInt64"
  by (auto simp: CheckAmount_def MaxCoin_def MaxInt64_def)

lemma bal_max: "wf_ledger s \<Longrightarrow> bal db x a s \<le> MaxInt64"
  and frz_max: "wf_ledger s \<Longrightarrow> frz db x a s \<le> MaxInt64"
  using exec_holding_le_total [of s db a x] exec_total_max [of s db x]
    bal_nonneg [of s db a x] frz_nonneg [of s db a x] by linarith+

lemma sub64_bal:
  "wf_ledger s \<Longrightarrow> CheckAmount n \<Longrightarrow> sub64 (bal db x a s) n = bal db x a s - n"
  "wf_ledger s \<Longrightarrow> CheckAmount n \<Longrightarrow> sub64 (frz db x a s) n = frz db x a s - n"
  using CheckAmount_bounds [of n] by (simp_all add: sub64_nonneg bal_max frz_max)

lemma add64_own:
  assumes "wf_ledger s"
  shows "CheckAmount n \<Longrightarrow> n \<le> bal db x a s \<Longrightarrow> add64 (frz db x a s) n = frz db x a s + n"
    and "CheckAmount n \<Longrightarrow> n \<le> frz db x a s \<Longrightarrow> add64 (bal db x a s) n = bal db x a s + n"
  using CheckAmount_bounds [of n] exec_holding_le_total [OF assms, of db a x] exec_total_max [OF assms, of db x]
    bal_nonneg [OF assms, of db a x] frz_nonneg [OF assms, of db a x]
  by (auto intro!: add64_nonneg)

lemma add64_other:
  assumes "wf_ledger s" "a \<noteq> b" "0 \<le> n" "n \<le> bal db x a s + frz db x a s"
  shows "add64 (bal db x b s) n = bal db x b s + n"
  using exec_two_holdings_le_total [OF assms(1,2), of db x] exec_total_max [OF assms(1), of db x]
    bal_nonneg [OF assms(1), of db b x] frz_nonneg [OF assms(1), of db b x] assms(3,4)
  by (auto intro!: add64_nonneg)

lemma SaveExec_one:
  assumes "wf_ledger s"
  shows "SaveExecAccount db x ((LoadExecAccount db a x s)\<lparr>Balance := b, Frozen := f\<rparr>) s =
           setExec db x a b f s"
    and "SaveExecAccount db x ((LoadExecAccount db a x s)\<lparr>Balance := b\<rparr>) s =
           setExec db x a b (frz db x a s) s"
    and "SaveExecAccount db x ((LoadExecAccount db a x s)\<lparr>Frozen := f\<rparr>) s =
           setExec db x a (bal db x a s) f s"
  using assms by (simp_all add: SaveExecAccount_def setExec_def)

lemma SaveExec_two:
  assumes "wf_ledger s" "a \<noteq> b"
  shows "SaveExecAccount db x ((LoadExecAccount db b x s)\<lparr>Balance := v\<rparr>) (setExec db x a u f s) =
           setExec db x b v (frz db x b s) (setExec db x a u f s)"
proof -
  have "LoadExecAccount db b x (setExec db x a u f s) = LoadExecAccount db b x s"
    using assms by simp
  then show ?thesis
    using assms(1) by (simp add: SaveExecAccount_def setExec_def [of _ _ b])
qed

lemma ExecFrozen_wf:
  assumes "wf_ledger s"
  shows "ExecFrozen db a x n s =
    (if a = x then (Inl ErrSendSameToRecv, s)
     else if \<not> CheckAmount n then (Inl ErrAmount, s)
     else if bal db x a s < n then (Inl ErrNoBalance, s)
     else let s' = setExec db x a (bal db x a s - n) (frz db x a s + n) s
          in (Inr (execReceipt db 9 x (LoadExecAccount db a x s) (LoadExecAccount db a x s')), s'))"
  using assms
  by (simp add: ExecFrozen_def Let_def sub64_bal add64_own SaveExec_one)

lemma ExecActive_wf:
  assumes "wf_ledger s"
  shows "ExecActive db a x n s =
    (if a = x then (Inl ErrSendSameToRecv, s)
     else if \<not> CheckAmount n then (Inl ErrAmount, s)
     else if frz db x a s < n then (Inl ErrNoBalance, s)
     else let s' = setExec db x a (bal db x a s + n) (frz db x a s - n) s
          in (Inr (execReceipt db 10 x (LoadExecAccount db a x s) (LoadExecAccount db a x s')), s'))"
  using assms
  by (simp add: ExecActive_def Let_def sub64_bal add64_own SaveExec_one)

lemma add64_recv:
  assumes "wf_ledger s" "a \<noteq> b" "CheckAmount n" "n \<le> bal db x a s \<or> n \<le> frz db x a s"
  shows "add64 (bal db x b s) n = bal db x b s + n"
  using add64_other [OF assms(1,2), of n db x] assms(3,4) CheckAmount_bounds [of n]
    bal_nonneg [OF assms(1), of db a x] frz_nonneg [OF assms(1), of db a x] by linarith

lemma ExecTransfer_wf:
  assumes "wf_ledger s"
  shows "ExecTransfer db a b x n s =
    (if a = b then (Inl ErrSendSameToRecv, s)
     else if \<not> CheckAmount n then (Inl ErrAmount, s)
     else if bal db x a s < n then (Inl ErrNoBalance, s)
     else let s' = setExec db x b (bal db x b s + n) (frz db x b s)
                     (setExec db x a (bal db x a s - n) (frz db x a s) s)
          in (Inr (execReceipt2 db x (LoadExecAccount db a x s') (LoadExecAccount db b x s')
                     (LoadExecAccount db a x s) (LoadExecAccount db b x s)), s'))"
  using assms
  by (simp add: ExecTransfer_def Let_def sub64_bal add64_recv [of s a b] SaveExec_one SaveExec_two)

lemma ExecTransferFrozen_wf:
  assumes "wf_ledger s"
  shows "ExecTransferFrozen db a b x n s =
    (if a = b then (Inl ErrSendSameToRecv, s)
     else if \<not> CheckAmount n then (Inl ErrAmount, s)
     else if frz db x a s < n then (Inl ErrNoBalance, s)
     else let s' = setExec db x b (bal db x b s + n) (frz db x b s)
                     (setExec db x a (bal db x a s) (frz db x a s - n) s)
          in (Inr (execReceipt2 db x (LoadExecAccount db a x s') (LoadExecAccount db b x s')
                     (LoadExecAccount db a x s) (LoadExecAccount db b x s)), s'))"
  using assms
  by (simp add: ExecTransferFrozen_def Let_def sub64_bal add64_recv [of s a b] SaveExec_one SaveExec_two)

lemma ExecFrozen_ok [go_result]:
  "wf_ledger s \<Longrightarrow> ExecFrozen db a x n s = (Inr r, s') \<longleftrightarrow>
     a \<noteq> x \<and> CheckAmount n \<and> n \<le> bal db x a s \<and>
     s' = setExec db x a (bal db x a s - n) (frz db x a s + n) s \<and>
     r = execReceipt db 9 x (LoadExecAccount db a x s) (LoadExecAccount db a x s')"
  by (auto simp: ExecFrozen_wf Let_def split: if_splits)

lemma ExecActive_ok [go_result]:
  "wf_ledger s \<Longrightarrow> ExecActive db a x n s = (Inr r, s') \<longleftrightarrow>
     a \<noteq> x \<and> CheckAmount n \<and> n \<le> frz db x a s \<and>
     s' = setExec db x a (bal db x a s + n) (frz db x a s - n) s \<and>
     r = execReceipt db 10 x (LoadExecAccount db a x s) (LoadExecAccount db a x s')"
  by (auto simp: ExecActive_wf Let_def split: if_splits)

lemma ExecTransfer_ok [go_result]:
  "wf_ledger s \<Longrightarrow> ExecTransfer db a b x n s = (Inr r, s') \<longleftrightarrow>
     a \<noteq> b \<and> CheckAmount n \<and> n \<le> bal db x a s \<and>
     s' = setExec db x b (bal db x b s + n) (frz db x b s)
            (setExec db x a (bal db x a s - n) (frz db x a s) s) \<and>
     r = execReceipt2 db x (LoadExecAccount db a x s') (LoadExecAccount db b x s')
           (LoadExecAccount db a x s) (LoadExecAccount db b x s)"
  by (auto simp: ExecTransfer_wf Let_def split: if_splits)

lemma ExecTransferFrozen_ok [go_result]:
  "wf_ledger s \<Longrightarrow> ExecTransferFrozen db a b x n s = (Inr r, s') \<longleftrightarrow>
     a \<noteq> b \<and> CheckAmount n \<and> n \<le> frz db x a s \<and>
     s' = setExec db x b (bal db x b s + n) (frz db x b s)
            (setExec db x a (bal db x a s) (frz db x a s - n) s) \<and>
     r = execReceipt2 db x (LoadExecAccount db a x s') (LoadExecAccount db b x s')
           (LoadExecAccount db a x s) (LoadExecAccount db b x s)"
  by (auto simp: ExecTransferFrozen_wf Let_def split: if_splits)

section \<open>Conservation\<close>

text \<open>
  The four operations an executor may call move value inside the pool of one executor address:
  they keep the ledger well formed, leave every pool total and every coin account unchanged,
  and touch no table of the executor.
\<close>

definition pool_step :: "'a ledger_scheme \<Rightarrow> 'a ledger_scheme \<Rightarrow> bool" where
  "pool_step s s' \<longleftrightarrow> wf_ledger s' \<and> accts s' = accts s \<and>
     (\<forall>db x. exec_total db x s' = exec_total db x s) \<and> ledger.more s' = ledger.more s"

lemma pool_step_refl: "wf_ledger s \<Longrightarrow> pool_step s s"
  by (simp add: pool_step_def)

lemma pool_step_trans [trans]: "pool_step s t \<Longrightarrow> pool_step t u \<Longrightarrow> pool_step s u"
  by (simp add: pool_step_def)

lemma pool_step_one:
  assumes "wf_ledger s" "0 \<le> b" "0 \<le> f" "b + f = bal db x a s + frz db x a s"
  shows "pool_step s (setExec db x a b f s)"
  using assms exec_total_max [OF assms(1), of db x]
  by (auto simp: pool_step_def exec_total_setExec intro!: wf_setExec)

lemma pool_step_two:
  assumes "wf_ledger s" "a \<noteq> b" "0 \<le> u" "0 \<le> f" "0 \<le> v" "0 \<le> g"
    and "u + f + v + g = bal db x a s + frz db x a s + bal db x b s + frz db x b s"
    and "u + f \<le> bal db x a s + frz db x a s"
  shows "pool_step s (setExec db x b v g (setExec db x a u f s))"
proof -
  let ?t = "setExec db x a u f s"
  have wt: "wf_ledger ?t"
    using assms exec_total_max [OF assms(1), of db x] by (intro wf_setExec) auto
  have "wf_ledger (setExec db x b v g ?t)"
    using assms wt exec_total_max [OF assms(1), of db x]
    by (intro wf_setExec) (auto simp: exec_total_setExec)
  then show ?thesis
    using assms wt by (auto simp: pool_step_def exec_total_setExec)
qed

lemma ExecFrozen_step: "wf_ledger s \<Longrightarrow> pool_step s (snd (ExecFrozen db a x n s))"
  by (auto simp: ExecFrozen_wf Let_def CheckAmount_iff intro: pool_step_refl intro!: pool_step_one)

lemma ExecActive_step: "wf_ledger s \<Longrightarrow> pool_step s (snd (ExecActive db a x n s))"
  by (auto simp: ExecActive_wf Let_def CheckAmount_iff intro: pool_step_refl intro!: pool_step_one)

lemma ExecTransfer_step: "wf_ledger s \<Longrightarrow> pool_step s (snd (ExecTransfer db a b x n s))"
  by (auto simp: ExecTransfer_wf Let_def CheckAmount_iff intro: pool_step_refl intro!: pool_step_two)

lemma ExecTransferFrozen_step: "wf_ledger s \<Longrightarrow> pool_step s (snd (ExecTransferFrozen db a b x n s))"
  by (auto simp: ExecTransferFrozen_wf Let_def CheckAmount_iff intro: pool_step_refl intro!: pool_step_two)

lemmas exec_steps = ExecFrozen_step ExecActive_step ExecTransfer_step ExecTransferFrozen_step

lemma exec_ok_step:
  assumes "wf_ledger s"
  shows "ExecFrozen db a x n s = (r, s') \<Longrightarrow> pool_step s s'"
    and "ExecActive db a x n s = (r, s') \<Longrightarrow> pool_step s s'"
    and "ExecTransfer db a b x n s = (r, s') \<Longrightarrow> pool_step s s'"
    and "ExecTransferFrozen db a b x n s = (r, s') \<Longrightarrow> pool_step s s'"
  using ExecFrozen_step [OF assms, of db a x n] ExecActive_step [OF assms, of db a x n]
    ExecTransfer_step [OF assms, of db a b x n]
    ExecTransferFrozen_step [OF assms, of db a b x n] by (metis snd_conv)+

lemma pool_step_wf: "pool_step s s' \<Longrightarrow> wf_ledger s'"
  by (simp add: pool_step_def)

text \<open>An error leaves the state as it was.\<close>

lemma exec_err_same:
  "ExecFrozen db a x n s = (Inl e, s') \<Longrightarrow> s' = s"
  "ExecActive db a x n s = (Inl e, s') \<Longrightarrow> s' = s"
  "ExecTransfer db a b x n s = (Inl e, s') \<Longrightarrow> s' = s"
  "ExecTransferFrozen db a b x n s = (Inl e, s') \<Longrightarrow> s' = s"
  by (auto simp: ExecFrozen_def ExecActive_def ExecTransfer_def ExecTransferFrozen_def Let_def
      split: if_splits)

section \<open>Replaying a receipt\<close>

text \<open>
  The node stores what the receipts of a block list under \<open>KV\<close>. Replaying the list writes
  each entry; the entries of an executor's own tables are written by the function given.
\<close>

fun apply_kv :: "('d \<Rightarrow> 'a ledger_scheme \<Rightarrow> 'a ledger_scheme) \<Rightarrow> 'd kv \<Rightarrow>
    'a ledger_scheme \<Rightarrow> 'a ledger_scheme" where
  "apply_kv f (KVAcc db a acc) s = s\<lparr>accts := (accts s)((db, a) \<mapsto> acc)\<rparr>"
| "apply_kv f (KVExec db x a acc) s = s\<lparr>execs := (execs s)((db, x, a) \<mapsto> acc)\<rparr>"
| "apply_kv f (KVDapp d) s = f d s"

definition replay :: "('d \<Rightarrow> 'a ledger_scheme \<Rightarrow> 'a ledger_scheme) \<Rightarrow> 'd kv list \<Rightarrow>
    'a ledger_scheme \<Rightarrow> 'a ledger_scheme" where
  "replay f kvs s = fold (apply_kv f) kvs s"

lemma replay_append [simp]: "replay f (xs @ ys) s = replay f ys (replay f xs s)"
  by (simp add: replay_def)

lemma replay_Nil [simp]: "replay f [] s = s"
  and replay_Cons [simp]: "replay f (x # xs) s = replay f xs (apply_kv f x s)"
  by (simp_all add: replay_def)

lemma exec_replay:
  "ExecFrozen db a x n s = (Inr r, s') \<Longrightarrow> replay f (rKV r) s = s'"
  "ExecActive db a x n s = (Inr r, s') \<Longrightarrow> replay f (rKV r) s = s'"
  "ExecTransfer db a b x n s = (Inr r, s') \<Longrightarrow> replay f (rKV r) s = s'"
  "ExecTransferFrozen db a b x n s = (Inr r, s') \<Longrightarrow> replay f (rKV r) s = s'"
  "Transfer db a b n s = (Inr r, s') \<Longrightarrow> replay f (rKV r) s = s'"
  "ExecDeposit db a x n s = (Inr r, s') \<Longrightarrow> replay f (rKV r) s = s'"
  "ExecWithdraw db x a n s = (Inr r, s') \<Longrightarrow> replay f (rKV r) s = s'"
  by (auto simp: ExecFrozen_def ExecActive_def ExecTransfer_def ExecTransferFrozen_def Transfer_def
      ExecDeposit_def ExecWithdraw_def Let_def execReceipt_def execReceipt2_def transferReceipt_def
      GetExecKVSet_def GetKVSet_def SaveExecAccount_def SaveAccount_def split: if_splits)

section \<open>Deposits into and withdrawals from an executor\<close>

text \<open>
  The coins of an executor's own account back the sub-accounts kept inside it. Moving coins
  into or out of the executor changes both by the same amount.
\<close>

definition coins :: "accdb \<Rightarrow> addr \<Rightarrow> 'a ledger_scheme \<Rightarrow> int" where
  "coins db a s = Balance (LoadAccount db a s)"

definition backed :: "'a ledger_scheme \<Rightarrow> bool" where
  "backed s \<longleftrightarrow> (\<forall>db x. exec_total db x s \<le> coins db x s)"

lemma coins_nonneg: "wf_ledger s \<Longrightarrow> 0 \<le> coins db a s"
  using wf_LoadAcct [of s a db] by (simp add: coins_def wf_account_def)

lemma coins_two_max:
  assumes "wf_ledger s" "a \<noteq> b"
  shows "coins db a s + coins db b s \<le> MaxInt64"
  using acct_two_le_total [OF assms, of db] acct_total_max [OF assms(1), of db]
    wf_LoadAcct [OF assms(1), of a db] wf_LoadAcct [OF assms(1), of b db]
  by (simp add: coins_def holding_def wf_account_def)

lemma coins_max: "wf_ledger s \<Longrightarrow> coins db a s \<le> MaxInt64"
  using coins_two_max [of s a "a @ ''x''" db] coins_nonneg [of s db "a @ ''x''"] by simp

lemma SaveAcct_one:
  assumes "wf_ledger s"
  shows "SaveAccount db ((LoadAccount db a s)\<lparr>Balance := b\<rparr>) s = setAcct db a b s"
  using assms by (simp add: SaveAccount_def setAcct_def)

lemma SaveAcct_two:
  assumes "wf_ledger s" "a \<noteq> b"
  shows "SaveAccount db ((LoadAccount db b s)\<lparr>Balance := v\<rparr>) (setAcct db a u s) =
           setAcct db b v (setAcct db a u s)"
proof -
  have "LoadAccount db b (setAcct db a u s) = LoadAccount db b s"
    using assms by simp
  then show ?thesis
    using assms(1) by (simp add: SaveAccount_def setAcct_def [of _ b])
qed

lemma Transfer_wf:
  assumes "wf_ledger s"
  shows "Transfer db a b n s =
    (if \<not> CheckAmount n then (Inl ErrAmount, s)
     else if a = b then (Inl ErrSendSameToRecv, s)
     else if coins db a s < n then (Inl ErrNoBalance, s)
     else let s' = setAcct db b (coins db b s + n) (setAcct db a (coins db a s - n) s)
          in (Inr (transferReceipt db (LoadAccount db a s') (LoadAccount db b s')
                     (LoadAccount db a s) (LoadAccount db b s)), s'))"
proof -
  have sub: "CheckAmount n \<Longrightarrow> sub64 (coins db a s) n = coins db a s - n"
    using CheckAmount_bounds [of n] coins_nonneg [OF assms, of db a] coins_max [OF assms, of db a]
    by (simp add: sub64_nonneg)
  have add: "add64 (coins db b s) n = coins db b s + n"
    if "CheckAmount n" "a \<noteq> b" "n \<le> coins db a s"
    using that CheckAmount_bounds [of n] coins_nonneg [OF assms, of db b]
      coins_two_max [OF assms that(2), of db] by (intro add64_nonneg) auto
  show ?thesis
    using assms sub add
    by (simp add: Transfer_def Let_def coins_def SaveAcct_one SaveAcct_two)
qed

lemma Transfer_effect:
  assumes "wf_ledger s" "Transfer db a b n s = (Inr r, s')"
  shows "a \<noteq> b \<and> CheckAmount n \<and> n \<le> coins db a s \<and> wf_ledger s' \<and> execs s' = execs s \<and>
    ledger.more s' = ledger.more s \<and> acct_total db s' = acct_total db s \<and>
    (\<forall>db' c. coins db' c s' = (if db' = db \<and> c = a then coins db a s - n
       else if db' = db \<and> c = b then coins db b s + n else coins db' c s))"
proof -
  let ?t = "setAcct db a (coins db a s - n) s"
  let ?u = "setAcct db b (coins db b s + n) ?t"
  from assms have ok: "a \<noteq> b" "CheckAmount n" "n \<le> coins db a s" "s' = ?u"
    by (auto simp: Transfer_wf Let_def split: if_splits)
  then have wt: "wf_ledger ?t"
    using assms(1) acct_total_max [OF assms(1), of db] CheckAmount_bounds [of n]
    by (intro wf_setAcct) (auto simp: coins_def)
  then have "wf_ledger ?u"
    using ok assms(1) acct_total_max [OF assms(1), of db] CheckAmount_bounds [of n]
      coins_nonneg [OF assms(1), of db b]
    by (intro wf_setAcct) (auto simp: coins_def acct_total_setAcct)
  then show ?thesis
    using ok assms(1) wt by (auto simp: coins_def acct_total_setAcct)
qed

lemma ExecDeposit_effect:
  assumes "wf_ledger s" "ExecDeposit db a x n s = (Inr r, s')" "exec_total db x s + n \<le> MaxInt64"
  shows "a \<noteq> x \<and> CheckAmount n \<and> s' = setExec db x a (bal db x a s + n) (frz db x a s) s \<and>
    wf_ledger s' \<and> exec_total db x s' = exec_total db x s + n"
proof -
  from assms(2) have ok: "a \<noteq> x" "CheckAmount n"
    by (auto simp: ExecDeposit_def Let_def split: if_splits)
  have "add64 (bal db x a s) n = bal db x a s + n"
    using assms(3) CheckAmount_bounds [OF ok(2)] exec_holding_le_total [OF assms(1), of db a x]
      bal_nonneg [OF assms(1), of db a x] frz_nonneg [OF assms(1), of db a x]
    by (intro add64_nonneg) linarith+
  then have s': "s' = setExec db x a (bal db x a s + n) (frz db x a s) s"
    using assms(1,2) ok by (auto simp: ExecDeposit_def Let_def SaveExec_one)
  moreover have "wf_ledger s'"
    unfolding s' using assms(1,3) ok(2) CheckAmount_bounds [of n] by (intro wf_setExec) auto
  ultimately show ?thesis
    using ok assms(1) by (simp add: exec_total_setExec)
qed

lemma ExecDeposit_defined:
  "a \<noteq> x \<Longrightarrow> CheckAmount n \<Longrightarrow> is_ok (ExecDeposit db a x n s)"
  by (simp add: ExecDeposit_def Let_def)

lemma ExecWithdraw_ok:
  assumes "wf_ledger s"
  shows "ExecWithdraw db x a n s = (Inr r, s') \<longleftrightarrow>
     a \<noteq> x \<and> CheckAmount n \<and> n \<le> bal db x a s \<and>
     s' = setExec db x a (bal db x a s - n) (frz db x a s) s \<and>
     r = execReceipt db 7 x (LoadExecAccount db a x s) (LoadExecAccount db a x s')"
  using assms
  by (auto simp: ExecWithdraw_def Let_def sub64_bal SaveExec_one split: if_splits)

lemma ExecWithdraw_wf_state:
  assumes "wf_ledger s" "CheckAmount n" "n \<le> bal db x a s"
  shows "wf_ledger (setExec db x a (bal db x a s - n) (frz db x a s) s)"
  using assms exec_total_max [OF assms(1), of db x] CheckAmount_bounds [of n]
  by (intro wf_setExec) auto

lemma TransferToExec_ok:
  fixes res :: "err + ('d, 'l) receipt"
  assumes wf: "wf_ledger s" and b: "backed s" and eq: "TransferToExec db a x n s = (res, s')"
    and ok: "a \<noteq> x" "CheckAmount n" "n \<le> coins db a s"
  shows "\<exists>r. res = Inr r"
    and "wf_ledger s'"
    and "acct_total db s' = acct_total db s"
    and "coins db' c s' = (if db' = db \<and> c = a then coins db a s - n
           else if db' = db \<and> c = x then coins db x s + n else coins db' c s)"
    and "exec_total db' y s' =
           (if db' = db \<and> y = x then exec_total db x s + n else exec_total db' y s)"
proof -
  let ?t = "setAcct db x (coins db x s + n) (setAcct db a (coins db a s - n) s)"
  from ok wf obtain r1 :: "('d, 'l) receipt" where t: "Transfer db a x n s = (Inr r1, ?t)"
    by (auto simp: Transfer_wf Let_def)
  note te = Transfer_effect [OF wf t]
  then have wt: "wf_ledger ?t" by simp
  obtain r2 :: "('d, 'l) receipt" and u where u: "ExecDeposit db a x n ?t = (Inr r2, u)"
    using ExecDeposit_defined [of a x n db ?t] ok by (metis is_okE)
  have tot: "exec_total db' y ?t = exec_total db' y s" for db' y
    using te by (simp add: exec_total_def)
  have "exec_total db x s \<le> coins db x s"
    using b by (simp add: backed_def)
  then have "exec_total db x ?t + n \<le> MaxInt64"
    using ok coins_two_max [OF wf ok(1), of db] tot [of db x] by linarith
  note dep = ExecDeposit_effect [OF wt u this]
  have s': "s' = u" and res: "\<exists>r. res = Inr r"
    using eq t u by (auto simp: TransferToExec_def)
  show "\<exists>r. res = Inr r" by (rule res)
  from dep have wu: "wf_ledger u" by blast
  then show "wf_ledger s'" by (simp only: s')
  have "accts s' = accts ?t" using dep s' by simp
  then show "acct_total db s' = acct_total db s"
    and "coins db' c s' = (if db' = db \<and> c = a then coins db a s - n
           else if db' = db \<and> c = x then coins db x s + n else coins db' c s)"
    using te by (simp_all add: acct_total_def coins_def LoadAccount_def)
  show "exec_total db' y s' =
      (if db' = db \<and> y = x then exec_total db x s + n else exec_total db' y s)"
    using dep s' tot exec_total_setExec [OF wt, of db' y db x a] by simp
qed

lemma TransferToExec_err:
  assumes "wf_ledger s" "TransferToExec db a x n s = (res, s')"
    and "\<not> (a \<noteq> x \<and> CheckAmount n \<and> n \<le> coins db a s)"
  shows "s' = s \<and> res \<in> {Inl ErrAmount, Inl ErrSendSameToRecv, Inl ErrNoBalance}"
  using assms by (auto simp: TransferToExec_def Transfer_wf split: if_splits)

lemma TransferWithdraw_ok:
  fixes res :: "err + ('d, 'l) receipt"
  assumes wf: "wf_ledger s" and eq: "TransferWithdraw db a x n s = (res, s')"
    and ok: "a \<noteq> x" "CheckAmount n" "n \<le> coins db x s" "n \<le> bal db x a s"
  shows "\<exists>r. res = Inr r"
    and "wf_ledger s'"
    and "acct_total db s' = acct_total db s"
    and "coins db' c s' = (if db' = db \<and> c = x then coins db x s - n
           else if db' = db \<and> c = a then coins db a s + n else coins db' c s)"
    and "exec_total db' y s' =
           (if db' = db \<and> y = x then exec_total db x s - n else exec_total db' y s)"
proof -
  let ?t = "setExec db x a (bal db x a s - n) (frz db x a s) s"
  have wt: "wf_ledger ?t"
    using ExecWithdraw_wf_state [OF wf ok(2,4)] .
  have ck: "CheckTransfer db x a n s = None"
    using ok CheckAmount_bounds [OF ok(2)] coins_nonneg [OF wf, of db x] coins_max [OF wf, of db x]
    by (simp add: CheckTransfer_def coins_def [symmetric] sub64_nonneg)
  obtain r1 :: "('d, 'l) receipt" where w: "ExecWithdraw db x a n s = (Inr r1, ?t)"
    using ExecWithdraw_ok [OF wf, of db x a n] ok by blast
  have ct: "coins db' c ?t = coins db' c s" for db' c by (simp add: coins_def)
  obtain r2 :: "('d, 'l) receipt" and u where u: "Transfer db x a n ?t = (Inr r2, u)"
    using ok ct by (simp add: Transfer_wf [OF wt] Let_def)
  note te = Transfer_effect [OF wt u]
  have s': "s' = u" and res: "\<exists>r. res = Inr r"
    using eq ck w u by (auto simp: TransferWithdraw_def)
  show "\<exists>r. res = Inr r" by (rule res)
  show "wf_ledger s'" using te s' by simp
  have "acct_total db ?t = acct_total db s" by (simp add: acct_total_def)
  then show "acct_total db s' = acct_total db s" using te s' by simp
  show "coins db' c s' = (if db' = db \<and> c = x then coins db x s - n
           else if db' = db \<and> c = a then coins db a s + n else coins db' c s)"
    using te s' ct by simp
  have "exec_total db' y u = exec_total db' y ?t"
    using te by (simp add: exec_total_def)
  then show "exec_total db' y s' =
      (if db' = db \<and> y = x then exec_total db x s - n else exec_total db' y s)"
    using s' by (simp add: exec_total_setExec [OF wf])
qed

lemma TransferWithdraw_err:
  assumes wf: "wf_ledger s" and eq: "TransferWithdraw db a x n s = (res, s')"
    and no: "\<not> (a \<noteq> x \<and> CheckAmount n \<and> n \<le> coins db x s \<and> n \<le> bal db x a s)"
  shows "s' = s \<and> res \<in> {Inl ErrAmount, Inl ErrSendSameToRecv, Inl ErrNoBalance}"
proof -
  have "CheckAmount n \<Longrightarrow> sub64 (coins db x s) n = coins db x s - n"
    using CheckAmount_bounds [of n] coins_nonneg [OF wf, of db x] coins_max [OF wf, of db x]
    by (simp add: sub64_nonneg)
  then show ?thesis
    using eq no wf
    by (simp add: TransferWithdraw_def CheckTransfer_def ExecWithdraw_def Let_def sub64_bal
        coins_def [symmetric] split: if_splits)
qed

section \<open>Sample ledgers\<close>

text \<open>Ledgers with one or two funded sub-accounts, for the witnesses of the executors.\<close>

lemma wf_empty_ledger:
  "accts s = Map.empty \<Longrightarrow> execs s = Map.empty \<Longrightarrow> wf_ledger s"
  by (simp add: wf_ledger_def exec_total_def acct_total_def MaxInt64_def)

lemma exec_total_empty: "execs s = Map.empty \<Longrightarrow> exec_total db x s = 0"
  by (simp add: exec_total_def)

lemma LoadExec_empty: "execs s = Map.empty \<Longrightarrow> LoadExecAccount db a x s = newAccount a"
  by (simp add: LoadExecAccount_def)

lemma wf_funded_one:
  assumes "accts s = Map.empty" "execs s = Map.empty" "0 \<le> b" "0 \<le> f" "b + f \<le> MaxInt64"
  shows "wf_ledger (setExec db x a b f s)"
  using assms wf_empty_ledger [OF assms(1,2)]
  by (intro wf_setExec) (auto simp: exec_total_empty LoadExec_empty newAccount_def)

lemma wf_funded_two:
  assumes "accts s = Map.empty" "execs s = Map.empty" "0 \<le> b" "0 \<le> f" "0 \<le> c" "0 \<le> g"
    and "b + f + c + g \<le> MaxInt64" "a \<noteq> d"
  shows "wf_ledger (setExec db x d c g (setExec db x a b f s))"
proof -
  have "wf_ledger (setExec db x a b f s)" using assms by (intro wf_funded_one) auto
  then show ?thesis
    using assms wf_empty_ledger [OF assms(1,2)]
    by (intro wf_setExec) (auto simp: exec_total_setExec exec_total_empty LoadExec_empty newAccount_def)
qed

section \<open>Reasoning about whole handlers\<close>

text \<open>
  A handler calls account operations and saves its own records, and may return early at any
  point. The relation holds at every exit, errors included, because no account operation
  breaks it.
\<close>

definition same_pool :: "'a ledger_scheme \<Rightarrow> 'b ledger_scheme \<Rightarrow> bool" where
  "same_pool s t \<longleftrightarrow> wf_ledger t \<and> accts t = accts s \<and>
     (\<forall>db x. exec_total db x t = exec_total db x s)"

lemma same_pool_refl: "wf_ledger s \<Longrightarrow> same_pool s s"
  by (simp add: same_pool_def)

lemma same_pool_wf: "same_pool s t \<Longrightarrow> wf_ledger t"
  by (simp add: same_pool_def)

lemma same_pool_bindE:
  assumes "same_pool s (snd m)" "\<And>a t. m = (Inr a, t) \<Longrightarrow> same_pool s t \<Longrightarrow> same_pool s (snd (k a t))"
  shows "same_pool s (snd (bindE m k))"
  using assms by (auto simp: bindE_def split: prod.splits sum.splits)

lemma same_pool_failif:
  "same_pool s t \<Longrightarrow> (\<not> c \<Longrightarrow> same_pool s (snd rest)) \<Longrightarrow> same_pool s (snd (failif c e rest t))"
  by (simp add: failif_def)

lemma same_pool_step: "same_pool s t \<Longrightarrow> pool_step t u \<Longrightarrow> same_pool s u"
  by (simp add: same_pool_def pool_step_def)

lemma same_pool_ops:
  assumes "same_pool s t"
  shows "same_pool s (snd (ExecFrozen db a x n t))"
    and "same_pool s (snd (ExecActive db a x n t))"
    and "same_pool s (snd (ExecTransfer db a b x n t))"
    and "same_pool s (snd (ExecTransferFrozen db a b x n t))"
  using assms by (blast intro: same_pool_step exec_steps same_pool_wf)+

lemma same_pool_result:
  assumes "same_pool s t"
  shows "ExecFrozen db a x n t = (r, u) \<Longrightarrow> same_pool s u"
    and "ExecActive db a x n t = (r, u) \<Longrightarrow> same_pool s u"
    and "ExecTransfer db a b x n t = (r, u) \<Longrightarrow> same_pool s u"
    and "ExecTransferFrozen db a b x n t = (r, u) \<Longrightarrow> same_pool s u"
  using same_pool_ops [OF assms] by (metis snd_conv)+

lemmas same_pool_intros = same_pool_bindE same_pool_failif same_pool_ops

section \<open>Effect of the operations on all balances\<close>

text \<open>The same facts as differences, which compose by linear arithmetic.\<close>

definition at :: "accdb \<Rightarrow> addr \<Rightarrow> addr \<Rightarrow> int \<Rightarrow> accdb \<Rightarrow> addr \<Rightarrow> addr \<Rightarrow> int" where
  "at db x a n db' x' a' = (if db' = db \<and> x' = x \<and> a' = a then n else 0)"

lemma at_same [simp]: "at db x a n db x a = n"
  by (simp add: at_def)

lemma at_other [simp]: "a' \<noteq> a \<Longrightarrow> at db x a n db' x' a' = 0"
  by (simp add: at_def)

lemma ExecFrozen_effect:
  assumes "wf_ledger s" "ExecFrozen db a x n s = (Inr r, s')"
  shows "a \<noteq> x" "CheckAmount n" "n \<le> bal db x a s" "pool_step s s'"
    "bal db' x' b s' = bal db' x' b s - at db x a n db' x' b"
    "frz db' x' b s' = frz db' x' b s + at db x a n db' x' b"
  using assms exec_ok_step(1) [OF assms] by (auto simp: ExecFrozen_ok at_def)

lemma ExecActive_effect:
  assumes "wf_ledger s" "ExecActive db a x n s = (Inr r, s')"
  shows "a \<noteq> x" "CheckAmount n" "n \<le> frz db x a s" "pool_step s s'"
    "bal db' x' b s' = bal db' x' b s + at db x a n db' x' b"
    "frz db' x' b s' = frz db' x' b s - at db x a n db' x' b"
  using assms exec_ok_step(2) [OF assms] by (auto simp: ExecActive_ok at_def)

lemma ExecTransfer_effect:
  assumes "wf_ledger s" "ExecTransfer db a c x n s = (Inr r, s')"
  shows "a \<noteq> c" "CheckAmount n" "n \<le> bal db x a s" "pool_step s s'"
    "bal db' x' b s' = bal db' x' b s - at db x a n db' x' b + at db x c n db' x' b"
    "frz db' x' b s' = frz db' x' b s"
  using assms exec_ok_step(3) [OF assms] by (auto simp: ExecTransfer_ok at_def)

lemma ExecTransferFrozen_effect:
  assumes "wf_ledger s" "ExecTransferFrozen db a c x n s = (Inr r, s')"
  shows "a \<noteq> c" "CheckAmount n" "n \<le> frz db x a s" "pool_step s s'"
    "bal db' x' b s' = bal db' x' b s + at db x c n db' x' b"
    "frz db' x' b s' = frz db' x' b s - at db x a n db' x' b"
  using assms exec_ok_step(4) [OF assms] by (auto simp: ExecTransferFrozen_ok at_def)

lemma ExecFrozen_succeeds:
  assumes "wf_ledger s" "a \<noteq> x" "CheckAmount n" "n \<le> bal db x a s"
  obtains r s' where "ExecFrozen db a x n s = (Inr r, s')"
  using assms by (auto simp: ExecFrozen_wf Let_def)

lemma ExecActive_succeeds:
  assumes "wf_ledger s" "a \<noteq> x" "CheckAmount n" "n \<le> frz db x a s"
  obtains r s' where "ExecActive db a x n s = (Inr r, s')"
  using assms by (auto simp: ExecActive_wf Let_def)

lemma ExecTransfer_succeeds:
  assumes "wf_ledger s" "a \<noteq> b" "CheckAmount n" "n \<le> bal db x a s"
  obtains r s' where "ExecTransfer db a b x n s = (Inr r, s')"
  using assms by (auto simp: ExecTransfer_wf Let_def)

lemma ExecTransferFrozen_succeeds:
  assumes "wf_ledger s" "a \<noteq> b" "CheckAmount n" "n \<le> frz db x a s"
  obtains r s' where "ExecTransferFrozen db a b x n s = (Inr r, s')"
  using assms by (auto simp: ExecTransferFrozen_wf Let_def)

end
