(* ===== verification/Driver.thy ===== *)
theory Driver
  imports Prelude
begin

text \<open>
  How the node runs the transactions of a block
  (\<open>vendor/github.com/33cn/chain33/executor/execenv.go\<close>, \<open>execTx\<close> and \<open>db.go\<close>,
  \<open>Begin\<close>/\<open>Rollback\<close>/\<open>Commit\<close>): each transaction is executed on the state database, and since
  the fork \<open>ForkExecRollback\<close> a transaction that returns an error is rolled back. The receipts
  of the transactions that succeed are collected; what the node stores for the block are the
  key-value pairs they list.

  The locales state what the node relies on in an executor. Each executor of the development
  interprets them on its own transaction handler.
\<close>

definition execTx :: "bool \<Rightarrow> ('tx \<Rightarrow> 's \<Rightarrow> ('s, 'r) outcome) \<Rightarrow> 'tx \<Rightarrow> 's \<Rightarrow> 'r list \<times> 's" where
  "execTx rollback exec tx s =
     (case exec tx s of
        (Inl e, s') \<Rightarrow> ([], if rollback then s else s')
      | (Inr r, s') \<Rightarrow> ([r], s'))"

fun execBlock :: "bool \<Rightarrow> ('tx \<Rightarrow> 's \<Rightarrow> ('s, 'r) outcome) \<Rightarrow> 'tx list \<Rightarrow> 's \<Rightarrow> 'r list \<times> 's" where
  "execBlock rollback exec [] s = ([], s)"
| "execBlock rollback exec (tx # txs) s =
     (let (rs, s1) = execTx rollback exec tx s; (rs', s2) = execBlock rollback exec txs s1
      in (rs @ rs', s2))"

section \<open>An executor with an invariant\<close>

locale dapp_driver =
  fixes exec :: "'tx \<Rightarrow> 's \<Rightarrow> ('s, 'r) outcome"
    and inv :: "'s \<Rightarrow> bool"
  assumes exec_inv: "inv s \<Longrightarrow> exec tx s = (Inr r, s') \<Longrightarrow> inv s'"
begin

lemma execTx_inv: "inv s \<Longrightarrow> inv (snd (execTx True exec tx s))"
  by (auto simp: execTx_def split: prod.splits sum.splits intro: exec_inv)

lemma execBlock_inv: "inv s \<Longrightarrow> inv (snd (execBlock True exec txs s))"
proof (induction txs arbitrary: s)
  case Nil
  then show ?case by simp
next
  case (Cons tx txs)
  from Cons.prems have "inv (snd (execTx True exec tx s))" by (rule execTx_inv)
  then have "inv (snd (execBlock True exec txs (snd (execTx True exec tx s))))" by (rule Cons.IH)
  then show ?case by (simp add: split_beta Let_def)
qed

text \<open>A further fact that every transaction of the block keeps.\<close>

lemma execBlock_keeps:
  assumes "inv s" "P s"
    and "\<And>tx s r s'. tx \<in> set txs \<Longrightarrow> inv s \<Longrightarrow> P s \<Longrightarrow> exec tx s = (Inr r, s') \<Longrightarrow> P s'"
  shows "P (snd (execBlock True exec txs s))"
  using assms
proof (induction txs arbitrary: s)
  case Nil
  then show ?case by simp
next
  case (Cons tx txs)
  have "P (snd (execTx True exec tx s))"
    using Cons.prems by (auto simp: execTx_def split: prod.splits sum.splits)
  then have "P (snd (execBlock True exec txs (snd (execTx True exec tx s))))"
    using Cons.prems(3) by (intro Cons.IH execTx_inv [OF Cons.prems(1)]) auto
  then show ?case by (simp add: split_beta Let_def)
qed

end

section \<open>An executor that conserves a quantity\<close>

locale dapp_conserving = dapp_driver exec inv
  for exec :: "'tx \<Rightarrow> 's \<Rightarrow> ('s, 'r) outcome" and inv :: "'s \<Rightarrow> bool" +
  fixes quantity :: "'s \<Rightarrow> 'm"
  assumes exec_quantity: "inv s \<Longrightarrow> exec tx s = (Inr r, s') \<Longrightarrow> quantity s' = quantity s"
begin

lemma execTx_quantity: "inv s \<Longrightarrow> quantity (snd (execTx True exec tx s)) = quantity s"
  by (auto simp: execTx_def split: prod.splits sum.splits intro: exec_quantity)

lemma execBlock_quantity: "inv s \<Longrightarrow> quantity (snd (execBlock True exec txs s)) = quantity s"
proof (induction txs arbitrary: s)
  case Nil
  then show ?case by simp
next
  case (Cons tx txs)
  then show ?case
    using Cons.IH [OF execTx_inv [OF Cons.prems, of tx]] execTx_quantity [OF Cons.prems, of tx]
    by (simp add: split_beta Let_def)
qed

end

section \<open>An executor whose receipts determine the state\<close>

locale dapp_replaying = dapp_driver exec inv
  for exec :: "'tx \<Rightarrow> 's \<Rightarrow> ('s, 'r) outcome" and inv :: "'s \<Rightarrow> bool" +
  fixes stored :: "'r \<Rightarrow> 's \<Rightarrow> 's"
  assumes exec_stored: "inv s \<Longrightarrow> exec tx s = (Inr r, s') \<Longrightarrow> stored r s = s'"
begin

lemma execTx_stored:
  "inv s \<Longrightarrow> fold stored (fst (execTx True exec tx s)) s = snd (execTx True exec tx s)"
  by (auto simp: execTx_def split: prod.splits sum.splits intro: exec_stored)

lemma execBlock_stored:
  "inv s \<Longrightarrow> fold stored (fst (execBlock True exec txs s)) s = snd (execBlock True exec txs s)"
proof (induction txs arbitrary: s)
  case Nil
  then show ?case by simp
next
  case (Cons tx txs)
  then show ?case
    using Cons.IH [OF execTx_inv [OF Cons.prems, of tx]] execTx_stored [OF Cons.prems, of tx]
    by (simp add: split_beta Let_def)
qed

end

end
