(* ===== verification/Escrow.thy ===== *)
theory Escrow
  imports Prelude
begin

text \<open>
  The contract shared by the executors that freeze coins for the entries of a table: an entry
  (a lock, a game, an order) is owed a certain amount of the frozen coins of an address, and the
  frozen coins of every address cover what all entries together are owed.
\<close>

definition covered ::
  "(addr \<Rightarrow> 'v \<Rightarrow> int) \<Rightarrow> ('k \<Rightarrow> 'v \<Rightarrow> bool) \<Rightarrow> ('k \<Rightarrow> 'v option) \<Rightarrow> (addr \<Rightarrow> int) \<Rightarrow> bool" where
  "covered due valid m F \<longleftrightarrow>
     finite (dom m) \<and> (\<forall>k v. m k = Some v \<longrightarrow> valid k v) \<and> (\<forall>r. msum (due r) m \<le> F r)"

definition owed :: "('v \<Rightarrow> int) \<Rightarrow> 'v option \<Rightarrow> int" where
  "owed d v = (case v of None \<Rightarrow> 0 | Some u \<Rightarrow> d u)"

lemma owed_simps [simp]: "owed d None = 0" "owed d (Some u) = d u"
  by (simp_all add: owed_def)

lemma covered_empty: "covered due valid (\<lambda>_. None) F \<longleftrightarrow> (\<forall>r. 0 \<le> F r)"
  by (simp add: covered_def)

lemma coveredD:
  assumes "covered due valid m F"
  shows "finite (dom m)" "m k = Some v \<Longrightarrow> valid k v" "msum (due r) m \<le> F r"
  using assms by (simp_all add: covered_def)

locale escrow =
  fixes due :: "addr \<Rightarrow> 'v \<Rightarrow> int"
    and valid :: "'k \<Rightarrow> 'v \<Rightarrow> bool"
  assumes due_nonneg: "valid k v \<Longrightarrow> 0 \<le> due r v"
begin

lemma owed_nonneg: "covered due valid m F \<Longrightarrow> 0 \<le> owed (due r) (m k)"
  by (cases "m k") (auto simp: covered_def intro: due_nonneg)

text \<open>What one entry is owed is frozen.\<close>

lemma covered_due:
  assumes "covered due valid m F" "m k = Some v"
  shows "due r v \<le> F r"
proof -
  have "due r v \<le> msum (due r) m"
    using assms by (intro msum_le_one) (auto simp: covered_def intro: due_nonneg)
  also have "\<dots> \<le> F r" using assms(1) by (simp add: covered_def)
  finally show ?thesis .
qed

text \<open>Writing an entry: the frozen coins change at least by what the entry's claim changes.\<close>

lemma covered_put:
  assumes "covered due valid m F" "valid k v"
    and "\<And>r. F r - owed (due r) (m k) + due r v \<le> F' r"
  shows "covered due valid (m(k \<mapsto> v)) F'"
proof -
  have "msum (due r) (m(k \<mapsto> v)) \<le> F' r" for r
    using assms(1) assms(3) [of r] msum_upd [of m "due r" k v]
    by (auto simp: covered_def owed_def dest!: spec [of _ r])
  then show ?thesis using assms(1,2) by (auto simp: covered_def)
qed

text \<open>Writing a new entry, or over an old one whose coins stay frozen.\<close>

lemma covered_add:
  assumes "covered due valid m F" "valid k v" "\<And>r. F r + due r v \<le> F' r"
  shows "covered due valid (m(k \<mapsto> v)) F'"
  using assms owed_nonneg [OF assms(1)] by (intro covered_put) (auto, smt (verit))

lemma covered_mono: "covered due valid m F \<Longrightarrow> (\<And>r. F r \<le> F' r) \<Longrightarrow> covered due valid m F'"
  by (auto simp: covered_def intro: order_trans)

end

end
