(* ===== verification/Hashlock.thy ===== *)
theory Hashlock
  imports Ledger Driver Escrow
begin

text \<open>
  The hash time lock executor: \<open>plugin/dapp/hashlock/executor/hashlockdb.go\<close>, \<open>exec.go\<close>,
  \<open>exec_local.go\<close> and \<open>exec_del_local.go\<close>. A sender freezes coins under a hash; the
  receiver who knows the secret takes them before the lock time is over, the sender gets them
  back after it. \<open>Sha256\<close> and \<open>CheckAddress\<close> are library functions and are parameters.

  The state database holds the locks under \<open>Key(id)\<close>; the local database holds the records
  the query interface reads, under its raw keys, because writer and reader build them
  differently.
\<close>

section \<open>State\<close>

definition hashlockLocked :: int where "hashlockLocked = 1"
definition hashlockUnlocked :: int where "hashlockUnlocked = 2"
definition hashlockSent :: int where "hashlockSent = 3"
definition minLockTime :: int where "minLockTime = 60"

lemmas hashlock_status_defs = hashlockLocked_def hashlockUnlocked_def hashlockSent_def

record Hashlock =
  hl_HashlockId :: bytes
  hl_Status :: int
  hl_CreateTime :: int
  hl_ToAddress :: addr
  hl_ReturnAddress :: addr
  hl_Amount :: int
  hl_Frozentime :: int

record HashlockLock =
  hk_Amount :: int
  hk_Time :: int
  hk_Hash :: bytes
  hk_ToAddress :: addr
  hk_ReturnAddress :: addr

record hashlock_state = ledger +
  hashlocks :: "bytes \<Rightarrow> Hashlock option"

datatype hashlock_kv = KVHashlock bytes Hashlock

type_synonym hashlock_receipt = "(hashlock_kv, unit) receipt"

section \<open>Operations on the state database\<close>

definition NewDB :: "bytes \<Rightarrow> addr \<Rightarrow> addr \<Rightarrow> int \<Rightarrow> int \<Rightarrow> int \<Rightarrow> Hashlock" where
  "NewDB hid returnWallet toAddress btime amount time =
     \<lparr>hl_HashlockId = hid, hl_Status = hashlockLocked, hl_CreateTime = btime,
      hl_ToAddress = toAddress, hl_ReturnAddress = returnWallet, hl_Amount = amount,
      hl_Frozentime = time\<rparr>"

definition hashlock_GetKVSet :: "Hashlock \<Rightarrow> hashlock_kv kv list" where
  "hashlock_GetKVSet h = [KVDapp (KVHashlock (hl_HashlockId h) h)]"

definition hashlock_Save :: "Hashlock \<Rightarrow> hashlock_state \<Rightarrow> hashlock_state" where
  "hashlock_Save h s = s\<lparr>hashlocks := (hashlocks s)(hl_HashlockId h \<mapsto> h)\<rparr>"

definition readHashlock :: "bytes \<Rightarrow> hashlock_state \<Rightarrow> err + Hashlock" where
  "readHashlock hid s = (case hashlocks s hid of None \<Rightarrow> Inl ErrNotFound | Some h \<Rightarrow> Inr h)"

definition Hashlocklock ::
  "(bytes \<Rightarrow> bytes) \<Rightarrow> action \<Rightarrow> HashlockLock \<Rightarrow> hashlock_state \<Rightarrow>
   (hashlock_state, hashlock_receipt) outcome" where
  "Hashlocklock Sha256 act hlock s =
     (if readHashlock (Sha256 (hk_Hash hlock)) s \<noteq> Inl ErrNotFound then (Inl ErrHashlockReapeathash, s)
      else
        let h = NewDB (hk_Hash hlock) (fromaddr act) (hk_ToAddress hlock) (blocktime act)
                  (hk_Amount hlock) (hk_Time hlock)
        in bindE (ExecFrozen NewCoinsAccount (fromaddr act) (execaddr act) (hk_Amount hlock) s)
             (\<lambda>r s1. (Inr \<lparr>rTy = ExecOk, rKV = rKV r @ hashlock_GetKVSet h, rLogs = rLogs r\<rparr>,
                       hashlock_Save h s1)))"

definition Hashlockunlock ::
  "(bytes \<Rightarrow> bytes) \<Rightarrow> action \<Rightarrow> bytes \<Rightarrow> hashlock_state \<Rightarrow>
   (hashlock_state, hashlock_receipt) outcome" where
  "Hashlockunlock Sha256 act secret s =
     (case readHashlock (Sha256 secret) s of
        Inl e \<Rightarrow> (Inl e, s)
      | Inr hash \<Rightarrow>
          failif (hl_ReturnAddress hash \<noteq> fromaddr act) ErrHashlockReturnAddrss
          (failif (hl_Status hash \<noteq> hashlockLocked) ErrHashlockStatus
          (failif (sub64 (blocktime act) (hl_CreateTime hash) < hl_Frozentime hash) ErrTime
          (bindE (ExecActive NewCoinsAccount (hl_ReturnAddress hash) (execaddr act) (hl_Amount hash) s)
             (\<lambda>r s1. let h = hash\<lparr>hl_Status := hashlockUnlocked\<rparr> in
                (Inr \<lparr>rTy = ExecOk, rKV = rKV r @ hashlock_GetKVSet h, rLogs = rLogs r\<rparr>,
                 hashlock_Save h s1))) s) s) s)"

definition Hashlocksend ::
  "(bytes \<Rightarrow> bytes) \<Rightarrow> action \<Rightarrow> bytes \<Rightarrow> hashlock_state \<Rightarrow>
   (hashlock_state, hashlock_receipt) outcome" where
  "Hashlocksend Sha256 act secret s =
     (case readHashlock (Sha256 secret) s of
        Inl e \<Rightarrow> (Inl e, s)
      | Inr hash \<Rightarrow>
          failif (hl_Status hash \<noteq> hashlockLocked) ErrHashlockStatus
          (failif (fromaddr act \<noteq> hl_ToAddress hash) ErrHashlockSendAddress
          (failif (sub64 (blocktime act) (hl_CreateTime hash) > hl_Frozentime hash) ErrTime
          (bindE (ExecTransferFrozen NewCoinsAccount (hl_ReturnAddress hash) (hl_ToAddress hash)
                    (execaddr act) (hl_Amount hash) s)
             (\<lambda>r s1. let h = hash\<lparr>hl_Status := hashlockSent\<rparr> in
                (Inr \<lparr>rTy = ExecOk, rKV = rKV r @ hashlock_GetKVSet h, rLogs = rLogs r\<rparr>,
                 hashlock_Save h s1))) s) s) s)"

definition Exec_Hlock ::
  "(bytes \<Rightarrow> bytes) \<Rightarrow> (addr \<Rightarrow> err option) \<Rightarrow> action \<Rightarrow> HashlockLock \<Rightarrow> hashlock_state \<Rightarrow>
   (hashlock_state, hashlock_receipt) outcome" where
  "Exec_Hlock Sha256 CheckAddress act hlock s =
     (if hk_Amount hlock \<le> 0 then (Inl ErrHashlockAmount, s)
      else case CheckAddress (hk_ToAddress hlock) of Some e \<Rightarrow> (Inl e, s) | None \<Rightarrow>
      (case CheckAddress (hk_ReturnAddress hlock) of Some e \<Rightarrow> (Inl e, s) | None \<Rightarrow>
      if hk_ReturnAddress hlock \<noteq> fromaddr act then (Inl ErrHashlockReturnAddrss, s)
      else if hk_Time hlock \<le> minLockTime then (Inl ErrHashlockTime, s)
      else Hashlocklock Sha256 act hlock s))"

datatype hashlock_action = Hlock HashlockLock | Hsend bytes | Hunlock bytes

text \<open>
  The transactions sent to the executor with address \<open>x\<close>: \<open>NewAction\<close> takes that address
  from the transaction's \<open>Execer\<close> name.
\<close>

definition exec_hashlock ::
  "(bytes \<Rightarrow> bytes) \<Rightarrow> (addr \<Rightarrow> err option) \<Rightarrow> addr \<Rightarrow> action \<times> hashlock_action \<Rightarrow> hashlock_state \<Rightarrow>
   (hashlock_state, hashlock_receipt) outcome" where
  "exec_hashlock Sha256 CheckAddress x tx s =
     (let act = (fst tx)\<lparr>execaddr := x\<rparr> in
      case snd tx of
        Hlock p \<Rightarrow> Exec_Hlock Sha256 CheckAddress act p s
      | Hsend secret \<Rightarrow> Hashlocksend Sha256 act secret s
      | Hunlock secret \<Rightarrow> Hashlockunlock Sha256 act secret s)"

section \<open>The records of the query interface\<close>

record Hashlockquery =
  hq_Time :: int
  hq_Status :: int
  hq_Amount :: int
  hq_CreateTime :: int
  hq_CurrentTime :: int

type_synonym hashlock_local = "bytes \<Rightarrow> Hashlockquery option"

definition calcHashlockIdKey :: "bytes \<Rightarrow> bytes" where
  "calcHashlockIdKey hid = ''LODB-hashlock-'' @ hid"

definition NewHashlockquery :: Hashlockquery where
  "NewHashlockquery =
     \<lparr>hq_Time = 0, hq_Status = 0, hq_Amount = 0, hq_CreateTime = 0, hq_CurrentTime = 0\<rparr>"

definition GeHashReciverKV :: "bytes \<Rightarrow> Hashlockquery \<Rightarrow> bytes \<times> Hashlockquery" where
  "GeHashReciverKV hashlockID information = (calcHashlockIdKey hashlockID, information)"

text \<open>\<open>GetHashReciver\<close> returns the empty record together with the error when nothing is found.\<close>

definition GetHashReciver :: "bytes \<Rightarrow> hashlock_local \<Rightarrow> Hashlockquery \<times> err option" where
  "GetHashReciver hashlockID db =
     (case db hashlockID of None \<Rightarrow> (NewHashlockquery, Some ErrNotFound) | Some q \<Rightarrow> (q, None))"

definition SetHashReciver :: "bytes \<Rightarrow> Hashlockquery \<Rightarrow> hashlock_local \<Rightarrow> hashlock_local" where
  "SetHashReciver hashlockID information db =
     (let kv = GeHashReciverKV hashlockID information in db(fst kv \<mapsto> snd kv))"

definition UpdateHashReciver ::
  "bytes \<Rightarrow> Hashlockquery \<Rightarrow> hashlock_local \<Rightarrow>
   (hashlock_local, bytes \<times> Hashlockquery) outcome" where
  "UpdateHashReciver hashlockID information db =
     (let (recv, e) = GetHashReciver hashlockID db in
      if e \<noteq> None \<and> e \<noteq> Some ErrNotFound then (Inl (the e), db)
      else
        let recv' =
          (if hq_Status information = hashlockLocked then
             (if e = Some ErrNotFound then
                recv\<lparr>hq_Time := hq_Time information, hq_Status := hashlockLocked,
                     hq_Amount := hq_Amount information, hq_CreateTime := hq_CreateTime information\<rparr>
              else recv)
           else if hq_Status information = hashlockUnlocked then
             (if e = None then recv\<lparr>hq_Status := hashlockUnlocked\<rparr> else recv)
           else if hq_Status information = hashlockSent then
             (if e = None then recv\<lparr>hq_Status := hashlockSent\<rparr> else recv)
           else recv)
        in (Inr (GeHashReciverKV hashlockID recv'), SetHashReciver hashlockID recv' db))"

definition ExecLocal_Hlock ::
  "int \<Rightarrow> HashlockLock \<Rightarrow> hashlock_local \<Rightarrow> (hashlock_local, bytes \<times> Hashlockquery) outcome" where
  "ExecLocal_Hlock btime hlock db =
     UpdateHashReciver (hk_Hash hlock)
       \<lparr>hq_Time = hk_Time hlock, hq_Status = hashlockLocked, hq_Amount = hk_Amount hlock,
        hq_CreateTime = btime, hq_CurrentTime = 0\<rparr> db"

definition ExecLocal_Hsend ::
  "(bytes \<Rightarrow> bytes) \<Rightarrow> bytes \<Rightarrow> hashlock_local \<Rightarrow>
   (hashlock_local, bytes \<times> Hashlockquery) outcome" where
  "ExecLocal_Hsend Sha256 secret db =
     UpdateHashReciver (Sha256 secret) (NewHashlockquery\<lparr>hq_Status := hashlockSent\<rparr>) db"

definition ExecLocal_Hunlock ::
  "(bytes \<Rightarrow> bytes) \<Rightarrow> bytes \<Rightarrow> hashlock_local \<Rightarrow>
   (hashlock_local, bytes \<times> Hashlockquery) outcome" where
  "ExecLocal_Hunlock Sha256 secret db =
     UpdateHashReciver (Sha256 secret) (NewHashlockquery\<lparr>hq_Status := hashlockUnlocked\<rparr>) db"

definition GetTxsByHashlockID ::
  "bytes \<Rightarrow> int \<Rightarrow> hashlock_local \<Rightarrow> err + Hashlockquery" where
  "GetTxsByHashlockID hashlockID differTime db =
     (case GetHashReciver hashlockID db of
        (q, Some e) \<Rightarrow> Inl e
      | (q, None) \<Rightarrow> Inr (q\<lparr>hq_CurrentTime := differTime\<rparr>))"

section \<open>The escrow invariant\<close>

text \<open>
  What the open locks of one sender promise is covered by the sender's frozen balance. Every
  open lock has a valid amount and a sender that is not the executor itself, so that the
  account operations cannot refuse it.
\<close>

definition open_amount :: "addr \<Rightarrow> Hashlock \<Rightarrow> int" where
  "open_amount r h = (if hl_Status h = hashlockLocked \<and> hl_ReturnAddress h = r then hl_Amount h else 0)"

definition locked_sum :: "addr \<Rightarrow> hashlock_state \<Rightarrow> int" where
  "locked_sum r s = msum (open_amount r) (hashlocks s)"

definition wf_hashlock :: "addr \<Rightarrow> bytes \<Rightarrow> Hashlock \<Rightarrow> bool" where
  "wf_hashlock x k h \<longleftrightarrow> hl_HashlockId h = k \<and> CheckAmount (hl_Amount h) \<and> hl_ReturnAddress h \<noteq> x"

definition hashlock_inv :: "addr \<Rightarrow> hashlock_state \<Rightarrow> bool" where
  "hashlock_inv x s \<longleftrightarrow> wf_ledger s \<and>
     covered open_amount (wf_hashlock x) (hashlocks s) (\<lambda>r. frz NewCoinsAccount x r s)"

interpretation hle: escrow open_amount "wf_hashlock x" for x
  by unfold_locales (auto simp: open_amount_def wf_hashlock_def dest: CheckAmount_bounds)

lemma hashlock_invD:
  assumes "hashlock_inv x s"
  shows "wf_ledger s" "finite (dom (hashlocks s))"
    "hashlocks s k = Some h \<Longrightarrow> wf_hashlock x k h"
    "locked_sum r s \<le> frz NewCoinsAccount x r s"
    "hashlocks s k = Some h \<Longrightarrow> open_amount r h \<le> frz NewCoinsAccount x r s"
  using assms by (auto simp: hashlock_inv_def covered_def locked_sum_def intro: hle.covered_due)

lemma hashlocks_setExec [simp]: "hashlocks (setExec db x a b f s) = hashlocks s"
  by (simp add: setExec_def)

lemma ledger_hashlock_Save [simp]:
  "accts (hashlock_Save h s) = accts s" "execs (hashlock_Save h s) = execs s"
  "LoadExecAccount db a x (hashlock_Save h s) = LoadExecAccount db a x s"
  "wf_ledger (hashlock_Save h s) = wf_ledger s"
  "exec_total db x (hashlock_Save h s) = exec_total db x s"
  by (simp_all add: hashlock_Save_def LoadExecAccount_def wf_ledger_def exec_total_def acct_total_def)

lemma hashlocks_Save [simp]:
  "hashlocks (hashlock_Save h s) = (hashlocks s)(hl_HashlockId h \<mapsto> h)"
  by (simp add: hashlock_Save_def)

lemma locked_sum_Save:
  assumes "finite (dom (hashlocks s))"
  shows "locked_sum r (hashlock_Save h s) =
    locked_sum r s - owed (open_amount r) (hashlocks s (hl_HashlockId h)) + open_amount r h"
  using assms by (simp add: locked_sum_def msum_upd owed_def)

lemma Hashlocklock_inv:
  assumes "hashlock_inv x s" "execaddr act = x" "Hashlocklock Sha256 act p s = (Inr r, s')"
  shows "hashlock_inv x s'"
proof -
  let ?a = "fromaddr act" and ?n = "hk_Amount p" and ?c = NewCoinsAccount
  let ?h = "NewDB (hk_Hash p) ?a (hk_ToAddress p) (blocktime act) ?n (hk_Time p)"
  note wf = hashlock_invD(1) [OF assms(1)]
  let ?s1 = "setExec ?c x ?a (bal ?c x ?a s - ?n) (frz ?c x ?a s + ?n) s"
  from assms wf have ok: "?a \<noteq> x" "CheckAmount ?n" "?n \<le> bal ?c x ?a s" "s' = hashlock_Save ?h ?s1"
    by (auto simp: Hashlocklock_def Let_def go_result split: if_splits)
  have "wf_ledger ?s1"
    using wf ok CheckAmount_bounds [of ?n] by (intro pool_step_wf [OF pool_step_one]) auto
  moreover have "covered open_amount (wf_hashlock x) ((hashlocks s)(hk_Hash p \<mapsto> ?h))
      (\<lambda>r. frz ?c x r ?s1)"
    using assms(1) ok
    by (intro hle.covered_add [of x "hashlocks s" "\<lambda>r. frz ?c x r s"])
       (auto simp: hashlock_inv_def wf_hashlock_def open_amount_def NewDB_def)
  ultimately show ?thesis
    unfolding ok(4) hashlock_inv_def by (simp add: NewDB_def)
qed

text \<open>Closing an open lock takes its amount out of the sender's frozen balance.\<close>

lemma close_inv:
  assumes inv: "hashlock_inv x s" and k: "hashlocks s k = Some h" "hl_Status h = hashlockLocked"
    and st: "st \<noteq> hashlockLocked" and wf: "wf_ledger s'" and tab: "hashlocks s' = hashlocks s"
    and frz: "\<And>r. frz NewCoinsAccount x r s' =
      (if r = hl_ReturnAddress h then frz NewCoinsAccount x r s - hl_Amount h
       else frz NewCoinsAccount x r s)"
  shows "hashlock_inv x (hashlock_Save (h\<lparr>hl_Status := st\<rparr>) s')"
proof -
  have wh: "wf_hashlock x k h" using hashlock_invD(3) [OF inv k(1)] .
  have "covered open_amount (wf_hashlock x) ((hashlocks s)(k \<mapsto> h\<lparr>hl_Status := st\<rparr>))
      (\<lambda>r. frz NewCoinsAccount x r s')"
    using inv wh k st frz
    by (intro hle.covered_put [of x "hashlocks s" "\<lambda>r. frz NewCoinsAccount x r s"])
       (auto simp: hashlock_inv_def wf_hashlock_def open_amount_def)
  then show ?thesis
    using wh wf tab by (simp add: hashlock_inv_def wf_hashlock_def)
qed

lemma Hashlockunlock_ok [go_result]:
  assumes "wf_ledger s"
  shows "Hashlockunlock Sha256 act secret s = (Inr r, s') \<longleftrightarrow>
    (\<exists>h r1 s1. hashlocks s (Sha256 secret) = Some h \<and> hl_ReturnAddress h = fromaddr act \<and>
       hl_Status h = hashlockLocked \<and>
       hl_Frozentime h \<le> sub64 (blocktime act) (hl_CreateTime h) \<and>
       ExecActive NewCoinsAccount (fromaddr act) (execaddr act) (hl_Amount h) s = (Inr r1, s1) \<and>
       s' = hashlock_Save (h\<lparr>hl_Status := hashlockUnlocked\<rparr>) s1 \<and>
       r = \<lparr>rTy = ExecOk, rKV = rKV r1 @ hashlock_GetKVSet (h\<lparr>hl_Status := hashlockUnlocked\<rparr>),
            rLogs = rLogs r1\<rparr>)"
  by (auto simp: Hashlockunlock_def readHashlock_def Let_def failif_ok bindE_ok split: option.splits)

lemma Hashlocksend_ok [go_result]:
  assumes "wf_ledger s"
  shows "Hashlocksend Sha256 act secret s = (Inr r, s') \<longleftrightarrow>
    (\<exists>h r1 s1. hashlocks s (Sha256 secret) = Some h \<and> hl_ToAddress h = fromaddr act \<and>
       hl_Status h = hashlockLocked \<and>
       sub64 (blocktime act) (hl_CreateTime h) \<le> hl_Frozentime h \<and>
       ExecTransferFrozen NewCoinsAccount (hl_ReturnAddress h) (fromaddr act) (execaddr act)
         (hl_Amount h) s = (Inr r1, s1) \<and>
       s' = hashlock_Save (h\<lparr>hl_Status := hashlockSent\<rparr>) s1 \<and>
       r = \<lparr>rTy = ExecOk, rKV = rKV r1 @ hashlock_GetKVSet (h\<lparr>hl_Status := hashlockSent\<rparr>),
            rLogs = rLogs r1\<rparr>)"
  by (auto simp: Hashlocksend_def readHashlock_def Let_def failif_ok bindE_ok split: option.splits)

lemma Hashlockunlock_inv:
  assumes "hashlock_inv x s" "execaddr act = x" "Hashlockunlock Sha256 act secret s = (Inr r, s')"
  shows "hashlock_inv x s'"
proof -
  note wf = hashlock_invD(1) [OF assms(1)]
  from assms(3) obtain h s1 and r1 :: hashlock_receipt where h: "hashlocks s (Sha256 secret) = Some h"
      "hl_ReturnAddress h = fromaddr act" "hl_Status h = hashlockLocked"
      "ExecActive NewCoinsAccount (fromaddr act) x (hl_Amount h) s = (Inr r1, s1)"
      "s' = hashlock_Save (h\<lparr>hl_Status := hashlockUnlocked\<rparr>) s1"
    using assms(2) by (auto simp: Hashlockunlock_ok [OF wf])
  from h(4) wf have s1: "s1 = setExec NewCoinsAccount x (fromaddr act)
      (bal NewCoinsAccount x (fromaddr act) s + hl_Amount h)
      (frz NewCoinsAccount x (fromaddr act) s - hl_Amount h) s"
    by (simp add: ExecActive_ok)
  have "wf_ledger s1" using exec_ok_step(2) [OF wf h(4)] by (rule pool_step_wf)
  then show ?thesis
    unfolding h(5) using h(2) s1
    by (intro close_inv [OF assms(1) h(1,3)]) (auto simp: hashlock_status_defs)
qed

lemma Hashlocksend_inv:
  assumes "hashlock_inv x s" "execaddr act = x" "Hashlocksend Sha256 act secret s = (Inr r, s')"
  shows "hashlock_inv x s'"
proof -
  note wf = hashlock_invD(1) [OF assms(1)]
  from assms(3) obtain h s1 and r1 :: hashlock_receipt where h: "hashlocks s (Sha256 secret) = Some h"
      "hl_Status h = hashlockLocked"
      "ExecTransferFrozen NewCoinsAccount (hl_ReturnAddress h) (fromaddr act) x (hl_Amount h) s = (Inr r1, s1)"
      "s' = hashlock_Save (h\<lparr>hl_Status := hashlockSent\<rparr>) s1"
    using assms(2) by (auto simp: Hashlocksend_ok [OF wf])
  have "wf_ledger s1" using exec_ok_step(4) [OF wf h(3)] by (rule pool_step_wf)
  then show ?thesis
    unfolding h(4) using h(3) wf
    by (intro close_inv [OF assms(1) h(1,2)]) (auto simp: hashlock_status_defs ExecTransferFrozen_ok)
qed

section \<open>The executor as a whole\<close>

lemma exec_hashlock_ok:
  assumes "exec_hashlock Sha256 CheckAddress x tx s = (Inr r, s')"
  obtains p where "snd tx = Hlock p" "Hashlocklock Sha256 ((fst tx)\<lparr>execaddr := x\<rparr>) p s = (Inr r, s')"
  | secret where "snd tx = Hsend secret" "Hashlocksend Sha256 ((fst tx)\<lparr>execaddr := x\<rparr>) secret s = (Inr r, s')"
  | secret where "snd tx = Hunlock secret" "Hashlockunlock Sha256 ((fst tx)\<lparr>execaddr := x\<rparr>) secret s = (Inr r, s')"
  using assms
  by (cases "snd tx") (auto simp: exec_hashlock_def Exec_Hlock_def Let_def split: if_splits option.splits)

lemma exec_hashlock_inv:
  "hashlock_inv x s \<Longrightarrow> exec_hashlock Sha256 CheckAddress x tx s = (Inr r, s') \<Longrightarrow> hashlock_inv x s'"
  by (erule exec_hashlock_ok)
     (force dest: Hashlocklock_inv [rotated 2] Hashlockunlock_inv [rotated 2] Hashlocksend_inv [rotated 2])+

lemma exec_hashlock_pool:
  assumes "hashlock_inv x s" "exec_hashlock Sha256 CheckAddress x tx s = (Inr r, s')"
  shows "(\<forall>db y. exec_total db y s' = exec_total db y s) \<and> accts s' = accts s"
proof -
  note wf = hashlock_invD(1) [OF assms(1)]
  from assms(2) show ?thesis
    by (rule exec_hashlock_ok)
       (auto simp: Hashlocklock_def Let_def bindE_ok Hashlockunlock_ok [OF wf] Hashlocksend_ok [OF wf]
          pool_step_def split: if_splits dest!: exec_ok_step [OF wf])
qed

fun put_hashlock :: "hashlock_kv \<Rightarrow> hashlock_state \<Rightarrow> hashlock_state" where
  "put_hashlock (KVHashlock k h) s = s\<lparr>hashlocks := (hashlocks s)(k \<mapsto> h)\<rparr>"

lemma replay_hashlock_GetKVSet [simp]: "replay put_hashlock (hashlock_GetKVSet h) s = hashlock_Save h s"
  by (simp add: hashlock_GetKVSet_def hashlock_Save_def)

lemma exec_hashlock_replay:
  assumes "hashlock_inv x s" "exec_hashlock Sha256 CheckAddress x tx s = (Inr r, s')"
  shows "replay put_hashlock (rKV r) s = s'"
proof -
  note wf = hashlock_invD(1) [OF assms(1)]
  from assms(2) show ?thesis
    by (rule exec_hashlock_ok)
       (auto simp: Hashlocklock_def Let_def bindE_ok Hashlockunlock_ok [OF wf] Hashlocksend_ok [OF wf]
          split: if_splits dest!: exec_replay [where f = put_hashlock])
qed

interpretation hl: dapp_conserving "exec_hashlock Sha256 CheckAddress x" "hashlock_inv x"
    "\<lambda>s. (\<lambda>db y. exec_total db y s, accts s)" for Sha256 CheckAddress x
  by unfold_locales (auto dest: exec_hashlock_inv exec_hashlock_pool)

interpretation hlr: dapp_replaying "exec_hashlock Sha256 CheckAddress x" "hashlock_inv x"
    "\<lambda>r. replay put_hashlock (rKV r)" for Sha256 CheckAddress x
  by unfold_locales (rule exec_hashlock_replay)

section \<open>Properties\<close>

definition hl_demo :: hashlock_state where
  "hl_demo = setExec NewCoinsAccount ''x'' ''a'' 1000 0
     \<lparr>accts = Map.empty, execs = Map.empty, hashlocks = Map.empty\<rparr>"

lemma hl_demo_inv: "hashlock_inv ''x'' hl_demo"
  unfolding hashlock_inv_def covered_def hl_demo_def
  by (simp add: wf_funded_one MaxInt64_def) (simp add: LoadExecAccount_def newAccount_def)

text \<open>
  C2. Escrow of the hash lock executor: whatever transactions a block sends to it, with failed
  ones rolled back, the frozen coins of every address cover the open locks it has created, the
  ledger stays well formed, and no executor's pool of coins grows or shrinks.
\<close>

theorem hashlock_block_escrow:
  assumes "hashlock_inv x s" "s' = snd (execBlock True (exec_hashlock Sha256 CheckAddress x) txs s)"
  shows "wf_ledger s' \<and> (\<forall>r. locked_sum r s' \<le> frz NewCoinsAccount x r s') \<and>
    (\<forall>db y. exec_total db y s' = exec_total db y s)"
proof -
  have "hashlock_inv x s'"
    unfolding assms(2) by (rule hl.execBlock_inv [OF assms(1)])
  moreover have "(\<lambda>db y. exec_total db y s', accts s') = (\<lambda>db y. exec_total db y s, accts s)"
    unfolding assms(2) by (rule hl.execBlock_quantity [OF assms(1)])
  ultimately show ?thesis
    using hashlock_invD(1,4) by (metis prod.inject)
qed

definition hl_act :: "addr \<Rightarrow> int \<Rightarrow> action" where
  "hl_act a t = \<lparr>txhash = '''', fromaddr = a, blocktime = t, height = 1, execaddr = ''x'', index = 0\<rparr>"

definition hl_lock :: HashlockLock where
  "hl_lock = \<lparr>hk_Amount = 100, hk_Time = 90, hk_Hash = ''ba'', hk_ToAddress = ''b'',
     hk_ReturnAddress = ''a''\<rparr>"

theorem hashlock_block_escrow_witness:
  "\<forall>r. locked_sum r (snd (execBlock True (exec_hashlock rev (\<lambda>_. None) ''x'')
       [(hl_act ''a'' 0, Hlock hl_lock), (hl_act ''b'' 5, Hsend ''ab'')] hl_demo))
     \<le> frz NewCoinsAccount ''x'' r (snd (execBlock True (exec_hashlock rev (\<lambda>_. None) ''x'')
       [(hl_act ''a'' 0, Hlock hl_lock), (hl_act ''b'' 5, Hsend ''ab'')] hl_demo))"
  using hashlock_block_escrow [OF hl_demo_inv refl] by blast

text \<open>
  C10. What the node stores is what was executed: writing the key-value pairs of the receipts of
  a block, in order, into the state before the block gives the state after it.
\<close>

theorem hashlock_block_stored:
  assumes "hashlock_inv x s"
  shows "fold (\<lambda>r. replay put_hashlock (rKV r))
      (fst (execBlock True (exec_hashlock Sha256 CheckAddress x) txs s)) s =
    snd (execBlock True (exec_hashlock Sha256 CheckAddress x) txs s)"
  by (rule hlr.execBlock_stored [OF assms])

theorem hashlock_block_stored_witness:
  "fold (\<lambda>r. replay put_hashlock (rKV r))
      (fst (execBlock True (exec_hashlock rev (\<lambda>_. None) ''x'') [(hl_act ''a'' 0, Hlock hl_lock)] hl_demo))
      hl_demo =
    snd (execBlock True (exec_hashlock rev (\<lambda>_. None) ''x'') [(hl_act ''a'' 0, Hlock hl_lock)] hl_demo)"
  by (rule hashlock_block_stored [OF hl_demo_inv])

text \<open>
  C9. Refund: once the lock time is over, the sender of an open lock gets the locked coins back
  by revealing the secret. The transaction cannot fail; it moves exactly the locked amount from
  the frozen to the active balance and marks the lock as unlocked.
\<close>

theorem hashlock_refund:
  assumes "hashlock_inv x s" "execaddr act = x"
    and "hashlocks s (Sha256 secret) = Some h" "hl_Status h = hashlockLocked"
    and "hl_ReturnAddress h = fromaddr act"
    and "hl_Frozentime h \<le> sub64 (blocktime act) (hl_CreateTime h)"
  shows "\<exists>r s'. Hashlockunlock Sha256 act secret s = (Inr r, s') \<and>
    bal NewCoinsAccount x (fromaddr act) s' = bal NewCoinsAccount x (fromaddr act) s + hl_Amount h \<and>
    frz NewCoinsAccount x (fromaddr act) s' = frz NewCoinsAccount x (fromaddr act) s - hl_Amount h \<and>
    hashlocks s' (Sha256 secret) = Some (h\<lparr>hl_Status := hashlockUnlocked\<rparr>)"
proof -
  note wf = hashlock_invD(1) [OF assms(1)] and wh = hashlock_invD(3) [OF assms(1,3)]
  have "hl_Amount h \<le> frz NewCoinsAccount x (fromaddr act) s"
    using hashlock_invD(5) [OF assms(1,3), of "fromaddr act"] assms(4,5)
    by (simp add: open_amount_def)
  then show ?thesis
    using wf wh assms(2-6)
    by (auto simp: Hashlockunlock_ok ExecActive_ok wf_hashlock_def)
qed

definition hl_locked :: hashlock_state where
  "hl_locked = snd (Hashlocklock rev (hl_act ''a'' 0) hl_lock hl_demo)"

lemma hl_locked_ok: "is_ok (Hashlocklock rev (hl_act ''a'' 0) hl_lock hl_demo)"
  by (simp add: Hashlocklock_def hl_lock_def hl_act_def hl_demo_def readHashlock_def Let_def
      ExecFrozen_wf wf_funded_one MaxInt64_def CheckAmount_def MaxCoin_def)

lemma hl_locked_inv: "hashlock_inv ''x'' hl_locked"
  using hl_locked_ok Hashlocklock_inv [OF hl_demo_inv, of "hl_act ''a'' 0" rev hl_lock]
  by (auto simp: hl_locked_def hl_act_def elim!: is_okE)

lemma hl_locked_entry:
  "hashlocks hl_locked ''ba'' = Some (NewDB ''ba'' ''a'' ''b'' 0 100 90)"
  by (simp add: hl_locked_def Hashlocklock_def hl_lock_def hl_act_def hl_demo_def readHashlock_def
      Let_def ExecFrozen_wf wf_funded_one MaxInt64_def CheckAmount_def MaxCoin_def NewDB_def)

theorem hashlock_refund_witness:
  "\<exists>r s'. Hashlockunlock rev (hl_act ''a'' 90) ''ab'' hl_locked = (Inr r, s') \<and>
    hashlocks s' ''ba'' = Some ((NewDB ''ba'' ''a'' ''b'' 0 100 90)\<lparr>hl_Status := hashlockUnlocked\<rparr>)"
  using hashlock_refund [OF hl_locked_inv, of "hl_act ''a'' 90" rev "''ab''"
      "NewDB ''ba'' ''a'' ''b'' 0 100 90"] hl_locked_entry
  by (simp add: hl_act_def NewDB_def sub64_def wrap64_def) blast

text \<open>Only locking writes a new record under a hash; the other two close an open one.\<close>

lemma pool_step_hashlocks: "pool_step s s1 \<Longrightarrow> hashlocks s1 = hashlocks s"
  by (cases s, cases s1) (simp add: pool_step_def)

lemma closed_other:
  assumes "hashlock_inv x s" "hashlocks s k = Some h" "hl_Status h \<noteq> hashlockLocked"
    and "hashlocks s j = Some g" "hl_Status g = hashlockLocked" "hashlocks s1 = hashlocks s"
  shows "hashlocks (hashlock_Save (g\<lparr>hl_Status := st\<rparr>) s1) k = Some h"
proof -
  have "hl_HashlockId g = j" using hashlock_invD(3) [OF assms(1,4)] by (simp add: wf_hashlock_def)
  moreover have "k \<noteq> j" using assms(2-5) by auto
  ultimately show ?thesis using assms(2,6) by simp
qed

lemma exec_hashlock_closed:
  assumes "hashlock_inv x s" "exec_hashlock Sha256 CheckAddress x tx s = (Inr r, s')"
    and "hashlocks s k = Some h" "hl_Status h \<noteq> hashlockLocked"
    and "\<And>p. snd tx = Hlock p \<Longrightarrow> hk_Hash p \<noteq> k"
  shows "hashlocks s' k = Some h"
proof -
  note wf = hashlock_invD(1) [OF assms(1)]
  note tab = exec_ok_step [OF wf, THEN pool_step_hashlocks]
  from assms(2) show ?thesis
  proof (rule exec_hashlock_ok)
    fix p
    assume "snd tx = Hlock p" "Hashlocklock Sha256 ((fst tx)\<lparr>execaddr := x\<rparr>) p s = (Inr r, s')"
    then show ?thesis
      using assms(3,5)
      by (auto simp: Hashlocklock_def Let_def bindE_ok NewDB_def split: if_splits dest: tab(1))
  next
    fix secret
    assume "Hashlocksend Sha256 ((fst tx)\<lparr>execaddr := x\<rparr>) secret s = (Inr r, s')"
    then show ?thesis
      unfolding Hashlocksend_ok [OF wf] using closed_other [OF assms(1,3,4)] tab(4) by blast
  next
    fix secret
    assume "Hashlockunlock Sha256 ((fst tx)\<lparr>execaddr := x\<rparr>) secret s = (Inr r, s')"
    then show ?thesis
      unfolding Hashlockunlock_ok [OF wf] using closed_other [OF assms(1,3,4)] tab(2) by blast
  qed
qed

text \<open>
  C8. A lock pays out once: when a lock has been sent or unlocked, no later transaction can pay
  from it again, as long as nobody locks coins under the same hash anew. Both handlers return
  an error and leave the state as it is.
\<close>

theorem hashlock_paid_once:
  assumes inv: "hashlock_inv x s" and k: "hashlocks s (Sha256 secret) = Some h"
    and closed: "hl_Status h \<noteq> hashlockLocked"
    and new: "\<And>act p. (act, Hlock p) \<in> set txs \<Longrightarrow> hk_Hash p \<noteq> Sha256 secret"
    and s': "s' = snd (execBlock True (exec_hashlock Sha256 CheckAddress x) txs s)"
  shows "Hashlocksend Sha256 act secret s' = (Inl ErrHashlockStatus, s') \<and>
    Hashlockunlock Sha256 act secret s' =
      (Inl (if hl_ReturnAddress h \<noteq> fromaddr act then ErrHashlockReturnAddrss else ErrHashlockStatus), s')"
proof -
  have "hashlocks s' (Sha256 secret) = Some h"
    unfolding s'
  proof (rule hl.execBlock_keeps [where P = "\<lambda>t. hashlocks t (Sha256 secret) = Some h", OF inv k])
    fix tx t r t'
    assume "tx \<in> set txs" "hashlock_inv x t" "hashlocks t (Sha256 secret) = Some h"
      "exec_hashlock Sha256 CheckAddress x tx t = (Inr r, t')"
    with closed new show "hashlocks t' (Sha256 secret) = Some h"
      by (elim exec_hashlock_closed) (auto, metis prod.collapse)
  qed
  with closed show ?thesis
    by (simp add: Hashlocksend_def Hashlockunlock_def readHashlock_def failif_def)
qed

definition hl_sent :: hashlock_state where
  "hl_sent = setExec NewCoinsAccount ''x'' ''a'' 1000 0 \<lparr>accts = Map.empty, execs = Map.empty,
     hashlocks = [''ba'' \<mapsto> (NewDB ''ba'' ''a'' ''b'' 0 100 90)\<lparr>hl_Status := hashlockSent\<rparr>]\<rparr>"

lemma hl_sent_inv: "hashlock_inv ''x'' hl_sent"
  unfolding hashlock_inv_def covered_def hl_sent_def
  by (simp add: wf_funded_one MaxInt64_def msum_upd open_amount_def NewDB_def hashlock_status_defs
      wf_hashlock_def CheckAmount_def MaxCoin_def)
     (simp add: LoadExecAccount_def newAccount_def)

theorem hashlock_paid_once_witness:
  "fst (Hashlocksend rev (hl_act ''b'' 10) ''ab''
     (snd (execBlock True (exec_hashlock rev (\<lambda>_. None) ''x'') [(hl_act ''b'' 7, Hsend ''ab'')] hl_sent)))
   = Inl ErrHashlockStatus"
proof -
  let ?s = "snd (execBlock True (exec_hashlock rev (\<lambda>_. None) ''x'') [(hl_act ''b'' 7, Hsend ''ab'')] hl_sent)"
  have "hashlocks hl_sent (rev ''ab'') =
      Some ((NewDB ''ba'' ''a'' ''b'' 0 100 90)\<lparr>hl_Status := hashlockSent\<rparr>)"
    by (simp add: hl_sent_def)
  from hashlock_paid_once [where ?Sha256.0 = rev and secret = "''ab''", OF hl_sent_inv this _ _ refl,
      where txs = "[(hl_act ''b'' 7, Hsend ''ab'')]" and CheckAddress = "\<lambda>_. None" and act = "hl_act ''b'' 10"]
  show ?thesis by (simp add: hashlock_status_defs)
qed

text \<open>
  C24. The check for a repeated hash looks under the hash of the hash, while the lock is stored
  under the hash: a second lock with the same hash is accepted whenever no lock is stored under
  the hash of the hash. It replaces the first one, and the coins frozen for the first lock stay
  frozen with no record that could release them.
\<close>

theorem hashlock_relock_overwrites:
  assumes inv: "hashlock_inv x s" and act: "execaddr act = x" "fromaddr act \<noteq> x"
    and old: "hashlocks s (hk_Hash p) = Some h" "hl_ReturnAddress h \<noteq> fromaddr act"
    and fresh: "hashlocks s (Sha256 (hk_Hash p)) = None"
    and funds: "CheckAmount (hk_Amount p)" "hk_Amount p \<le> bal NewCoinsAccount x (fromaddr act) s"
  shows "\<exists>r s'. Hashlocklock Sha256 act p s = (Inr r, s') \<and>
    hashlocks s' (hk_Hash p) = Some (NewDB (hk_Hash p) (fromaddr act) (hk_ToAddress p)
      (blocktime act) (hk_Amount p) (hk_Time p)) \<and>
    frz NewCoinsAccount x (hl_ReturnAddress h) s' = frz NewCoinsAccount x (hl_ReturnAddress h) s \<and>
    locked_sum (hl_ReturnAddress h) s' =
      locked_sum (hl_ReturnAddress h) s - open_amount (hl_ReturnAddress h) h"
proof -
  note wf = hashlock_invD(1) [OF inv] and fin = hashlock_invD(2) [OF inv]
  let ?n = "NewDB (hk_Hash p) (fromaddr act) (hk_ToAddress p) (blocktime act) (hk_Amount p) (hk_Time p)"
  let ?a = "fromaddr act" and ?c = NewCoinsAccount
  let ?s1 = "setExec ?c x ?a (bal ?c x ?a s - hk_Amount p) (frz ?c x ?a s + hk_Amount p) s"
  have "\<exists>r. Hashlocklock Sha256 act p s = (Inr r, hashlock_Save ?n ?s1)"
    using wf act fresh funds
    by (simp add: Hashlocklock_def readHashlock_def Let_def ExecFrozen_wf)
  moreover have "locked_sum (hl_ReturnAddress h) (hashlock_Save ?n ?s1) =
      locked_sum (hl_ReturnAddress h) s - open_amount (hl_ReturnAddress h) h"
    using old fin locked_sum_Save [of ?s1 "hl_ReturnAddress h" ?n]
    by (simp add: NewDB_def open_amount_def locked_sum_def)
  ultimately show ?thesis
    using old by (fastforce simp: NewDB_def)
qed

definition hl_two :: hashlock_state where
  "hl_two = setExec NewCoinsAccount ''x'' ''b'' 500 0 (setExec NewCoinsAccount ''x'' ''a'' 900 100
     \<lparr>accts = Map.empty, execs = Map.empty, hashlocks = [''bac'' \<mapsto> NewDB ''bac'' ''a'' ''b'' 0 100 90]\<rparr>)"

lemma hl_two_inv: "hashlock_inv ''x'' hl_two"
  unfolding hashlock_inv_def covered_def hl_two_def
  by (simp add: wf_funded_two MaxInt64_def wf_hashlock_def NewDB_def CheckAmount_def MaxCoin_def
      open_amount_def msum_upd hashlock_status_defs)
     (simp add: LoadExecAccount_def newAccount_def)

theorem hashlock_relock_overwrites_witness:
  "\<exists>r s'. Hashlocklock rev (hl_act ''b'' 5) (hl_lock\<lparr>hk_Hash := ''bac'', hk_ReturnAddress := ''b''\<rparr>) hl_two
     = (Inr r, s') \<and> locked_sum ''a'' s' = 0 \<and> frz NewCoinsAccount ''x'' ''a'' s' = 100"
proof -
  let ?p = "hl_lock\<lparr>hk_Hash := ''bac'', hk_ReturnAddress := ''b''\<rparr>"
  let ?h = "NewDB ''bac'' ''a'' ''b'' 0 100 90"
  have "\<exists>r s'. Hashlocklock rev (hl_act ''b'' 5) ?p hl_two = (Inr r, s') \<and>
      frz NewCoinsAccount ''x'' (hl_ReturnAddress ?h) s' = frz NewCoinsAccount ''x'' (hl_ReturnAddress ?h) hl_two \<and>
      locked_sum (hl_ReturnAddress ?h) s' =
        locked_sum (hl_ReturnAddress ?h) hl_two - open_amount (hl_ReturnAddress ?h) ?h"
    using hashlock_relock_overwrites [OF hl_two_inv, of "hl_act ''b'' 5" ?p ?h rev]
    by (auto simp: hl_act_def hl_lock_def hl_two_def NewDB_def CheckAmount_def MaxCoin_def)
  moreover have "locked_sum ''a'' hl_two = 100" "frz NewCoinsAccount ''x'' ''a'' hl_two = 100"
    by (simp_all add: NewDB_def open_amount_def hashlock_status_defs locked_sum_def msum_upd hl_two_def)
  ultimately show ?thesis
    by (auto simp: NewDB_def open_amount_def hashlock_status_defs)
qed

text \<open>
  The query records: the writer prefixes the key, the reader does not. A record written when a
  lock is made is never found again, so spending the lock does not set its status but
  overwrites the record with an empty one.
\<close>

lemma hashlock_query_record_lost:
  assumes "db (Sha256 secret) = None" "hk_Hash p = Sha256 secret" "db1 = snd (ExecLocal_Hlock t p db)"
  shows "db1 (calcHashlockIdKey (Sha256 secret)) = Some
      \<lparr>hq_Time = hk_Time p, hq_Status = hashlockLocked, hq_Amount = hk_Amount p, hq_CreateTime = t,
       hq_CurrentTime = 0\<rparr>"
    and "snd (ExecLocal_Hsend Sha256 secret db1) (calcHashlockIdKey (Sha256 secret)) = Some NewHashlockquery"
    and "snd (ExecLocal_Hunlock Sha256 secret db1) (calcHashlockIdKey (Sha256 secret)) = Some NewHashlockquery"
    and "GetTxsByHashlockID (Sha256 secret) now db1 = Inl ErrNotFound"
proof -
  have ne: "Sha256 secret \<noteq> calcHashlockIdKey (Sha256 secret)"
    by (simp add: calcHashlockIdKey_def)
  show "db1 (calcHashlockIdKey (Sha256 secret)) = Some
      \<lparr>hq_Time = hk_Time p, hq_Status = hashlockLocked, hq_Amount = hk_Amount p, hq_CreateTime = t,
       hq_CurrentTime = 0\<rparr>"
    and "snd (ExecLocal_Hsend Sha256 secret db1) (calcHashlockIdKey (Sha256 secret)) = Some NewHashlockquery"
    and "snd (ExecLocal_Hunlock Sha256 secret db1) (calcHashlockIdKey (Sha256 secret)) = Some NewHashlockquery"
    and "GetTxsByHashlockID (Sha256 secret) now db1 = Inl ErrNotFound"
    using assms ne
    by (simp_all add: ExecLocal_Hlock_def ExecLocal_Hsend_def ExecLocal_Hunlock_def UpdateHashReciver_def
        GetHashReciver_def SetHashReciver_def GeHashReciverKV_def NewHashlockquery_def
        GetTxsByHashlockID_def hashlock_status_defs Let_def)
qed

end
