(* ===== verification/ManageConf.thy ===== *)
theory ManageConf
  imports Prelude
begin

text \<open>
  Configuration values that the manage executor stores and other executors read:
  \<open>GetConfValue\<close>, \<open>getManageKey\<close> and \<open>getConfigKey\<close> of
  \<open>plugin/dapp/game/executor/gamedb.go\<close>, and the part of \<open>strconv.ParseInt\<close> they use. A stored
  item is the decoded \<open>ConfigItem\<close>: its string array, or a value that does not decode.
\<close>

datatype conf_item = ConfArr "string list" | ConfBad

type_synonym conf_db = "string \<Rightarrow> conf_item option"

definition ManageKey :: "string \<Rightarrow> string" where
  "ManageKey key = ''mavl-manage-'' @ key"

definition ConfigKey :: "string \<Rightarrow> string" where
  "ConfigKey key = ''mavl-config--'' @ key"

definition is_digit :: "char \<Rightarrow> bool" where
  "is_digit c \<longleftrightarrow> 48 \<le> (of_char c :: nat) \<and> (of_char c :: nat) \<le> 57"

definition digit_val :: "char \<Rightarrow> int" where
  "digit_val c = of_char c - 48"

fun digits_val :: "int \<Rightarrow> string \<Rightarrow> int" where
  "digits_val acc [] = acc"
| "digits_val acc (c # cs) = digits_val (acc * 10 + digit_val c) cs"

definition parse_unsigned :: "string \<Rightarrow> int option" where
  "parse_unsigned s = (if s \<noteq> [] \<and> list_all is_digit s then Some (digits_val 0 s) else None)"

definition ParseInt64 :: "string \<Rightarrow> int option" where
  "ParseInt64 s =
     (let v = (case s of
          [] \<Rightarrow> None
        | c # cs \<Rightarrow> if c = CHR ''+'' then parse_unsigned cs
                   else if c = CHR ''-'' then map_option uminus (parse_unsigned cs)
                   else parse_unsigned s)
      in case v of None \<Rightarrow> None | Some n \<Rightarrow> if in64 n then Some n else None)"

definition getConfigKey :: "conf_db \<Rightarrow> string \<Rightarrow> conf_item option" where
  "getConfigKey db key = db (ConfigKey key)"

definition getManageKey :: "bool \<Rightarrow> conf_db \<Rightarrow> string \<Rightarrow> conf_item option" where
  "getManageKey isPara db key =
     (case db (ManageKey key) of
        Some v \<Rightarrow> Some v
      | None \<Rightarrow> if isPara then None else getConfigKey db key)"

definition GetConfValue :: "bool \<Rightarrow> conf_db \<Rightarrow> string \<Rightarrow> int \<Rightarrow> int" where
  "GetConfValue isPara db key default_value =
     (case getManageKey isPara db key of
        None \<Rightarrow> default_value
      | Some ConfBad \<Rightarrow> default_value
      | Some (ConfArr values) \<Rightarrow>
          if values = [] then default_value
          else case ParseInt64 (last values) of None \<Rightarrow> default_value | Some v \<Rightarrow> v)"

lemma ParseInt64_in64: "ParseInt64 s = Some n \<Longrightarrow> in64 n"
  by (auto simp: ParseInt64_def Let_def split: option.splits if_splits)

lemma GetConfValue_in64: "in64 d \<Longrightarrow> in64 (GetConfValue p db key d)"
  by (auto simp: GetConfValue_def ParseInt64_in64 split: option.splits conf_item.splits)

lemma GetConfValue_default:
  "db (ManageKey key) = None \<Longrightarrow> db (ConfigKey key) = None \<Longrightarrow> GetConfValue p db key d = d"
  by (simp add: GetConfValue_def getManageKey_def getConfigKey_def)

end
