(* ===== verification/Game.thy ===== *)
theory Game
  imports Ledger Driver Escrow ManageConf
begin

text \<open>
  The rock-paper-scissors executor: \<open>plugin/dapp/game/executor/gamedb.go\<close>, \<open>exec.go\<close>,
  \<open>game.go\<close> and \<open>exec_local.go\<close>. A creator freezes a stake under a hashed guess, a matcher
  freezes half of it, and closing the game pays out by the revealed guess. \<open>Sha256\<close> is a
  parameter; \<open>isPara\<close> is \<open>types.IsPara()\<close>.
\<close>

section \<open>State\<close>

definition GameActionCreate :: int where "GameActionCreate = 1"
definition GameActionMatch :: int where "GameActionMatch = 2"
definition GameActionCancel :: int where "GameActionCancel = 3"
definition GameActionClose :: int where "GameActionClose = 4"

lemmas game_status_defs = GameActionCreate_def GameActionMatch_def GameActionCancel_def GameActionClose_def

definition Scissor :: int where "Scissor = 1"
definition Rock :: int where "Rock = 2"
definition Paper :: int where "Paper = 3"
definition Unknown :: int where "Unknown = 4"

definition IsDraw :: int where "IsDraw = 1"
definition IsCreatorWin :: int where "IsCreatorWin = 2"
definition IsMatcherWin :: int where "IsMatcherWin = 3"
definition IsTimeOut :: int where "IsTimeOut = 4"

lemmas game_result_defs = IsDraw_def IsCreatorWin_def IsMatcherWin_def IsTimeOut_def
lemmas game_guess_defs = Scissor_def Rock_def Paper_def Unknown_def

definition MaxGameAmount :: int where "MaxGameAmount = 100"
definition MinGameAmount :: int where "MinGameAmount = 2"
definition ActiveTime :: int where "ActiveTime = 24"
definition MaxTxsPerBlock :: int where "MaxTxsPerBlock = 100000"

record Game =
  gm_GameId :: string
  gm_Status :: int
  gm_CreateTime :: int
  gm_MatchTime :: int
  gm_Closetime :: int
  gm_Value :: int
  gm_CreateAddress :: addr
  gm_MatchAddress :: addr
  gm_HashType :: string
  gm_HashValue :: bytes
  gm_Secret :: string
  gm_Result :: int
  gm_MatcherGuess :: int
  gm_CreateTxHash :: string
  gm_MatchTxHash :: string
  gm_CloseTxHash :: string
  gm_CancelTxHash :: string
  gm_Index :: int
  gm_PrevIndex :: int
  gm_CreatorGuess :: int

record ReceiptGame =
  rg_GameId :: string
  rg_Status :: int
  rg_PrevStatus :: int
  rg_Addr :: addr
  rg_CreateAddr :: addr
  rg_MatchAddr :: addr
  rg_Index :: int
  rg_PrevIndex :: int

record GameCreateTx =
  gc_Value :: int
  gc_HashType :: string
  gc_HashValue :: bytes

record game_state = ledger +
  games :: "string \<Rightarrow> Game option"
  gcounts :: "int \<times> addr \<Rightarrow> int option"
  gconf :: conf_db

datatype game_kv = KVGame string Game | KVCount "int \<times> addr" int

type_synonym game_receipt = "(game_kv, int \<times> ReceiptGame) receipt"

section \<open>Helpers\<close>

definition GetReceiptLog :: "action \<Rightarrow> Game \<Rightarrow> int \<times> ReceiptGame" where
  "GetReceiptLog act game =
     (let st = gm_Status game;
          (ty, prev, a) =
            (if st = GameActionCreate then (711, -1, fromaddr act)
             else if st = GameActionCancel then (713, GameActionCreate, fromaddr act)
             else if st = GameActionMatch then (712, GameActionCreate, fromaddr act)
             else if st = GameActionClose then (714, GameActionMatch, gm_CreateAddress game)
             else (0, 0, fromaddr act))
      in (ty, \<lparr>rg_GameId = gm_GameId game, rg_Status = st, rg_PrevStatus = prev, rg_Addr = a,
               rg_CreateAddr = gm_CreateAddress game, rg_MatchAddr = gm_MatchAddress game,
               rg_Index = gm_Index game, rg_PrevIndex = gm_PrevIndex game\<rparr>))"

definition GetIndex :: "action \<Rightarrow> int" where
  "GetIndex act = add64 (mul64 (height act) MaxTxsPerBlock) (index act)"

definition game_GetKVSet :: "Game \<Rightarrow> game_kv kv list" where
  "game_GetKVSet game = [KVDapp (KVGame (gm_GameId game) game)]"

text \<open>A missing count is an error the caller logs; it then goes on with the value 0.\<close>

definition queryCountByStatusAndAddr :: "int \<Rightarrow> addr \<Rightarrow> game_state \<Rightarrow> int" where
  "queryCountByStatusAndAddr status a s = (case gcounts s (status, a) of None \<Rightarrow> 0 | Some c \<Rightarrow> c)"

definition updateCount :: "int \<Rightarrow> addr \<Rightarrow> game_state \<Rightarrow> game_kv kv list" where
  "updateCount status a s =
     [KVDapp (KVCount (status, a) (add64 (queryCountByStatusAndAddr status a s) 1))]"

definition updateStateDBCache :: "int \<Rightarrow> addr \<Rightarrow> game_state \<Rightarrow> game_state" where
  "updateStateDBCache status a s =
     s\<lparr>gcounts := (gcounts s)((status, a) \<mapsto> add64 (queryCountByStatusAndAddr status a s) 1)\<rparr>"

definition saveStateDB :: "Game \<Rightarrow> game_state \<Rightarrow> game_state" where
  "saveStateDB game s = s\<lparr>games := (games s)(gm_GameId game \<mapsto> game)\<rparr>"

definition readGame :: "string \<Rightarrow> game_state \<Rightarrow> err + Game" where
  "readGame gid s = (case games s gid of None \<Rightarrow> Inl ErrNotFound | Some g \<Rightarrow> Inr g)"

definition CheckExecAccountBalance :: "action \<Rightarrow> addr \<Rightarrow> int \<Rightarrow> int \<Rightarrow> game_state \<Rightarrow> bool" where
  "CheckExecAccountBalance act a ToFrozen ToActive s =
     (let acc = LoadExecAccount NewCoinsAccount a (execaddr act) s
      in Balance acc \<ge> ToFrozen \<and> Frozen acc \<ge> ToActive)"

text \<open>
  \<open>math.Remainder(float64(v), 2) != 0\<close>: a double of magnitude at least \<open>2^53\<close> is an even
  integer, so the conversion of such a value is never seen as odd.
\<close>

definition float_odd :: "int \<Rightarrow> bool" where
  "float_odd v \<longleftrightarrow> \<bar>v\<bar> < 2 ^ 53 \<and> odd v"

definition checkGameIsTimeOut :: "bool \<Rightarrow> action \<Rightarrow> Game \<Rightarrow> game_state \<Rightarrow> bool" where
  "checkGameIsTimeOut isPara act game s =
     (let activeTime = GetConfValue isPara (gconf s) ''game:activeTime'' ActiveTime;
          DurTime = mul64 (60 * 60) activeTime
      in blocktime act > add64 (gm_MatchTime game) DurTime)"

text \<open>\<open>string(Rock)\<close> converts the number to the string holding that code point.\<close>

definition guess_string :: "int \<Rightarrow> string" where
  "guess_string g = [char_of (nat g)]"

definition checkGameResult ::
  "(bytes \<Rightarrow> bytes) \<Rightarrow> bool \<Rightarrow> action \<Rightarrow> Game \<Rightarrow> string \<Rightarrow> game_state \<Rightarrow> int \<times> int" where
  "checkGameResult Sha256 isPara act game secret s =
     (let guess = gm_MatcherGuess game in
      if checkGameIsTimeOut isPara act game s then (IsTimeOut, Unknown)
      else if Sha256 (secret @ guess_string Rock) = gm_HashValue game then
        (if guess = Rock then (IsDraw, Rock)
         else if guess = Scissor then (IsCreatorWin, Rock)
         else if guess = Paper then (IsMatcherWin, Rock)
         else (IsCreatorWin, Rock))
      else if Sha256 (secret @ guess_string Scissor) = gm_HashValue game then
        (if guess = Rock then (IsMatcherWin, Scissor)
         else if guess = Scissor then (IsDraw, Scissor)
         else if guess = Paper then (IsCreatorWin, Scissor)
         else (IsCreatorWin, Scissor))
      else if Sha256 (secret @ guess_string Paper) = gm_HashValue game then
        (if guess = Rock then (IsCreatorWin, Paper)
         else if guess = Scissor then (IsMatcherWin, Paper)
         else if guess = Paper then (IsDraw, Paper)
         else (IsCreatorWin, Paper))
      else (IsMatcherWin, Unknown))"

section \<open>Handlers\<close>

definition GameCreate ::
  "bool \<Rightarrow> action \<Rightarrow> GameCreateTx \<Rightarrow> game_state \<Rightarrow> (game_state, game_receipt) outcome" where
  "GameCreate isPara act create s =
     (let gameId = ToHex (txhash act);
          maxGameAmount = GetConfValue isPara (gconf s) ''game:maxGameAmount'' MaxGameAmount;
          minGameAmount = GetConfValue isPara (gconf s) ''game:minGameAmount'' MinGameAmount
      in
      if gc_Value create > mul64 maxGameAmount Coin then (Inl ErrGameCreateAmount, s)
      else if gc_Value create < mul64 minGameAmount Coin \<or> float_odd (gc_Value create) then
        (Inl (ErrText ''The amount you participate in cannot be less than 2 and must be an even number.''), s)
      else if \<not> CheckExecAccountBalance act (fromaddr act) (gc_Value create) 0 s then (Inl ErrNoBalance, s)
      else bindE (ExecFrozen NewCoinsAccount (fromaddr act) (execaddr act) (gc_Value create) s)
        (\<lambda>r s1.
          let game = \<lparr>gm_GameId = gameId, gm_Status = GameActionCreate,
                gm_CreateTime = blocktime act, gm_MatchTime = 0, gm_Closetime = 0,
                gm_Value = gc_Value create, gm_CreateAddress = fromaddr act, gm_MatchAddress = [],
                gm_HashType = gc_HashType create, gm_HashValue = gc_HashValue create,
                gm_Secret = [], gm_Result = 0, gm_MatcherGuess = 0, gm_CreateTxHash = gameId,
                gm_MatchTxHash = [], gm_CloseTxHash = [], gm_CancelTxHash = [],
                gm_Index = GetIndex act, gm_PrevIndex = 0, gm_CreatorGuess = 0\<rparr>;
              st = gm_Status game;
              s2 = updateStateDBCache st [] s1;
              s3 = updateStateDBCache st (gm_CreateAddress game) s2;
              s4 = saveStateDB game s3
          in (Inr \<lparr>rTy = ExecOk,
                   rKV = game_GetKVSet game @ rKV r @ updateCount st [] s4 @
                         updateCount st (gm_CreateAddress game) s4,
                   rLogs = LogDapp (GetReceiptLog act game) # rLogs r\<rparr>, s4)))"

definition GameMatch ::
  "action \<Rightarrow> string \<Rightarrow> int \<Rightarrow> game_state \<Rightarrow> (game_state, game_receipt) outcome" where
  "GameMatch act gid guess s =
     (case readGame gid s of
        Inl e \<Rightarrow> (Inl e, s)
      | Inr game \<Rightarrow>
        if gm_Status game \<noteq> GameActionCreate then (Inl ErrGameMatchStatus, s)
        else if gm_CreateAddress game = fromaddr act then (Inl ErrGameMatch, s)
        else if \<not> CheckExecAccountBalance act (fromaddr act) (div64 (gm_Value game) 2) 0 s
        then (Inl ErrNoBalance, s)
        else bindE (ExecFrozen NewCoinsAccount (fromaddr act) (execaddr act) (div64 (gm_Value game) 2) s)
          (\<lambda>r s1.
            let game' = game\<lparr>gm_Status := GameActionMatch,
                  gm_Value := add64 (div64 (gm_Value game) 2) (gm_Value game),
                  gm_MatchAddress := fromaddr act, gm_MatchTime := blocktime act,
                  gm_MatcherGuess := guess, gm_MatchTxHash := ToHex (txhash act),
                  gm_PrevIndex := gm_Index game, gm_Index := GetIndex act\<rparr>;
                st = gm_Status game';
                s2 = saveStateDB game' s1;
                s3 = updateStateDBCache st [] s2;
                s4 = updateStateDBCache st (gm_CreateAddress game') s3;
                s5 = updateStateDBCache st (gm_MatchAddress game') s4
            in (Inr \<lparr>rTy = ExecOk,
                     rKV = game_GetKVSet game' @ rKV r @ updateCount st [] s5 @
                           updateCount st (gm_CreateAddress game') s5 @
                           updateCount st (gm_MatchAddress game') s5,
                     rLogs = LogDapp (GetReceiptLog act game') # rLogs r\<rparr>, s5)))"

definition GameCancel ::
  "action \<Rightarrow> string \<Rightarrow> game_state \<Rightarrow> (game_state, game_receipt) outcome" where
  "GameCancel act gid s =
     (case readGame gid s of
        Inl e \<Rightarrow> (Inl e, s)
      | Inr game \<Rightarrow>
        if gm_CreateAddress game \<noteq> fromaddr act then (Inl ErrGameCancleAddr, s)
        else if gm_Status game \<noteq> GameActionCreate then (Inl ErrGameCancleStatus, s)
        else if \<not> CheckExecAccountBalance act (fromaddr act) 0 (gm_Value game) s
        then (Inl ErrNoBalance, s)
        else bindE (ExecActive NewCoinsAccount (gm_CreateAddress game) (execaddr act) (gm_Value game) s)
          (\<lambda>r s1.
            let game' = game\<lparr>gm_Closetime := blocktime act, gm_Status := GameActionCancel,
                  gm_CancelTxHash := ToHex (txhash act), gm_PrevIndex := gm_Index game,
                  gm_Index := GetIndex act\<rparr>;
                st = gm_Status game';
                s2 = saveStateDB game' s1;
                s3 = updateStateDBCache st [] s2;
                s4 = updateStateDBCache st (gm_CreateAddress game') s3
            in (Inr \<lparr>rTy = ExecOk,
                     rKV = rKV r @ game_GetKVSet game' @ updateCount st [] s4 @
                           updateCount st (gm_CreateAddress game') s4,
                     rLogs = rLogs r @ [LogDapp (GetReceiptLog act game')]\<rparr>, s4)))"

text \<open>
  The payout of \<open>GameClose\<close>, one branch per result. The account operations after the first
  are followed by a hand-written rollback: \<open>ExecFrozen\<close> calls whose own result is ignored.
\<close>

definition game_payout ::
  "action \<Rightarrow> Game \<Rightarrow> int \<Rightarrow> game_state \<Rightarrow> (game_state, game_receipt) outcome" where
  "game_payout act game result s =
     (let creator = gm_CreateAddress game; matcher = gm_MatchAddress game;
          third = div64 (gm_Value game) 3; twothirds = div64 (mul64 2 (gm_Value game)) 3;
          x = execaddr act; c = NewCoinsAccount;
          both = (\<lambda>r1 r2. \<lparr>rTy = ExecOk, rKV = rKV r1 @ rKV r2, rLogs = rLogs r1 @ rLogs r2\<rparr>)
      in
      if result = IsCreatorWin then
        bindE (ExecActive c creator x twothirds s) (\<lambda>r1 s1.
          case ExecTransferFrozen c matcher creator x third s1 of
            (Inl e, s2) \<Rightarrow>
              (Inl e, snd (ExecFrozen c creator x twothirds s2 :: (game_state, game_receipt) outcome))
          | (Inr r2, s2) \<Rightarrow> (Inr (both r1 r2), s2))
      else if result = IsMatcherWin then
        bindE (ExecActive c creator x third s) (\<lambda>r1 s1.
          case ExecActive c matcher x third s1 of
            (Inl e, s2) \<Rightarrow>
              (Inl e, snd (ExecFrozen c creator x third s2 :: (game_state, game_receipt) outcome))
          | (Inr r2, s2) \<Rightarrow>
            (case ExecTransferFrozen c creator matcher x third s2 of
               (Inl e, s3) \<Rightarrow>
                 (Inl e, snd (ExecFrozen c matcher x third
                   (snd (ExecFrozen c creator x third s3 :: (game_state, game_receipt) outcome))
                   :: (game_state, game_receipt) outcome))
             | (Inr r3, s3) \<Rightarrow> (Inr (both (both r1 r2) r3), s3)))
      else if result = IsDraw then
        bindE (ExecActive c creator x twothirds s) (\<lambda>r1 s1.
          case ExecActive c matcher x third s1 of
            (Inl e, s2) \<Rightarrow>
              (Inl e, snd (ExecFrozen c creator x twothirds s2 :: (game_state, game_receipt) outcome))
          | (Inr r2, s2) \<Rightarrow> (Inr (both r1 r2), s2))
      else if result = IsTimeOut then
        bindE (ExecActive c matcher x third s) (\<lambda>r1 s1.
          case ExecTransferFrozen c creator matcher x twothirds s1 of
            (Inl e, s2) \<Rightarrow>
              (Inl e, snd (ExecFrozen c matcher x third s2 :: (game_state, game_receipt) outcome))
          | (Inr r2, s2) \<Rightarrow> (Inr (both r1 r2), s2))
      else (Inr \<lparr>rTy = ExecOk, rKV = [], rLogs = []\<rparr>, s))"

definition GameClose ::
  "(bytes \<Rightarrow> bytes) \<Rightarrow> bool \<Rightarrow> action \<Rightarrow> string \<Rightarrow> string \<Rightarrow> game_state \<Rightarrow>
   (game_state, game_receipt) outcome" where
  "GameClose Sha256 isPara act gid secret s =
     (case readGame gid s of
        Inl e \<Rightarrow> (Inl e, s)
      | Inr game \<Rightarrow>
        if fromaddr act \<noteq> gm_CreateAddress game \<and> \<not> checkGameIsTimeOut isPara act game s
        then (Inl ErrGameCloseAddr, s)
        else if gm_Status game \<noteq> GameActionMatch then (Inl ErrGameCloseStatus, s)
        else if \<not> CheckExecAccountBalance act (gm_CreateAddress game) 0 (div64 (mul64 2 (gm_Value game)) 3) s
        then (Inl ErrNoBalance, s)
        else if \<not> CheckExecAccountBalance act (gm_MatchAddress game) 0 (div64 (gm_Value game) 3) s
        then (Inl ErrNoBalance, s)
        else
          let (result, creatorGuess) = checkGameResult Sha256 isPara act game secret s in
          bindE (game_payout act game result s)
          (\<lambda>r s1.
            let game' = game\<lparr>gm_Closetime := blocktime act, gm_Status := GameActionClose,
                  gm_Secret := secret, gm_Result := result, gm_CloseTxHash := ToHex (txhash act),
                  gm_PrevIndex := gm_Index game, gm_Index := GetIndex act,
                  gm_CreatorGuess := creatorGuess\<rparr>;
                st = gm_Status game';
                s2 = saveStateDB game' s1;
                s3 = updateStateDBCache st [] s2;
                s4 = updateStateDBCache st (gm_CreateAddress game') s3;
                s5 = updateStateDBCache st (gm_MatchAddress game') s4
            in (Inr \<lparr>rTy = ExecOk,
                     rKV = rKV r @ game_GetKVSet game' @ updateCount st [] s5 @
                           updateCount st (gm_CreateAddress game') s5 @
                           updateCount st (gm_MatchAddress game') s5,
                     rLogs = rLogs r @ [LogDapp (GetReceiptLog act game')]\<rparr>, s5)))"

datatype game_action =
    ACreate GameCreateTx
  | AMatch string int
  | ACancel string
  | AClose string string

definition exec_game ::
  "(bytes \<Rightarrow> bytes) \<Rightarrow> bool \<Rightarrow> addr \<Rightarrow> action \<times> game_action \<Rightarrow> game_state \<Rightarrow>
   (game_state, game_receipt) outcome" where
  "exec_game Sha256 isPara x tx s =
     (let act = (fst tx)\<lparr>execaddr := x\<rparr> in
      case snd tx of
        ACreate c \<Rightarrow> GameCreate isPara act c s
      | AMatch gid guess \<Rightarrow> GameMatch act gid guess s
      | ACancel gid \<Rightarrow> GameCancel act gid s
      | AClose gid secret \<Rightarrow> GameClose Sha256 isPara act gid secret s)"

section \<open>The local index\<close>

text \<open>
  The local database lists the games by status and by status and address. A key is modelled by
  its parts; a \<open>None\<close> value deletes the key when the set is written.
\<close>

datatype game_key = GameStatusIndex int int | GameAddrIndex int addr int

record GameRecord =
  gr_GameId :: string
  gr_Index :: int

type_synonym game_local = "game_key \<Rightarrow> GameRecord option"
type_synonym game_localkv = "game_key \<times> GameRecord option"

definition addGameStatusIndex :: "int \<Rightarrow> string \<Rightarrow> int \<Rightarrow> game_localkv" where
  "addGameStatusIndex status gid i = (GameStatusIndex status i, Some \<lparr>gr_GameId = gid, gr_Index = i\<rparr>)"

definition addGameAddrIndex :: "int \<Rightarrow> string \<Rightarrow> addr \<Rightarrow> int \<Rightarrow> game_localkv" where
  "addGameAddrIndex status gid a i = (GameAddrIndex status a i, Some \<lparr>gr_GameId = gid, gr_Index = i\<rparr>)"

definition delGameStatusIndex :: "int \<Rightarrow> int \<Rightarrow> game_localkv" where
  "delGameStatusIndex status i = (GameStatusIndex status i, None)"

definition delGameAddrIndex :: "int \<Rightarrow> addr \<Rightarrow> int \<Rightarrow> game_localkv" where
  "delGameAddrIndex status a i = (GameAddrIndex status a i, None)"

definition updateIndex :: "ReceiptGame \<Rightarrow> game_localkv list" where
  "updateIndex log =
     [addGameAddrIndex (rg_Status log) (rg_GameId log) (rg_Addr log) (rg_Index log),
      addGameStatusIndex (rg_Status log) (rg_GameId log) (rg_Index log)] @
     (if rg_Status log = GameActionMatch then
        [addGameAddrIndex (rg_Status log) (rg_GameId log) (rg_CreateAddr log) (rg_Index log),
         delGameAddrIndex GameActionCreate (rg_CreateAddr log) (rg_PrevIndex log),
         delGameStatusIndex GameActionCreate (rg_PrevIndex log)] else []) @
     (if rg_Status log = GameActionCancel then
        [delGameAddrIndex GameActionCreate (rg_CreateAddr log) (rg_PrevIndex log),
         delGameStatusIndex GameActionCreate (rg_PrevIndex log)] else []) @
     (if rg_Status log = GameActionClose then
        [addGameAddrIndex (rg_Status log) (rg_GameId log) (rg_MatchAddr log) (rg_Index log),
         delGameAddrIndex GameActionMatch (rg_MatchAddr log) (rg_PrevIndex log),
         delGameAddrIndex GameActionMatch (rg_CreateAddr log) (rg_PrevIndex log),
         delGameStatusIndex GameActionMatch (rg_PrevIndex log)] else [])"

definition rollbackIndex :: "ReceiptGame \<Rightarrow> game_localkv list" where
  "rollbackIndex log =
     [delGameAddrIndex (rg_Status log) (rg_Addr log) (rg_Index log),
      delGameStatusIndex (rg_Status log) (rg_Index log)] @
     (if rg_Status log = GameActionMatch then
        [delGameAddrIndex (rg_Status log) (rg_CreateAddr log) (rg_Index log),
         addGameAddrIndex GameActionCreate (rg_GameId log) (rg_CreateAddr log) (rg_PrevIndex log),
         addGameStatusIndex GameActionCreate (rg_GameId log) (rg_PrevIndex log)] else []) @
     (if rg_Status log = GameActionCancel then
        [addGameAddrIndex GameActionCreate (rg_GameId log) (rg_CreateAddr log) (rg_PrevIndex log),
         addGameStatusIndex GameActionCreate (rg_GameId log) (rg_PrevIndex log)] else []) @
     (if rg_Status log = GameActionClose then
        [delGameAddrIndex (rg_Status log) (rg_MatchAddr log) (rg_Index log),
         addGameAddrIndex GameActionMatch (rg_GameId log) (rg_MatchAddr log) (rg_PrevIndex log),
         addGameAddrIndex GameActionMatch (rg_GameId log) (rg_CreateAddr log) (rg_PrevIndex log),
         addGameStatusIndex GameActionMatch (rg_GameId log) (rg_PrevIndex log)] else [])"

text \<open>\<open>execLocal\<close> and \<open>execDelLocal\<close>: the sets of all game logs of a successful receipt.\<close>

definition game_logs :: "game_receipt \<Rightarrow> ReceiptGame list" where
  "game_logs r = (if rTy r \<noteq> ExecOk then [] else
     concat (map (\<lambda>l. case l of LogDapp (ty, log) \<Rightarrow> if ty \<in> {711, 712, 713, 714} then [log] else []
       | _ \<Rightarrow> []) (rLogs r)))"

definition execLocal_game :: "game_receipt \<Rightarrow> game_localkv list" where
  "execLocal_game r = concat (map updateIndex (game_logs r))"

definition execDelLocal_game :: "game_receipt \<Rightarrow> game_localkv list" where
  "execDelLocal_game r = concat (map rollbackIndex (game_logs r))"

definition write_local :: "game_localkv list \<Rightarrow> game_local \<Rightarrow> game_local" where
  "write_local kvs db = fold (\<lambda>(k, v) d. d(k := v)) kvs db"

section \<open>Payouts\<close>

text \<open>What each player's active balance gains, in thirds of the pot, for each result.\<close>

definition creator_share :: "int \<Rightarrow> int" where
  "creator_share result = (if result = IsCreatorWin then 3 else if result = IsMatcherWin then 1
     else if result = IsDraw then 2 else 0)"

definition matcher_share :: "int \<Rightarrow> int" where
  "matcher_share result = 3 - creator_share result"

lemma game_payout_ok:
  assumes wf: "wf_ledger s" and x: "execaddr act = x"
    and ne: "gm_CreateAddress g \<noteq> gm_MatchAddress g" "gm_CreateAddress g \<noteq> x" "gm_MatchAddress g \<noteq> x"
    and t: "div64 (gm_Value g) 3 = t" "div64 (mul64 2 (gm_Value g)) 3 = 2 * t"
    and amt: "CheckAmount t" "CheckAmount (2 * t)"
    and fund: "2 * t \<le> frz NewCoinsAccount x (gm_CreateAddress g) s"
      "t \<le> frz NewCoinsAccount x (gm_MatchAddress g) s"
    and res: "result \<in> {IsDraw, IsCreatorWin, IsMatcherWin, IsTimeOut}"
  obtains r s' where "game_payout act g result s = (Inr r, s')" "pool_step s s'"
    "\<And>b. bal NewCoinsAccount x b s' = bal NewCoinsAccount x b s
       + (if b = gm_CreateAddress g then creator_share result * t
          else if b = gm_MatchAddress g then matcher_share result * t else 0)"
    "\<And>b. frz NewCoinsAccount x b s' = frz NewCoinsAccount x b s
       - (if b = gm_CreateAddress g then 2 * t else if b = gm_MatchAddress g then t else 0)"
proof -
  let ?c = "gm_CreateAddress g" and ?m = "gm_MatchAddress g" and ?d = NewCoinsAccount
  note pay = game_payout_def t x Let_def
  consider "result = IsCreatorWin" | "result = IsMatcherWin" | "result = IsDraw" | "result = IsTimeOut"
    using res by auto
  then show ?thesis
  proof cases
    case 1
    obtain r1 :: game_receipt and s1 where e1: "ExecActive ?d ?c x (2 * t) s = (Inr r1, s1)"
      using ExecActive_succeeds [OF wf ne(2) amt(2) fund(1)] .
    note f1 = ExecActive_effect [OF wf e1]
    have "t \<le> frz ?d x ?m s1" using ne fund by (simp add: f1)
    then obtain r2 :: game_receipt and s2 where e2: "ExecTransferFrozen ?d ?m ?c x t s1 = (Inr r2, s2)"
      using ExecTransferFrozen_succeeds [OF pool_step_wf [OF f1(4)] ne(1) [symmetric] amt(1)] by blast
    note f2 = ExecTransferFrozen_effect [OF pool_step_wf [OF f1(4)] e2]
    have "\<exists>r. game_payout act g result s = (Inr r, s2)"
      using 1 e1 e2 by (simp add: pay game_result_defs)
    then show ?thesis
      using 1 ne
      by (elim exE, intro that [OF _ pool_step_trans [OF f1(4) f2(4)]])
         (auto simp: creator_share_def matcher_share_def game_result_defs f1 f2)
  next
    case 2
    have "t \<le> frz ?d x ?c s" using fund CheckAmount_bounds [OF amt(1)] by linarith
    then obtain r1 :: game_receipt and s1 where e1: "ExecActive ?d ?c x t s = (Inr r1, s1)"
      using ExecActive_succeeds [OF wf ne(2) amt(1)] by blast
    note f1 = ExecActive_effect [OF wf e1] and w1 = pool_step_wf [OF ExecActive_effect(4) [OF wf e1]]
    have "t \<le> frz ?d x ?m s1" using ne fund by (simp add: f1)
    then obtain r2 :: game_receipt and s2 where e2: "ExecActive ?d ?m x t s1 = (Inr r2, s2)"
      using ExecActive_succeeds [OF w1 ne(3) amt(1)] by blast
    note f2 = ExecActive_effect [OF w1 e2] and w2 = pool_step_wf [OF ExecActive_effect(4) [OF w1 e2]]
    have "t \<le> frz ?d x ?c s2" using ne fund by (simp add: f1 f2)
    then obtain r3 :: game_receipt and s3 where e3: "ExecTransferFrozen ?d ?c ?m x t s2 = (Inr r3, s3)"
      using ExecTransferFrozen_succeeds [OF w2 ne(1) amt(1)] by blast
    note f3 = ExecTransferFrozen_effect [OF w2 e3]
    have "\<exists>r. game_payout act g result s = (Inr r, s3)"
      using 2 e1 e2 e3 by (simp add: pay game_result_defs)
    then show ?thesis
      using 2 ne
      by (elim exE, intro that [OF _ pool_step_trans [OF pool_step_trans [OF f1(4) f2(4)] f3(4)]])
         (auto simp: creator_share_def matcher_share_def game_result_defs f1 f2 f3)
  next
    case 3
    obtain r1 :: game_receipt and s1 where e1: "ExecActive ?d ?c x (2 * t) s = (Inr r1, s1)"
      using ExecActive_succeeds [OF wf ne(2) amt(2) fund(1)] .
    note f1 = ExecActive_effect [OF wf e1]
    have "t \<le> frz ?d x ?m s1" using ne fund by (simp add: f1)
    then obtain r2 :: game_receipt and s2 where e2: "ExecActive ?d ?m x t s1 = (Inr r2, s2)"
      using ExecActive_succeeds [OF pool_step_wf [OF f1(4)] ne(3) amt(1)] by blast
    note f2 = ExecActive_effect [OF pool_step_wf [OF f1(4)] e2]
    have "\<exists>r. game_payout act g result s = (Inr r, s2)"
      using 3 e1 e2 by (simp add: pay game_result_defs)
    then show ?thesis
      using 3 ne
      by (elim exE, intro that [OF _ pool_step_trans [OF f1(4) f2(4)]])
         (auto simp: creator_share_def matcher_share_def game_result_defs f1 f2)
  next
    case 4
    obtain r1 :: game_receipt and s1 where e1: "ExecActive ?d ?m x t s = (Inr r1, s1)"
      using ExecActive_succeeds [OF wf ne(3) amt(1) fund(2)] .
    note f1 = ExecActive_effect [OF wf e1]
    have "2 * t \<le> frz ?d x ?c s1" using ne fund by (simp add: f1)
    then obtain r2 :: game_receipt and s2 where e2: "ExecTransferFrozen ?d ?c ?m x (2 * t) s1 = (Inr r2, s2)"
      using ExecTransferFrozen_succeeds [OF pool_step_wf [OF f1(4)] ne(1) amt(2)] by blast
    note f2 = ExecTransferFrozen_effect [OF pool_step_wf [OF f1(4)] e2]
    have "\<exists>r. game_payout act g result s = (Inr r, s2)"
      using 4 e1 e2 by (simp add: pay game_result_defs)
    then show ?thesis
      using 4 ne
      by (elim exE, intro that [OF _ pool_step_trans [OF f1(4) f2(4)]])
         (auto simp: creator_share_def matcher_share_def game_result_defs f1 f2)
  qed
qed

section \<open>The escrow invariant\<close>

text \<open>
  What a game is owed of the frozen coins of an address: the stake while the game is open, two
  thirds of the pot by its creator and one third by its matcher once it is matched. The pot of a
  matched game splits exactly, because \<open>GameMatch\<close> has added half of the stake to it.
\<close>

definition game_due :: "addr \<Rightarrow> Game \<Rightarrow> int" where
  "game_due a g =
     (if gm_Status g = GameActionCreate then (if a = gm_CreateAddress g then gm_Value g else 0)
      else if gm_Status g = GameActionMatch then
        (if a = gm_CreateAddress g then 2 * (gm_Value g div 3) else 0) +
        (if a = gm_MatchAddress g then gm_Value g div 3 else 0)
      else 0)"

definition wf_game :: "addr \<Rightarrow> string \<Rightarrow> Game \<Rightarrow> bool" where
  "wf_game x k g \<longleftrightarrow> gm_GameId g = k \<and>
     (gm_Status g = GameActionCreate \<longrightarrow> CheckAmount (gm_Value g) \<and> gm_CreateAddress g \<noteq> x) \<and>
     (gm_Status g = GameActionMatch \<longrightarrow>
        CheckAmount (gm_Value g div 3) \<and> CheckAmount (2 * (gm_Value g div 3)) \<and>
        2 * gm_Value g div 3 = 2 * (gm_Value g div 3) \<and> 0 \<le> gm_Value g \<and> gm_Value g < 2 * MaxCoin \<and>
        gm_CreateAddress g \<noteq> gm_MatchAddress g \<and> gm_CreateAddress g \<noteq> x \<and> gm_MatchAddress g \<noteq> x)"

definition game_inv :: "addr \<Rightarrow> game_state \<Rightarrow> bool" where
  "game_inv x s \<longleftrightarrow> wf_ledger s \<and>
     covered game_due (wf_game x) (games s) (\<lambda>r. frz NewCoinsAccount x r s)"

interpretation gme: escrow game_due "wf_game x" for x
proof unfold_locales
  fix k v r
  assume "wf_game x k v"
  then show "0 \<le> game_due r v"
    by (auto simp: game_due_def wf_game_def CheckAmount_def)
qed

lemma game_invD:
  assumes "game_inv x s"
  shows "wf_ledger s" "games s k = Some g \<Longrightarrow> wf_game x k g"
    "games s k = Some g \<Longrightarrow> game_due r g \<le> frz NewCoinsAccount x r s"
  using assms by (auto simp: game_inv_def covered_def intro: gme.covered_due)

lemma wf_game_amounts:
  assumes "wf_game x k g" "gm_Status g = GameActionMatch"
  shows "div64 (gm_Value g) 3 = gm_Value g div 3"
    "div64 (mul64 2 (gm_Value g)) 3 = 2 * (gm_Value g div 3)"
proof -
  from assms have v: "0 \<le> gm_Value g" "gm_Value g \<le> MaxInt64" "2 * gm_Value g \<le> MaxInt64"
      "2 * gm_Value g div 3 = 2 * (gm_Value g div 3)"
    by (auto simp: wf_game_def MaxCoin_def MaxInt64_def)
  then have "mul64 2 (gm_Value g) = 2 * gm_Value g"
    by (intro mul64_exact in64_nonneg) auto
  then show "div64 (gm_Value g) 3 = gm_Value g div 3"
    "div64 (mul64 2 (gm_Value g)) 3 = 2 * (gm_Value g div 3)"
    using v by (simp_all add: div64_nonneg)
qed

lemma game_tables [simp]:
  "games (updateStateDBCache st a s) = games s"
  "games (saveStateDB g s) = (games s)(gm_GameId g \<mapsto> g)"
  "gcounts (saveStateDB g s) = gcounts s"
  "games (setExec db x a b f s) = games s"
  by (simp_all add: updateStateDBCache_def saveStateDB_def setExec_def)

lemma game_ledger [simp]:
  "accts (saveStateDB g s) = accts s" "execs (saveStateDB g s) = execs s"
  "accts (updateStateDBCache st a s) = accts s" "execs (updateStateDBCache st a s) = execs s"
  by (simp_all add: updateStateDBCache_def saveStateDB_def)

lemma game_ledger_ops [simp]:
  "LoadExecAccount db a x (saveStateDB g s) = LoadExecAccount db a x s"
  "wf_ledger (saveStateDB g s) = wf_ledger s"
  "exec_total db x (saveStateDB g s) = exec_total db x s"
  "LoadExecAccount db a x (updateStateDBCache st b s) = LoadExecAccount db a x s"
  "wf_ledger (updateStateDBCache st b s) = wf_ledger s"
  "exec_total db x (updateStateDBCache st b s) = exec_total db x s"
  by (simp_all add: LoadExecAccount_def wf_ledger_def exec_total_def acct_total_def)

lemma pool_step_games: "pool_step s s1 \<Longrightarrow> games s1 = games s"
  by (cases s, cases s1) (simp add: pool_step_def)

text \<open>Writing a game after account operations: the shape of every handler.\<close>

lemma game_inv_put:
  assumes inv: "game_inv x s" and step: "pool_step s s1" and k: "wf_game x (gm_GameId g) g"
    and t: "games t = (games s1)(gm_GameId g \<mapsto> g)" "accts t = accts s1" "execs t = execs s1"
    and frz: "\<And>r. frz NewCoinsAccount x r s - owed (game_due r) (games s (gm_GameId g)) + game_due r g
      \<le> frz NewCoinsAccount x r s1"
  shows "game_inv x t"
proof -
  have "wf_ledger t" using pool_step_wf [OF step] t by (simp add: wf_ledger_def exec_total_def acct_total_def)
  moreover have "frz NewCoinsAccount x r t = frz NewCoinsAccount x r s1" for r
    using t by (simp add: LoadExecAccount_def)
  ultimately show ?thesis
    using gme.covered_put [OF conjunct2 [OF inv [unfolded game_inv_def]] k frz] t
    by (simp add: game_inv_def pool_step_games [OF step])
qed

lemma GameCreate_inv:
  assumes inv: "game_inv x s" and x: "execaddr act = x" and ok: "GameCreate isPara act c s = (Inr r, s')"
  shows "game_inv x s' \<and> (\<exists>s1. pool_step s s1 \<and> accts s' = accts s1 \<and> execs s' = execs s1)"
proof -
  note wf = game_invD(1) [OF inv]
  let ?a = "fromaddr act" and ?d = NewCoinsAccount
  from ok x obtain s1 g and r1 :: game_receipt where
      e: "ExecFrozen ?d ?a x (gc_Value c) s = (Inr r1, s1)"
    and g: "gm_Status g = GameActionCreate" "gm_Value g = gc_Value c" "gm_CreateAddress g = ?a"
    and t: "games s' = (games s1)(gm_GameId g \<mapsto> g)" "accts s' = accts s1" "execs s' = execs s1"
    by (force simp: GameCreate_def Let_def bindE_ok split: if_splits)
  note f = ExecFrozen_effect [OF wf e]
  have "game_inv x s'"
    using gme.owed_nonneg [OF conjunct2 [OF inv [unfolded game_inv_def]]] f(1,2) g
    by (intro game_inv_put [OF inv f(4) _ t]) (auto simp: wf_game_def game_due_def game_status_defs f(6))
  with f(4) t show ?thesis by blast
qed

lemma match_pot:
  assumes "CheckAmount v" "CheckAmount (v div 2)"
  shows "add64 (v div 2) v = v + v div 2" "(v + v div 2) div 3 = v div 2"
    "2 * (v + v div 2) div 3 = 2 * (v div 2)" "CheckAmount (2 * (v div 2))"
    "div64 v 2 = v div 2"
proof -
  from assms have v: "0 < v" "v < MaxCoin" "1 \<le> v div 2" by (auto simp: CheckAmount_def)
  then show "add64 (v div 2) v = v + v div 2" "div64 v 2 = v div 2"
    by (auto simp: add64_nonneg div64_nonneg MaxCoin_def MaxInt64_def)
  show "(v + v div 2) div 3 = v div 2" "2 * (v + v div 2) div 3 = 2 * (v div 2)" "CheckAmount (2 * (v div 2))"
    using v by (auto simp: CheckAmount_def; presburger)+
qed

lemma GameMatch_inv:
  assumes inv: "game_inv x s" and x: "execaddr act = x" and ok: "GameMatch act gid guess s = (Inr r, s')"
  shows "game_inv x s' \<and> (\<exists>s1. pool_step s s1 \<and> accts s' = accts s1 \<and> execs s' = execs s1)"
proof -
  note wf = game_invD(1) [OF inv]
  let ?a = "fromaddr act" and ?d = NewCoinsAccount
  define H where "H g = g\<lparr>gm_Status := GameActionMatch,
      gm_Value := add64 (div64 (gm_Value g) 2) (gm_Value g), gm_MatchAddress := ?a,
      gm_MatchTime := blocktime act, gm_MatcherGuess := guess, gm_MatchTxHash := ToHex (txhash act),
      gm_PrevIndex := gm_Index g, gm_Index := GetIndex act\<rparr>" for g :: Game
  from ok x obtain g s1 and r1 :: game_receipt where
      g: "games s gid = Some g" "gm_Status g = GameActionCreate" "gm_CreateAddress g \<noteq> ?a"
    and e: "ExecFrozen ?d ?a x (div64 (gm_Value g) 2) s = (Inr r1, s1)"
    and t: "games s' = (games s1)(gm_GameId (H g) \<mapsto> H g)" "accts s' = accts s1" "execs s' = execs s1"
    by (auto simp: GameMatch_def readGame_def H_def Let_def bindE_ok split: if_splits option.splits)
  let ?h = "H g"
  have h: "gm_GameId ?h = gm_GameId g" "gm_Status ?h = GameActionMatch" "gm_CreateAddress ?h = gm_CreateAddress g"
      "gm_MatchAddress ?h = ?a" "gm_Value ?h = add64 (div64 (gm_Value g) 2) (gm_Value g)"
    by (simp_all add: H_def)
  note f = ExecFrozen_effect [OF wf e]
  from game_invD(2) [OF inv g(1)] g(2) have wg: "gm_GameId g = gid" "CheckAmount (gm_Value g)" "gm_CreateAddress g \<noteq> x"
    by (simp_all add: wf_game_def)
  then have d: "div64 (gm_Value g) 2 = gm_Value g div 2"
    by (auto simp: div64_nonneg CheckAmount_def MaxCoin_def MaxInt64_def)
  note p = match_pot [OF wg(2) f(2) [unfolded d]]
  have wh: "wf_game x (gm_GameId ?h) ?h"
    using wg g h f(1,2) p d by (auto simp: wf_game_def game_status_defs CheckAmount_def)
  have due: "game_due q ?h = (if q = gm_CreateAddress g then 2 * (gm_Value g div 2) else 0)
      + (if q = ?a then gm_Value g div 2 else 0)" for q
    using h p d by (simp add: game_due_def game_status_defs)
  have due_g: "game_due q g = (if q = gm_CreateAddress g then gm_Value g else 0)" for q
    using g(2) by (simp add: game_due_def)
  have "game_inv x s'"
    using g wg h d by (intro game_inv_put [OF inv f(4) wh t]) (auto simp: due due_g f(6))
  with f(4) t show ?thesis by blast
qed

lemma GameCancel_inv:
  assumes inv: "game_inv x s" and x: "execaddr act = x" and ok: "GameCancel act gid s = (Inr r, s')"
  shows "game_inv x s' \<and> (\<exists>s1. pool_step s s1 \<and> accts s' = accts s1 \<and> execs s' = execs s1)"
proof -
  note wf = game_invD(1) [OF inv]
  define H where "H g = g\<lparr>gm_Closetime := blocktime act, gm_Status := GameActionCancel,
      gm_CancelTxHash := ToHex (txhash act), gm_PrevIndex := gm_Index g, gm_Index := GetIndex act\<rparr>" for g :: Game
  from ok x obtain g s1 and r1 :: game_receipt where
      g: "games s gid = Some g" "gm_Status g = GameActionCreate"
    and e: "ExecActive NewCoinsAccount (gm_CreateAddress g) x (gm_Value g) s = (Inr r1, s1)"
    and t: "games s' = (games s1)(gm_GameId (H g) \<mapsto> H g)" "accts s' = accts s1" "execs s' = execs s1"
    by (auto simp: GameCancel_def readGame_def H_def Let_def bindE_ok split: if_splits option.splits)
  have h: "gm_GameId (H g) = gm_GameId g" "gm_Status (H g) = GameActionCancel"
    by (simp_all add: H_def)
  note f = ExecActive_effect [OF wf e]
  from game_invD(2) [OF inv g(1)] have wg: "gm_GameId g = gid" by (simp add: wf_game_def)
  have "game_inv x s'"
    using g wg h
    by (intro game_inv_put [OF inv f(4) _ t]) (auto simp: wf_game_def game_status_defs game_due_def f(6))
  with f(4) t show ?thesis by blast
qed

lemma checkGameResult_range:
  "fst (checkGameResult Sha256 isPara act g secret s) \<in> {IsDraw, IsCreatorWin, IsMatcherWin, IsTimeOut}"
  by (simp add: checkGameResult_def Let_def)

text \<open>Under the invariant the payout of a matched game cannot fail.\<close>

lemma game_payout_matched:
  assumes inv: "game_inv x s" and x: "execaddr act = x"
    and g: "games s gid = Some g" "gm_Status g = GameActionMatch"
    and res: "result \<in> {IsDraw, IsCreatorWin, IsMatcherWin, IsTimeOut}"
  obtains r s1 where "game_payout act g result s = (Inr r, s1)" "pool_step s s1"
    "\<And>b. bal NewCoinsAccount x b s1 = bal NewCoinsAccount x b s
       + (if b = gm_CreateAddress g then creator_share result * (gm_Value g div 3)
          else if b = gm_MatchAddress g then matcher_share result * (gm_Value g div 3) else 0)"
    "\<And>b. frz NewCoinsAccount x b s1 = frz NewCoinsAccount x b s - game_due b g"
proof -
  have wg: "wf_game x gid g" by (rule game_invD(2) [OF inv g(1)])
  have due: "game_due b g \<le> frz NewCoinsAccount x b s" for b by (rule game_invD(3) [OF inv g(1)])
  obtain r s1 where p: "game_payout act g result s = (Inr r, s1)" "pool_step s s1"
    "\<And>b. bal NewCoinsAccount x b s1 = bal NewCoinsAccount x b s
       + (if b = gm_CreateAddress g then creator_share result * (gm_Value g div 3)
          else if b = gm_MatchAddress g then matcher_share result * (gm_Value g div 3) else 0)"
    "\<And>b. frz NewCoinsAccount x b s1 = frz NewCoinsAccount x b s
       - (if b = gm_CreateAddress g then 2 * (gm_Value g div 3) else if b = gm_MatchAddress g then gm_Value g div 3 else 0)"
    using wg g due [of "gm_CreateAddress g"] due [of "gm_MatchAddress g"]
    by (elim game_payout_ok [OF game_invD(1) [OF inv] x _ _ _ wf_game_amounts [OF wg g(2)] _ _ _ _ res, rotated 7])
       (auto simp: wf_game_def game_due_def game_status_defs)
  then show ?thesis
    using wg g by (intro that [OF p(1,2,3)]) (auto simp: game_due_def game_status_defs wf_game_def)
qed

lemma GameClose_inv:
  assumes inv: "game_inv x s" and x: "execaddr act = x"
    and ok: "GameClose Sha256 isPara act gid secret s = (Inr r, s')"
  shows "game_inv x s' \<and> (\<exists>s1. pool_step s s1 \<and> accts s' = accts s1 \<and> execs s' = execs s1)"
proof -
  define R where "R g = checkGameResult Sha256 isPara act g secret s" for g
  define H where "H g = g\<lparr>gm_Closetime := blocktime act, gm_Status := GameActionClose,
      gm_Secret := secret, gm_Result := fst (R g), gm_CloseTxHash := ToHex (txhash act),
      gm_PrevIndex := gm_Index g, gm_Index := GetIndex act, gm_CreatorGuess := snd (R g)\<rparr>" for g :: Game
  from ok obtain g s1 r1 where
      g: "games s gid = Some g" "gm_Status g = GameActionMatch"
    and e: "game_payout act g (fst (R g)) s = (Inr r1, s1)"
    and t: "games s' = (games s1)(gm_GameId (H g) \<mapsto> H g)" "accts s' = accts s1" "execs s' = execs s1"
    by (auto simp: GameClose_def readGame_def H_def R_def Let_def bindE_ok split_beta
        split: if_splits option.splits)
  obtain r2 s2 where p: "game_payout act g (fst (R g)) s = (Inr r2, s2)" "pool_step s s2"
      "\<And>b. frz NewCoinsAccount x b s2 = frz NewCoinsAccount x b s - game_due b g"
    using game_payout_matched [OF inv x g] checkGameResult_range unfolding R_def by metis
  have [simp]: "s2 = s1" using e p(1) by simp
  from game_invD(2) [OF inv g(1)] have wg: "gm_GameId g = gid" by (simp add: wf_game_def)
  have h: "gm_GameId (H g) = gid" "gm_Status (H g) = GameActionClose"
    using wg by (simp_all add: H_def)
  have due: "game_due b (H g) = 0" for b using h by (simp add: game_due_def game_status_defs)
  have "game_inv x s'"
    using g h p(2,3) by (intro game_inv_put [OF inv _ _ t]) (auto simp: wf_game_def game_status_defs due)
  with p(2) t show ?thesis by auto
qed

lemma exec_game_inv:
  assumes "game_inv x s" "exec_game Sha256 isPara x tx s = (Inr r, s')"
  shows "game_inv x s' \<and> (\<exists>s1. pool_step s s1 \<and> accts s' = accts s1 \<and> execs s' = execs s1)"
  using assms(2)
  by (cases "snd tx")
     (auto simp: exec_game_def Let_def
        dest!: GameCreate_inv [OF assms(1), rotated] GameMatch_inv [OF assms(1), rotated]
          GameCancel_inv [OF assms(1), rotated] GameClose_inv [OF assms(1), rotated])

interpretation gm: dapp_conserving "exec_game Sha256 isPara x" "game_inv x"
    "\<lambda>s. (\<lambda>db y. exec_total db y s, accts s)" for Sha256 isPara x
proof unfold_locales
  fix s tx r s'
  assume "game_inv x s" "exec_game Sha256 isPara x tx s = (Inr r, s')"
  from exec_game_inv [OF this] show "game_inv x s'"
    and "(\<lambda>db y. exec_total db y s', accts s') = (\<lambda>db y. exec_total db y s, accts s)"
    by (auto simp: pool_step_def exec_total_def)
qed

section \<open>The index agrees with the games\<close>

text \<open>
  The abstract contents of the local index: a game is listed once under its status, and under
  its status for its creator and, from the match on, for its matcher.
\<close>

definition listed :: "Game \<Rightarrow> game_key \<Rightarrow> bool" where
  "listed g key = (case key of
     GameStatusIndex st i \<Rightarrow> st = gm_Status g \<and> i = gm_Index g
   | GameAddrIndex st a i \<Rightarrow> st = gm_Status g \<and> i = gm_Index g \<and>
       (a = gm_CreateAddress g \<or> a = gm_MatchAddress g \<and> st \<in> {GameActionMatch, GameActionClose}))"

definition index_agrees :: "(string \<Rightarrow> Game option) \<Rightarrow> game_local \<Rightarrow> bool" where
  "index_agrees gs db \<longleftrightarrow>
     (\<forall>k g k' g'. gs k = Some g \<longrightarrow> gs k' = Some g' \<longrightarrow> gm_Index g = gm_Index g' \<longrightarrow> k = k') \<and>
     (\<forall>key rec. db key = Some rec \<longleftrightarrow>
        (\<exists>gid g. gs gid = Some g \<and> listed g key \<and> rec = \<lparr>gr_GameId = gid, gr_Index = gm_Index g\<rparr>))"

lemma index_agreesD:
  assumes "index_agrees gs db"
  shows "gs k = Some g \<Longrightarrow> gs k' = Some g' \<Longrightarrow> gm_Index g = gm_Index g' \<Longrightarrow> k = k'"
    "db key = Some rec \<longleftrightarrow>
        (\<exists>gid g. gs gid = Some g \<and> listed g key \<and> rec = \<lparr>gr_GameId = gid, gr_Index = gm_Index g\<rparr>)"
  using assms by (simp_all add: index_agrees_def)

text \<open>Replacing one game: its old keys go, its new keys come, all others stay.\<close>

lemma index_agrees_put:
  assumes ag: "index_agrees gs db"
    and fresh: "\<And>k' g'. gs k' = Some g' \<Longrightarrow> gm_Index g' \<noteq> gm_Index h"
    and db': "\<And>key. db' key =
      (if listed h key then Some \<lparr>gr_GameId = k, gr_Index = gm_Index h\<rparr>
       else if (case gs k of None \<Rightarrow> False | Some g \<Rightarrow> listed g key) then None else db key)"
  shows "index_agrees (gs(k \<mapsto> h)) db'"
proof -
  have one: "gm_Index g = gm_Index g'" if "listed g key" "listed g' key" for g g' key
    using that by (auto simp: listed_def split: game_key.splits)
  have old: "\<not> listed h key" if "gs j = Some g" "listed g key" for j g key
    using that one [of g key h] fresh [of j g] by blast
  have same: "j = k" if "gs j = Some g'" "gs k = Some g" "listed g key" "listed g' key" for j g g' key
    using index_agreesD(1) [OF ag that(1,2)] one [OF that(4,3)] by blast
  have "db' key = Some rec \<longleftrightarrow> (\<exists>gid g. (gs(k \<mapsto> h)) gid = Some g \<and> listed g key \<and>
      rec = \<lparr>gr_GameId = gid, gr_Index = gm_Index g\<rparr>)" (is "_ \<longleftrightarrow> ?R") for key rec
  proof (cases "listed h key")
    case True
    then show ?thesis using old by (auto simp: db' split: if_splits)
  next
    case False
    then have "?R \<longleftrightarrow> (\<exists>gid g. gid \<noteq> k \<and> gs gid = Some g \<and> listed g key \<and>
        rec = \<lparr>gr_GameId = gid, gr_Index = gm_Index g\<rparr>)"
      by (auto split: if_splits)
    also have "\<dots> \<longleftrightarrow> db' key = Some rec"
      using False same
      by (auto simp: db' index_agreesD(2) [OF ag] split: option.splits)
         (metis option.distinct(1), metis option.inject)
    finally show ?thesis by simp
  qed
  moreover have "i = j" if "(gs(k \<mapsto> h)) i = Some g" "(gs(k \<mapsto> h)) j = Some g'" "gm_Index g = gm_Index g'"
    for i j g g'
    using that fresh index_agreesD(1) [OF ag, of i g j g'] by (auto split: if_splits)
  ultimately show ?thesis unfolding index_agrees_def by blast
qed

lemmas index_defs = addGameStatusIndex_def addGameAddrIndex_def delGameStatusIndex_def delGameAddrIndex_def

text \<open>The keys a game is listed under, and the effect of adding and deleting lists of keys.\<close>

definition game_keys :: "Game \<Rightarrow> game_key set" where
  "game_keys g = {GameStatusIndex (gm_Status g) (gm_Index g),
     GameAddrIndex (gm_Status g) (gm_CreateAddress g) (gm_Index g)} \<union>
     (if gm_Status g \<in> {GameActionMatch, GameActionClose}
      then {GameAddrIndex (gm_Status g) (gm_MatchAddress g) (gm_Index g)} else {})"

lemma listed_keys: "listed g key \<longleftrightarrow> key \<in> game_keys g"
  by (auto simp: listed_def game_keys_def split: game_key.splits)

lemma game_keys_disjoint: "gm_Status g \<noteq> gm_Status h \<Longrightarrow> game_keys g \<inter> game_keys h = {}"
  by (auto simp: game_keys_def)

lemma write_local_simps:
  "write_local [] db = db"
  "write_local ((k, v) # kvs) db = write_local kvs (db(k := v))"
  "write_local (as @ bs) db = write_local bs (write_local as db)"
  by (simp_all add: write_local_def)

lemma write_map: "write_local (map (\<lambda>k. (k, v)) ks) db key = (if key \<in> set ks then v else db key)"
  by (induction ks arbitrary: db) (auto simp: write_local_simps)

text \<open>The moves of a game from one state to the next, as far as the index sees them.\<close>

definition game_move :: "action \<Rightarrow> Game \<Rightarrow> Game \<Rightarrow> bool" where
  "game_move act g h \<longleftrightarrow> gm_GameId h = gm_GameId g \<and> gm_CreateAddress h = gm_CreateAddress g \<and>
     gm_PrevIndex h = gm_Index g \<and> gm_Index h = GetIndex act \<and>
     (gm_Status g = GameActionCreate \<and> gm_Status h = GameActionMatch \<and> gm_MatchAddress h = fromaddr act \<or>
      gm_Status g = GameActionCreate \<and> gm_Status h = GameActionCancel \<and> gm_CreateAddress h = fromaddr act \<or>
      gm_Status g = GameActionMatch \<and> gm_Status h = GameActionClose \<and> gm_MatchAddress h = gm_MatchAddress g)"

definition game_record :: "Game \<Rightarrow> GameRecord" where
  "game_record g = \<lparr>gr_GameId = gm_GameId g, gr_Index = gm_Index g\<rparr>"

lemma updateIndex_new:
  assumes "gm_Status h = GameActionCreate" "gm_CreateAddress h = fromaddr act"
  shows "\<exists>ks. set ks = game_keys h \<and>
    updateIndex (snd (GetReceiptLog act h)) = map (\<lambda>k. (k, Some (game_record h))) ks \<and>
    rollbackIndex (snd (GetReceiptLog act h)) = map (\<lambda>k. (k, None)) ks"
  using assms
  by (intro exI [of _ "[GameAddrIndex (gm_Status h) (gm_CreateAddress h) (gm_Index h),
        GameStatusIndex (gm_Status h) (gm_Index h)]"])
     (auto simp: updateIndex_def rollbackIndex_def GetReceiptLog_def index_defs game_status_defs
        game_record_def game_keys_def)

lemma updateIndex_move:
  assumes "game_move act g h"
  shows "\<exists>new old. set new = game_keys h \<and> set old = game_keys g \<and>
    updateIndex (snd (GetReceiptLog act h)) =
      map (\<lambda>k. (k, Some (game_record h))) new @ map (\<lambda>k. (k, None)) old \<and>
    rollbackIndex (snd (GetReceiptLog act h)) =
      map (\<lambda>k. (k, None)) new @ map (\<lambda>k. (k, Some (game_record g))) old"
proof -
  let ?a = "\<lambda>g a. GameAddrIndex (gm_Status g) a (gm_Index g)"
  let ?s = "\<lambda>g. GameStatusIndex (gm_Status g) (gm_Index g)"
  note d = updateIndex_def rollbackIndex_def GetReceiptLog_def index_defs game_status_defs
    game_record_def game_keys_def
  from assms consider
      "gm_Status g = GameActionCreate \<and> gm_Status h = GameActionMatch \<and> gm_MatchAddress h = fromaddr act"
    | "gm_Status g = GameActionCreate \<and> gm_Status h = GameActionCancel \<and> gm_CreateAddress h = fromaddr act"
    | "gm_Status g = GameActionMatch \<and> gm_Status h = GameActionClose \<and> gm_MatchAddress h = gm_MatchAddress g"
    by (auto simp: game_move_def)
  then show ?thesis
  proof cases
    case 1
    with assms show ?thesis
      by (intro exI [of _ "[?a h (gm_MatchAddress h), ?s h, ?a h (gm_CreateAddress h)]"]
            exI [of _ "[?a g (gm_CreateAddress g), ?s g]"]) (simp add: game_move_def d, blast)
  next
    case 2
    with assms show ?thesis
      by (intro exI [of _ "[?a h (gm_CreateAddress h), ?s h]"]
            exI [of _ "[?a g (gm_CreateAddress g), ?s g]"]) (simp add: game_move_def d, blast)
  next
    case 3
    with assms show ?thesis
      by (intro exI [of _ "[?a h (gm_CreateAddress h), ?s h, ?a h (gm_MatchAddress h)]"]
            exI [of _ "[?a g (gm_MatchAddress g), ?a g (gm_CreateAddress g), ?s g]"])
         (simp add: game_move_def d, blast)
  qed
qed

lemma index_move:
  assumes ag: "index_agrees gs db" and g: "gs k = Some g" "gm_GameId g = k" and mv: "game_move act g h"
    and fresh: "\<And>k' g'. gs k' = Some g' \<Longrightarrow> gm_Index g' \<noteq> GetIndex act"
    and db1: "db1 = write_local (updateIndex (snd (GetReceiptLog act h))) db"
  shows "index_agrees (gs(k \<mapsto> h)) db1 \<and>
    write_local (rollbackIndex (snd (GetReceiptLog act h))) db1 = db"
proof -
  obtain new old where u: "set new = game_keys h" "set old = game_keys g"
    "updateIndex (snd (GetReceiptLog act h)) =
      map (\<lambda>k. (k, Some (game_record h))) new @ map (\<lambda>k. (k, None)) old"
    "rollbackIndex (snd (GetReceiptLog act h)) =
      map (\<lambda>k. (k, None)) new @ map (\<lambda>k. (k, Some (game_record g))) old"
    using updateIndex_move [OF mv] by blast
  have i: "gm_Index h = GetIndex act" "gm_GameId h = k" "gm_Status g \<noteq> gm_Status h"
    using mv g by (auto simp: game_move_def game_status_defs)
  note dis = game_keys_disjoint [OF i(3)]
  have db1': "db1 key = (if listed h key then Some \<lparr>gr_GameId = k, gr_Index = gm_Index h\<rparr>
     else if (case gs k of None \<Rightarrow> False | Some g \<Rightarrow> listed g key) then None else db key)" for key
    using dis i(2) g by (auto simp: db1 u write_local_simps write_map listed_keys game_record_def)
  have "db key = Some (game_record g)" if "key \<in> game_keys g" for key
    using that g by (auto simp: index_agreesD(2) [OF ag] listed_keys game_record_def)
  moreover have "db key = None" if "key \<in> game_keys h" for key
  proof (rule ccontr)
    assume "db key \<noteq> None"
    then obtain j f where "gs j = Some f" "listed f key"
      using index_agreesD(2) [OF ag] by auto
    with that fresh [of j f] i(1) show False
      by (auto simp: listed_def game_keys_def split: if_splits)
  qed
  ultimately have "write_local (rollbackIndex (snd (GetReceiptLog act h))) db1 = db"
    by (intro ext) (auto simp: u write_local_simps write_map db1' g listed_keys game_record_def)
  with index_agrees_put [OF ag _ db1'] fresh i(1) show ?thesis by auto
qed

lemma index_new:
  assumes ag: "index_agrees gs db" and g: "gs k = None" "gm_GameId h = k"
    and h: "gm_Status h = GameActionCreate" "gm_CreateAddress h = fromaddr act" "gm_Index h = GetIndex act"
    and fresh: "\<And>k' g'. gs k' = Some g' \<Longrightarrow> gm_Index g' \<noteq> GetIndex act"
    and db1: "db1 = write_local (updateIndex (snd (GetReceiptLog act h))) db"
  shows "index_agrees (gs(k \<mapsto> h)) db1 \<and>
    write_local (rollbackIndex (snd (GetReceiptLog act h))) db1 = db"
proof -
  obtain ks where u: "set ks = game_keys h"
    "updateIndex (snd (GetReceiptLog act h)) = map (\<lambda>k. (k, Some (game_record h))) ks"
    "rollbackIndex (snd (GetReceiptLog act h)) = map (\<lambda>k. (k, None)) ks"
    using updateIndex_new [OF h(1,2)] by blast
  have db1': "db1 key = (if listed h key then Some \<lparr>gr_GameId = k, gr_Index = gm_Index h\<rparr>
     else if (case gs k of None \<Rightarrow> False | Some g \<Rightarrow> listed g key) then None else db key)" for key
    using g by (auto simp: db1 u write_map listed_keys game_record_def)
  have "db key = None" if "key \<in> game_keys h" for key
  proof (rule ccontr)
    assume "db key \<noteq> None"
    then obtain j f where "gs j = Some f" "listed f key"
      using index_agreesD(2) [OF ag] by auto
    with that fresh [of j f] h(3) show False
      by (auto simp: listed_def game_keys_def split: if_splits)
  qed
  then have "write_local (rollbackIndex (snd (GetReceiptLog act h))) db1 = db"
    by (intro ext) (auto simp: u write_map db1' g listed_keys)
  with index_agrees_put [OF ag _ db1'] fresh h(3) show ?thesis by auto
qed

text \<open>A receipt of the account operations carries no log of the executor.\<close>

definition ledger_logs :: "game_receipt \<Rightarrow> bool" where
  "ledger_logs r \<longleftrightarrow> (\<forall>l \<in> set (rLogs r). \<forall>d. l \<noteq> LogDapp d)"

lemma exec_ledger_logs:
  "ExecFrozen db a x n s = (Inr r, s') \<Longrightarrow> ledger_logs r"
  "ExecActive db a x n s = (Inr r, s') \<Longrightarrow> ledger_logs r"
  "ExecTransferFrozen db a b x n s = (Inr r, s') \<Longrightarrow> ledger_logs r"
  by (auto simp: ledger_logs_def ExecFrozen_def ExecActive_def ExecTransferFrozen_def execReceipt_def
      execReceipt2_def Let_def split: if_splits)

lemma payout_ledger_logs: "game_payout act g res s = (Inr r, s') \<Longrightarrow> ledger_logs r"
  by (simp add: game_payout_def Let_def bindE_ok split: if_split_asm; (elim exE conjE)?)
     (auto split: sum.split_asm prod.split_asm dest!: exec_ledger_logs, auto simp: ledger_logs_def)

lemma game_logs_one:
  assumes "ledger_logs r1" "rTy r = ExecOk" "fst l \<in> {711, 712, 713, 714}"
    "rLogs r = LogDapp l # rLogs r1 \<or> rLogs r = rLogs r1 @ [LogDapp l]"
  shows "game_logs r = [snd l]"
proof -
  have "concat (map (\<lambda>l. case l of LogDapp (ty, log) \<Rightarrow> if ty \<in> {711, 712, 713, 714} then [log] else []
       | _ \<Rightarrow> []) (rLogs r1)) = []"
    using assms(1) by (auto simp: ledger_logs_def split: rlog.splits)
  then show ?thesis using assms(2-4) by (auto simp: game_logs_def split: prod.splits)
qed

text \<open>Each successful transaction opens a game or moves one, and logs exactly that game.\<close>

definition moved :: "action \<Rightarrow> game_state \<Rightarrow> game_receipt \<Rightarrow> game_state \<Rightarrow> bool" where
  "moved act s r s' \<longleftrightarrow> (\<exists>k g h. games s k = Some g \<and> gm_GameId g = k \<and> game_move act g h \<and>
     games s' = (games s)(k \<mapsto> h) \<and> game_logs r = [snd (GetReceiptLog act h)])"

lemma movedI:
  assumes inv: "game_inv x s" and g: "games s k = Some g" and mv: "game_move act g h"
    and step: "games s1 = games s" and t: "games s' = (games s1)(gm_GameId h \<mapsto> h)"
    and l: "ledger_logs r1" "rTy r = ExecOk"
      "rLogs r = LogDapp (GetReceiptLog act h) # rLogs r1 \<or> rLogs r = rLogs r1 @ [LogDapp (GetReceiptLog act h)]"
  shows "moved act s r s'"
proof -
  have k: "gm_GameId g = k" "gm_GameId h = k"
    using game_invD(2) [OF inv g] mv by (simp_all add: wf_game_def game_move_def)
  have "fst (GetReceiptLog act h) \<in> {711, 712, 713, 714}"
    using mv by (auto simp: GetReceiptLog_def game_move_def game_status_defs)
  from game_logs_one [OF l(1,2) this l(3)] k g mv step t show ?thesis
    by (auto simp: moved_def)
qed

lemma GameMatch_moved:
  assumes inv: "game_inv x s" and x: "execaddr act = x" and ok: "GameMatch act gid guess s = (Inr r, s')"
  shows "moved act s r s'"
proof -
  define H where "H g = g\<lparr>gm_Status := GameActionMatch,
      gm_Value := add64 (div64 (gm_Value g) 2) (gm_Value g), gm_MatchAddress := fromaddr act,
      gm_MatchTime := blocktime act, gm_MatcherGuess := guess, gm_MatchTxHash := ToHex (txhash act),
      gm_PrevIndex := gm_Index g, gm_Index := GetIndex act\<rparr>" for g :: Game
  from ok x obtain g s1 and r1 :: game_receipt where
      g: "games s gid = Some g" "gm_Status g = GameActionCreate"
    and e: "ExecFrozen NewCoinsAccount (fromaddr act) x (div64 (gm_Value g) 2) s = (Inr r1, s1)"
    and t: "games s' = (games s1)(gm_GameId (H g) \<mapsto> H g)"
    and l: "rTy r = ExecOk" "rLogs r = LogDapp (GetReceiptLog act (H g)) # rLogs r1"
    by (auto simp: GameMatch_def readGame_def H_def Let_def bindE_ok split: if_splits option.splits)
  have "game_move act g (H g)" using g(2) by (simp add: game_move_def H_def)
  with g(1) t l show ?thesis
    using pool_step_games [OF ExecFrozen_effect(4) [OF game_invD(1) [OF inv] e]]
    by (intro movedI [OF inv _ _ _ _ exec_ledger_logs(1) [OF e]]) auto
qed

lemma GameCancel_moved:
  assumes inv: "game_inv x s" and x: "execaddr act = x" and ok: "GameCancel act gid s = (Inr r, s')"
  shows "moved act s r s'"
proof -
  define H where "H g = g\<lparr>gm_Closetime := blocktime act, gm_Status := GameActionCancel,
      gm_CancelTxHash := ToHex (txhash act), gm_PrevIndex := gm_Index g, gm_Index := GetIndex act\<rparr>" for g :: Game
  from ok x obtain g s1 and r1 :: game_receipt where
      g: "games s gid = Some g" "gm_Status g = GameActionCreate" "gm_CreateAddress g = fromaddr act"
    and e: "ExecActive NewCoinsAccount (gm_CreateAddress g) x (gm_Value g) s = (Inr r1, s1)"
    and t: "games s' = (games s1)(gm_GameId (H g) \<mapsto> H g)"
    and l: "rTy r = ExecOk" "rLogs r = rLogs r1 @ [LogDapp (GetReceiptLog act (H g))]"
    by (auto simp: GameCancel_def readGame_def H_def Let_def bindE_ok split: if_splits option.splits)
  have "game_move act g (H g)" using g(2,3) by (simp add: game_move_def H_def)
  with g(1) t l show ?thesis
    using pool_step_games [OF ExecActive_effect(4) [OF game_invD(1) [OF inv] e]]
    by (intro movedI [OF inv _ _ _ _ exec_ledger_logs(2) [OF e]]) auto
qed

lemma GameClose_moved:
  assumes inv: "game_inv x s" and x: "execaddr act = x"
    and ok: "GameClose Sha256 isPara act gid secret s = (Inr r, s')"
  shows "moved act s r s'"
proof -
  define R where "R g = checkGameResult Sha256 isPara act g secret s" for g
  define H where "H g = g\<lparr>gm_Closetime := blocktime act, gm_Status := GameActionClose,
      gm_Secret := secret, gm_Result := fst (R g), gm_CloseTxHash := ToHex (txhash act),
      gm_PrevIndex := gm_Index g, gm_Index := GetIndex act, gm_CreatorGuess := snd (R g)\<rparr>" for g :: Game
  from ok obtain g s1 r1 where
      g: "games s gid = Some g" "gm_Status g = GameActionMatch"
    and e: "game_payout act g (fst (R g)) s = (Inr r1, s1)"
    and t: "games s' = (games s1)(gm_GameId (H g) \<mapsto> H g)"
    and l: "rTy r = ExecOk" "rLogs r = rLogs r1 @ [LogDapp (GetReceiptLog act (H g))]"
    by (auto simp: GameClose_def readGame_def H_def R_def Let_def bindE_ok split_beta
        split: if_splits option.splits)
  obtain r2 s2 where p: "game_payout act g (fst (R g)) s = (Inr r2, s2)" "pool_step s s2"
    using game_payout_matched [OF inv x g] checkGameResult_range unfolding R_def by metis
  have "games s1 = games s" using pool_step_games [OF p(2)] e p(1) by simp
  moreover have "game_move act g (H g)" using g(2) by (simp add: game_move_def H_def)
  ultimately show ?thesis
    using g(1) t l by (intro movedI [OF inv _ _ _ _ payout_ledger_logs [OF e]]) auto
qed

lemma execaddr_irrelevant [simp]:
  "GetReceiptLog (act\<lparr>execaddr := x\<rparr>) h = GetReceiptLog act h"
  "GetIndex (act\<lparr>execaddr := x\<rparr>) = GetIndex act"
  by (simp_all add: GetReceiptLog_def GetIndex_def cong: if_cong)

lemma moved_execaddr [simp]: "moved (act\<lparr>execaddr := x\<rparr>) s r s' = moved act s r s'"
  by (simp add: game_move_def moved_def)

lemma exec_game_moves:
  assumes inv: "game_inv x s" and ok: "exec_game Sha256 isPara x (act, a) s = (Inr r, s')"
  obtains (new) c h where "a = ACreate c" "gm_GameId h = ToHex (txhash act)" "gm_Status h = GameActionCreate"
      "gm_CreateAddress h = fromaddr act" "gm_Index h = GetIndex act"
      "games s' = (games s)(gm_GameId h \<mapsto> h)" "game_logs r = [snd (GetReceiptLog act h)]"
  | (move) "moved act s r s'"
proof (cases a)
  case (ACreate c)
  let ?h = "\<lparr>gm_GameId = ToHex (txhash act), gm_Status = GameActionCreate,
                gm_CreateTime = blocktime act, gm_MatchTime = 0, gm_Closetime = 0,
                gm_Value = gc_Value c, gm_CreateAddress = fromaddr act, gm_MatchAddress = [],
                gm_HashType = gc_HashType c, gm_HashValue = gc_HashValue c,
                gm_Secret = [], gm_Result = 0, gm_MatcherGuess = 0, gm_CreateTxHash = ToHex (txhash act),
                gm_MatchTxHash = [], gm_CloseTxHash = [], gm_CancelTxHash = [],
                gm_Index = GetIndex act, gm_PrevIndex = 0, gm_CreatorGuess = 0\<rparr>"
  from ok obtain s1 and r1 :: game_receipt where
      e: "ExecFrozen NewCoinsAccount (fromaddr act) x (gc_Value c) s = (Inr r1, s1)"
    and r: "rTy r = ExecOk" "rLogs r = LogDapp (GetReceiptLog act ?h) # rLogs r1"
    and t: "games s' = (games s1)(gm_GameId ?h \<mapsto> ?h)"
    by (auto simp: exec_game_def ACreate GameCreate_def GetReceiptLog_def GetIndex_def Let_def bindE_ok
        split: if_splits)
  have "game_logs r = [snd (GetReceiptLog act ?h)]"
    using r by (intro game_logs_one [OF exec_ledger_logs(1) [OF e]]) (auto simp: GetReceiptLog_def)
  with t show ?thesis
    using pool_step_games [OF ExecFrozen_effect(4) [OF game_invD(1) [OF inv] e]]
    by (intro new [OF ACreate, of ?h]) simp_all
qed (use ok in \<open>auto simp: exec_game_def Let_def intro!: move
       dest!: GameMatch_moved [OF inv, rotated] GameCancel_moved [OF inv, rotated] GameClose_moved [OF inv, rotated]\<close>)

section \<open>Properties\<close>

definition gm_demo :: game_state where
  "gm_demo = setExec NewCoinsAccount ''x'' ''b'' 1000000000 0
     (setExec NewCoinsAccount ''x'' ''a'' 1000000000 0
       \<lparr>accts = Map.empty, execs = Map.empty, games = Map.empty, gcounts = Map.empty, gconf = Map.empty\<rparr>)"

lemma gm_demo_inv: "game_inv ''x'' gm_demo"
  unfolding game_inv_def covered_def gm_demo_def
  by (simp add: wf_funded_two MaxInt64_def) (simp add: LoadExecAccount_def newAccount_def)

definition gm_act :: "addr \<Rightarrow> string \<Rightarrow> int \<Rightarrow> int \<Rightarrow> action" where
  "gm_act a h t i = \<lparr>txhash = h, fromaddr = a, blocktime = t, height = 1, execaddr = ''x'', index = i\<rparr>"

definition gm_create :: GameCreateTx where
  "gm_create = \<lparr>gc_Value = 400000000, gc_HashType = [], gc_HashValue = rev (''s'' @ guess_string Rock)\<rparr>"

text \<open>
  C3. Escrow of the game executor: after any block of its transactions the frozen coins of
  every address cover what its open games owe, the stake before the match and the two shares of
  the pot after it, and the coins in every executor's pool are neither created nor destroyed.
\<close>

theorem game_block_escrow:
  assumes "game_inv x s" "s' = snd (execBlock True (exec_game Sha256 isPara x) txs s)"
  shows "wf_ledger s' \<and> (\<forall>a. msum (game_due a) (games s') \<le> frz NewCoinsAccount x a s') \<and>
    (\<forall>db y. exec_total db y s' = exec_total db y s)"
proof -
  have "game_inv x s'"
    unfolding assms(2) by (rule gm.execBlock_inv [OF assms(1)])
  moreover have "(\<lambda>db y. exec_total db y s', accts s') = (\<lambda>db y. exec_total db y s, accts s)"
    unfolding assms(2) by (rule gm.execBlock_quantity [OF assms(1)])
  ultimately show ?thesis
    unfolding game_inv_def covered_def by (metis prod.inject)
qed

theorem game_block_escrow_witness:
  "\<forall>a. msum (game_due a) (games (snd (execBlock True (exec_game rev False ''x'')
       [(gm_act ''a'' ''1'' 0 0, ACreate gm_create), (gm_act ''b'' ''2'' 5 1, AMatch (ToHex ''1'') Paper)] gm_demo)))
     \<le> frz NewCoinsAccount ''x'' a (snd (execBlock True (exec_game rev False ''x'')
       [(gm_act ''a'' ''1'' 0 0, ACreate gm_create), (gm_act ''b'' ''2'' 5 1, AMatch (ToHex ''1'') Paper)] gm_demo))"
  using game_block_escrow [OF gm_demo_inv refl] by blast


definition gm_game :: Game where
  "gm_game = \<lparr>gm_GameId = ''g'', gm_Status = GameActionMatch, gm_CreateTime = 0, gm_MatchTime = 5,
     gm_Closetime = 0, gm_Value = 600000000, gm_CreateAddress = ''a'', gm_MatchAddress = ''b'',
     gm_HashType = [], gm_HashValue = rev (''s'' @ guess_string Rock), gm_Secret = [], gm_Result = 0,
     gm_MatcherGuess = Paper, gm_CreateTxHash = [], gm_MatchTxHash = [], gm_CloseTxHash = [],
     gm_CancelTxHash = [], gm_Index = 100001, gm_PrevIndex = 100000, gm_CreatorGuess = 0\<rparr>"

definition gm_matched :: game_state where
  "gm_matched = setExec NewCoinsAccount ''x'' ''b'' 800000000 200000000
     (setExec NewCoinsAccount ''x'' ''a'' 600000000 400000000
       \<lparr>accts = Map.empty, execs = Map.empty, games = [''g'' \<mapsto> gm_game], gcounts = Map.empty,
        gconf = Map.empty\<rparr>)"

lemma gm_matched_inv: "game_inv ''x'' gm_matched"
  unfolding game_inv_def covered_def gm_matched_def
  by (simp add: wf_funded_two MaxInt64_def msum_upd wf_game_def game_due_def gm_game_def game_status_defs
      CheckAmount_def MaxCoin_def)
     (auto simp: LoadExecAccount_def newAccount_def)

lemma gm_matched_game: "games gm_matched ''g'' = Some gm_game"
  by (simp add: gm_matched_def)

lemma gm_matched_conf: "gconf gm_matched = Map.empty"
  by (simp add: gm_matched_def setExec_def)


text \<open>
  C13. The creator of a game nobody has matched can always take the stake back: cancelling
  succeeds, releases exactly the stake and leaves all other balances alone.
\<close>

theorem game_cancel_refund:
  assumes inv: "game_inv x s" and x: "execaddr act = x"
    and g: "games s gid = Some g" "gm_Status g = GameActionCreate" "gm_CreateAddress g = fromaddr act"
  shows "\<exists>r s' h. GameCancel act gid s = (Inr r, s') \<and>
    games s' gid = Some h \<and> gm_Status h = GameActionCancel \<and>
    (\<forall>a. bal NewCoinsAccount x a s' = bal NewCoinsAccount x a s + (if a = fromaddr act then gm_Value g else 0)) \<and>
    (\<forall>a. frz NewCoinsAccount x a s' = frz NewCoinsAccount x a s - (if a = fromaddr act then gm_Value g else 0))"
proof -
  note wf = game_invD(1) [OF inv]
  have wg: "gm_GameId g = gid" "CheckAmount (gm_Value g)" "fromaddr act \<noteq> x"
    using game_invD(2) [OF inv g(1)] g(2,3) by (simp_all add: wf_game_def)
  have "gm_Value g \<le> frz NewCoinsAccount x (fromaddr act) s"
    using game_invD(3) [OF inv g(1), of "fromaddr act"] g by (simp add: game_due_def)
  moreover from this obtain r :: game_receipt and s1 where
      e: "ExecActive NewCoinsAccount (fromaddr act) x (gm_Value g) s = (Inr r, s1)"
    using ExecActive_succeeds [OF wf wg(3,2)] by blast
  moreover note f = ExecActive_effect [OF wf e]
  ultimately show ?thesis
    using g x wg bal_nonneg [OF wf, of NewCoinsAccount "fromaddr act" x]
    by (auto simp: GameCancel_def readGame_def CheckExecAccountBalance_def Let_def f(5,6))
qed

definition gm_open :: game_state where
  "gm_open = setExec NewCoinsAccount ''x'' ''a'' 600000000 400000000
     \<lparr>accts = Map.empty, execs = Map.empty,
      games = [''g'' \<mapsto> gm_game\<lparr>gm_Status := GameActionCreate, gm_Value := 400000000, gm_MatchAddress := []\<rparr>],
      gcounts = Map.empty, gconf = Map.empty\<rparr>"

lemma gm_open_inv: "game_inv ''x'' gm_open"
  unfolding game_inv_def covered_def gm_open_def
  by (simp add: wf_funded_one MaxInt64_def msum_upd wf_game_def game_due_def gm_game_def game_status_defs
      CheckAmount_def MaxCoin_def)
     (auto simp: LoadExecAccount_def newAccount_def)

theorem game_cancel_refund_witness:
  "\<exists>r s'. GameCancel (gm_act ''a'' ''3'' 9 7) ''g'' gm_open = (Inr r, s') \<and>
    bal NewCoinsAccount ''x'' ''a'' s' = 1000000000"
  using game_cancel_refund [OF gm_open_inv, of "gm_act ''a'' ''3'' 9 7" "''g''"]
  by (fastforce simp: gm_open_def gm_act_def gm_game_def)


definition gm_index :: game_local where
  "gm_index = write_local [addGameAddrIndex GameActionCreate ''g'' ''a'' 100001,
     addGameStatusIndex GameActionCreate ''g'' 100001] Map.empty"

lemma gm_index_agrees: "index_agrees (games gm_open) gm_index"
  unfolding index_agrees_def gm_open_def gm_index_def
  by (auto simp: listed_def gm_game_def index_defs write_local_def game_status_defs
      split: game_key.splits if_splits)

lemma gm_cancelable:
  "\<exists>r s'. exec_game rev False ''x'' (gm_act ''a'' ''3'' 9 7, ACancel ''g'') gm_open = (Inr r, s')"
proof -
  have f: "400000000 \<le> frz NewCoinsAccount ''x'' ''a'' gm_open" "0 \<le> bal NewCoinsAccount ''x'' ''a'' gm_open"
    by (simp_all add: gm_open_def)
  obtain r :: game_receipt and s1 where e: "ExecActive NewCoinsAccount ''a'' ''x'' 400000000 gm_open = (Inr r, s1)"
    using f(1) by (elim ExecActive_succeeds [OF game_invD(1) [OF gm_open_inv], rotated 2])
      (simp_all add: CheckAmount_def MaxCoin_def)
  have "games gm_open ''g'' =
      Some (gm_game\<lparr>gm_Status := GameActionCreate, gm_Value := 400000000, gm_MatchAddress := []\<rparr>)"
    by (simp add: gm_open_def)
  with e f show ?thesis
    by (simp add: exec_game_def GameCancel_def readGame_def CheckExecAccountBalance_def gm_act_def gm_game_def Let_def)
qed


text \<open>
  What the key-value pairs of a receipt write: games and counts.
\<close>

fun put_game :: "game_kv \<Rightarrow> game_state \<Rightarrow> game_state" where
  "put_game (KVGame k g) s = s\<lparr>games := (games s)(k \<mapsto> g)\<rparr>"
| "put_game (KVCount k n) s = s\<lparr>gcounts := (gcounts s)(k \<mapsto> n)\<rparr>"

text \<open>
  C25. The stored counts run away from the executed ones: creating one game counts the
  creator's open games up by one in the state of the block, but the receipt, which is what the
  node stores, counts them up by two, because the count in the receipt is computed from the
  already updated one.
\<close>

theorem game_count_stored_twice:
  assumes ok: "GameCreate isPara act c s = (Inr r, s')" and fr: "fromaddr act \<noteq> []"
    and n: "n = queryCountByStatusAndAddr GameActionCreate (fromaddr act) s" "0 \<le> n" "n + 2 \<le> MaxInt64"
  shows "queryCountByStatusAndAddr GameActionCreate (fromaddr act) s' = n + 1 \<and>
    queryCountByStatusAndAddr GameActionCreate (fromaddr act) (replay put_game (rKV r) s) = n + 2"
proof -
  have a: "add64 n 1 = n + 1" "add64 (n + 1) 1 = n + 2"
    using n(2,3) by (simp_all add: add64_nonneg)
  from ok obtain s1 g and r1 :: game_receipt where
      e: "ExecFrozen NewCoinsAccount (fromaddr act) (execaddr act) (gc_Value c) s = (Inr r1, s1)"
    and s': "s' = saveStateDB g (updateStateDBCache GameActionCreate (fromaddr act)
        (updateStateDBCache GameActionCreate [] s1))"
    and r: "rKV r = game_GetKVSet g @ rKV r1 @ updateCount GameActionCreate [] s' @
        updateCount GameActionCreate (fromaddr act) s'"
    by (auto simp: GameCreate_def Let_def bindE_ok split: if_splits)
  have "gcounts s1 = gcounts s"
    using e by (auto simp: ExecFrozen_def SaveExecAccount_def Let_def split: if_splits)
  then have q: "queryCountByStatusAndAddr GameActionCreate (fromaddr act) s' = n + 1"
    using fr n(1) a(1) by (simp add: s' updateStateDBCache_def queryCountByStatusAndAddr_def)
  then have "queryCountByStatusAndAddr GameActionCreate (fromaddr act) (replay put_game (rKV r) s) = n + 2"
    using a(2) by (simp add: r updateCount_def queryCountByStatusAndAddr_def)
  with q show ?thesis by simp
qed

theorem game_count_stored_twice_witness:
  "\<exists>r s'. GameCreate False (gm_act ''a'' ''1'' 0 0) gm_create gm_demo = (Inr r, s') \<and>
    queryCountByStatusAndAddr GameActionCreate ''a'' s' = 1 \<and>
    queryCountByStatusAndAddr GameActionCreate ''a'' (replay put_game (rKV r) gm_demo) = 2"
proof -
  have f: "400000000 \<le> bal NewCoinsAccount ''x'' ''a'' gm_demo" "0 \<le> frz NewCoinsAccount ''x'' ''a'' gm_demo"
    and c: "gconf gm_demo = Map.empty"
    by (simp_all add: gm_demo_def setExec_def LoadExecAccount_def)
  obtain r :: game_receipt and s1 where e: "ExecFrozen NewCoinsAccount ''a'' ''x'' 400000000 gm_demo = (Inr r, s1)"
    using f(1) by (elim ExecFrozen_succeeds [OF game_invD(1) [OF gm_demo_inv], rotated 2])
      (simp_all add: CheckAmount_def MaxCoin_def)
  have "\<exists>r s'. GameCreate False (gm_act ''a'' ''1'' 0 0) gm_create gm_demo = (Inr r, s')"
    using e f by (simp add: GameCreate_def GetConfValue_default c gm_act_def gm_create_def MaxGameAmount_def
      MinGameAmount_def Coin_def mul64_def wrap64_def float_odd_def CheckExecAccountBalance_def Let_def)
  then obtain r s' where ok: "GameCreate False (gm_act ''a'' ''1'' 0 0) gm_create gm_demo = (Inr r, s')"
    by blast
  have "queryCountByStatusAndAddr GameActionCreate ''a'' gm_demo = 0"
    by (simp add: queryCountByStatusAndAddr_def gm_demo_def setExec_def)
  with game_count_stored_twice [OF ok _ refl] ok show ?thesis
    by (simp add: gm_act_def MaxInt64_def)
qed

end
