(* ===== verification/MptEncoding.thy ===== *)
theory MptEncoding
  imports Prelude "HOL-Library.Word"
begin

text \<open>
  The key encodings of the Merkle Patricia trie: \<open>plugin/store/mpt/db/encoding.go\<close>. Keys are
  byte strings; the trie works on their nibbles, closed by the terminator 16, and stores packed
  nibbles with a flag. A Go panic (an index or slice out of range, or the explicit one) is the
  value \<open>None\<close>.
\<close>

unbundle bit_operations_syntax

type_synonym byte = "8 word"

section \<open>Definitions\<close>

definition hasTerm :: "byte list \<Rightarrow> bool" where
  "hasTerm s \<longleftrightarrow> length s > 0 \<and> s ! (length s - 1) = 16"

fun decodeNibbles :: "byte list \<Rightarrow> byte list option" where
  "decodeNibbles [] = Some []"
| "decodeNibbles [n] = None"
| "decodeNibbles (a # b # nibbles) =
     (case decodeNibbles nibbles of None \<Rightarrow> None | Some bs \<Rightarrow> Some ((push_bit 4 a OR b) # bs))"

definition hexToCompact :: "byte list \<Rightarrow> byte list option" where
  "hexToCompact hex0 =
     (let terminator = (if hasTerm hex0 then 1 else 0);
          hex = (if hasTerm hex0 then take (length hex0 - 1) hex0 else hex0);
          flag = push_bit 5 terminator;
          flag' = (if odd (length hex) then flag OR push_bit 4 1 OR (hex ! 0) else flag);
          rest = (if odd (length hex) then drop 1 hex else hex)
      in case decodeNibbles rest of None \<Rightarrow> None | Some bs \<Rightarrow> Some (flag' # bs))"

fun nibbles_of :: "byte list \<Rightarrow> byte list" where
  "nibbles_of [] = []"
| "nibbles_of (b # str) = b div 16 # b mod 16 # nibbles_of str"

definition keybytesToHex :: "byte list \<Rightarrow> byte list" where
  "keybytesToHex str = nibbles_of str @ [16]"

definition compactToHex :: "byte list \<Rightarrow> byte list option" where
  "compactToHex compact =
     (let base = keybytesToHex compact;
          base' = (if base ! 0 < 2 then take (length base - 1) base else base);
          chop = unat (2 - (base ! 0 AND 1))
      in if chop \<le> length base' then Some (drop chop base') else None)"

definition hexToKeybytes :: "byte list \<Rightarrow> byte list option" where
  "hexToKeybytes hex0 =
     (let hex = (if hasTerm hex0 then take (length hex0 - 1) hex0 else hex0)
      in if length hex mod 2 \<noteq> 0 then None else decodeNibbles hex)"

fun prefixLen :: "byte list \<Rightarrow> byte list \<Rightarrow> nat" where
  "prefixLen (x # a) (y # b) = (if x \<noteq> y then 0 else Suc (prefixLen a b))"
| "prefixLen _ _ = 0"

section \<open>Nibbles and bytes\<close>

lemma byte_split: "push_bit 4 (b div 16) OR (b mod 16) = (b :: byte)"
proof -
  have "b div 16 = drop_bit 4 b" "b mod 16 = take_bit 4 b"
    by (simp_all add: drop_bit_eq_div take_bit_eq_mod)
  moreover have "push_bit 4 (drop_bit 4 b) OR take_bit 4 b = b"
    by (rule bit_word_eqI) (auto simp: bit_simps)
  ultimately show ?thesis by simp
qed

lemma byte_join:
  assumes "a < (16 :: byte)" "b < 16"
  shows "(push_bit 4 a OR b) div 16 = a" "(push_bit 4 a OR b) mod 16 = b"
proof -
  have t: "take_bit 4 a = a" "take_bit 4 b = b"
    using assms mod_word_less [of _ 16] by (simp_all add: take_bit_eq_mod)
  have d: "drop_bit 4 (push_bit 4 a OR b) = a"
  proof (rule bit_word_eqI)
    fix n
    have "bit a n \<Longrightarrow> n < 4" "\<not> bit b (4 + n)"
      using t bit_take_bit_iff [of 4 a n] bit_take_bit_iff [of 4 b "4 + n"] by auto
    then show "bit (drop_bit 4 (push_bit 4 a OR b)) n \<longleftrightarrow> bit a n"
      by (auto simp: bit_simps)
  qed
  have m: "take_bit 4 (push_bit 4 a OR b) = b"
    using t(2) by (simp add: take_bit_or take_bit_push_bit)
  from d m show "(push_bit 4 a OR b) div 16 = a" "(push_bit 4 a OR b) mod 16 = b"
    by (simp_all add: drop_bit_eq_div take_bit_eq_mod)
qed

lemma nibbles_of_length [simp]: "length (nibbles_of k) = 2 * length k"
  by (induction k) auto

lemma byte_div_lt: "(b :: byte) div 16 < 16"
proof -
  have "unat b < 256" using unsigned_less [of b] by simp
  then show ?thesis by (simp add: word_less_nat_alt unat_div)
qed

lemma nibbles_of_lt: "n \<in> set (nibbles_of k) \<Longrightarrow> n < 16"
  by (induction k) (auto simp: word_mod_less_divisor byte_div_lt)

lemma decode_nibbles_of [simp]: "decodeNibbles (nibbles_of k) = Some k"
  by (induction k) (auto simp: byte_split)

lemma nibbles_of_decode:
  "decodeNibbles ns = Some bs \<Longrightarrow> \<forall>n \<in> set ns. n < 16 \<Longrightarrow> nibbles_of bs = ns"
  by (induction ns arbitrary: bs rule: decodeNibbles.induct) (auto simp: byte_join split: option.splits)

lemma decodeNibbles_even: "even (length ns) \<Longrightarrow> \<exists>bs. decodeNibbles ns = Some bs"
  by (induction ns rule: decodeNibbles.induct) auto

lemma hasTerm_snoc [simp]: "hasTerm (xs @ [x]) \<longleftrightarrow> x = 16"
  by (simp add: hasTerm_def)

lemma hasTerm_last: "hasTerm s \<longleftrightarrow> s \<noteq> [] \<and> last s = 16"
  by (auto simp: hasTerm_def last_conv_nth)

text \<open>
  Key bytes and their nibbles: converting a key to nibbles with the terminator and back
  gives the key, for every key.
\<close>

theorem keybytes_roundtrip: "hexToKeybytes (keybytesToHex key) = Some key"
  by (simp add: hexToKeybytes_def keybytesToHex_def)

section \<open>The common prefix\<close>

lemma prefixLen_le: "prefixLen a b \<le> length a" "prefixLen a b \<le> length b"
  by (induction a b rule: prefixLen.induct) auto

lemma prefixLen_take: "take (prefixLen a b) a = take (prefixLen a b) b"
  by (induction a b rule: prefixLen.induct) auto

lemma prefixLen_split:
  obtains "prefixLen a b = length b" "a = b @ drop (length b) a"
  | "prefixLen a b = length a" "prefixLen a b < length b" "take (length a) b = a"
  | p x a' y b' where "a = p @ x # a'" "b = p @ y # b'" "x \<noteq> y" "prefixLen a b = length p"
proof (induction a b arbitrary: thesis rule: prefixLen.induct)
  case (1 x a y b)
  show ?case
  proof (cases "x = y")
    case True
    show ?thesis
    proof (rule "1.IH")
      show "\<not> x \<noteq> y" using True by simp
      show "prefixLen a b = length b \<Longrightarrow> a = b @ drop (length b) a \<Longrightarrow> thesis"
        using "1.prems"(1) True by simp
      show "prefixLen a b = length a \<Longrightarrow> prefixLen a b < length b \<Longrightarrow> take (length a) b = a \<Longrightarrow> thesis"
        using "1.prems"(2) True by simp
      show "\<And>p u a' v b'. a = p @ u # a' \<Longrightarrow> b = p @ v # b' \<Longrightarrow> u \<noteq> v \<Longrightarrow>
          prefixLen a b = length p \<Longrightarrow> thesis"
        using "1.prems"(3) [of "x # _"] True by simp
    qed
  next
    case False
    then show ?thesis using "1.prems"(3) [of "[]" x a y b] by simp
  qed
qed auto

section \<open>The compact encoding\<close>

text \<open>The keys of trie nodes: nibbles, with the terminator at most at the end.\<close>

definition hex_key :: "byte list \<Rightarrow> bool" where
  "hex_key h \<longleftrightarrow> (\<forall>n \<in> set (butlast h). n < 16) \<and> (h \<noteq> [] \<longrightarrow> last h \<le> 16)"

lemma hex_key_cases:
  assumes "hex_key h"
  obtains ns where "\<forall>n \<in> set ns. n < 16" "h = ns" "\<not> hasTerm h"
  | ns where "\<forall>n \<in> set ns. n < 16" "h = ns @ [16]" "hasTerm h"
proof (cases "hasTerm h")
  case True
  then have "h = butlast h @ [16]" by (metis hasTerm_last append_butlast_last_id)
  then show ?thesis using assms True by (intro that(2)) (auto simp: hex_key_def)
next
  case False
  then have "n < 16" if "n \<in> set h" for n
  proof (cases "h = []")
    case False
    with \<open>\<not> hasTerm h\<close> assms have "last h < 16"
      by (auto simp: hasTerm_last hex_key_def order_less_le)
    then show ?thesis
      using that assms by (metis Un_iff append_butlast_last_id empty_iff hex_key_def list.set(1) set_ConsD set_append)
  qed (use that in auto)
  then show ?thesis using False by (intro that(1)) auto
qed

lemma compact_flag:
  fixes n :: byte
  assumes "n < 16"
  shows "(push_bit 5 0 OR push_bit 4 1 OR n) div 16 = 1" "(push_bit 5 0 OR push_bit 4 1 OR n) mod 16 = n"
    "(push_bit 5 1 OR push_bit 4 1 OR n) div 16 = 3" "(push_bit 5 1 OR push_bit 4 1 OR n) mod 16 = n"
proof -
  have "push_bit 5 0 OR push_bit 4 1 OR n = push_bit 4 1 OR n"
    "push_bit 5 1 OR push_bit 4 1 OR n = push_bit 4 3 OR n"
    by (simp_all add: or.assoc [symmetric] push_bit_eq_mult)
  with byte_join [of 1 n] byte_join [of 3 n] assms
  show "(push_bit 5 0 OR push_bit 4 1 OR n) div 16 = 1" "(push_bit 5 0 OR push_bit 4 1 OR n) mod 16 = n"
    "(push_bit 5 1 OR push_bit 4 1 OR n) div 16 = 3" "(push_bit 5 1 OR push_bit 4 1 OR n) mod 16 = n"
    by simp_all
qed

lemma compact_even:
  assumes "\<forall>n \<in> set ns. n < 16" "even (length ns)"
  shows "\<exists>bs. decodeNibbles ns = Some bs \<and> nibbles_of bs = ns"
  using decodeNibbles_even [OF assms(2)] nibbles_of_decode assms(1) by blast

text \<open>
  C26. The compact encoding loses nothing: every key of a trie node, of odd or even length, with
  or without the terminator, is packed without an error and unpacked to itself.
\<close>

theorem compact_roundtrip:
  assumes "hex_key h"
  shows "\<exists>c. hexToCompact h = Some c \<and> compactToHex c = Some h"
  using assms
proof (cases rule: hex_key_cases)
  case (1 ns)
  show ?thesis
  proof (cases "even (length ns)")
    case True
    from compact_even [OF 1(1) this] obtain bs where "decodeNibbles ns = Some bs" "nibbles_of bs = ns" by blast
    then show ?thesis using 1 True by (simp add: hexToCompact_def compactToHex_def keybytesToHex_def)
  next
    case False
    then obtain n ms where ns: "ns = n # ms" "even (length ms)" by (cases ns) auto
    with compact_even [of ms] 1(1) obtain bs where "decodeNibbles ms = Some bs" "nibbles_of bs = ms" by auto
    then show ?thesis
      using 1 ns compact_flag [of n] by (simp add: hexToCompact_def compactToHex_def keybytesToHex_def)
  qed
next
  case (2 ns)
  show ?thesis
  proof (cases "even (length ns)")
    case True
    from compact_even [OF 2(1) this] obtain bs where "decodeNibbles ns = Some bs" "nibbles_of bs = ns" by blast
    then show ?thesis
      using 2 True by (simp add: hexToCompact_def compactToHex_def keybytesToHex_def push_bit_eq_mult)
  next
    case False
    then obtain n ms where ns: "ns = n # ms" "even (length ms)" by (cases ns) auto
    with compact_even [of ms] 2(1) obtain bs where "decodeNibbles ms = Some bs" "nibbles_of bs = ms" by auto
    then show ?thesis
      using 2 ns compact_flag [of n] by (simp add: hexToCompact_def compactToHex_def keybytesToHex_def)
  qed
qed

theorem compact_roundtrip_witness: "\<exists>c. hexToCompact [1, 2, 3, 16] = Some c \<and> compactToHex c = Some [1, 2, 3, 16]"
  by (rule compact_roundtrip) (simp add: hex_key_def)

end
