(* ===== verification/MptTrie.thy ===== *)
theory MptTrie
  imports MptEncoding
begin

text \<open>
  The Merkle Patricia trie of \<open>plugin/store/mpt/db/trie.go\<close>: lookup, insertion and deletion on
  nodes that may still have to be loaded from the database. The database \<open>db\<close> maps a hash to the
  node stored under it. The cache flags of a node (its generation, its cached hash, the dirty
  bit) only steer unloading and hashing and are left out.

  A trie can be followed without end only through hash nodes that lead to hash nodes, so the
  recursion carries fuel: twice the number of remaining nibbles and two is enough for every
  well-formed trie, because each node but a hash node uses up a nibble.
\<close>

section \<open>Nodes\<close>

datatype mnode =
    NilNode
  | ValueNode "byte list"
  | ShortNode "byte list" mnode
  | FullNode "mnode list"
  | HashNode "byte list"

datatype mpt_err = MissingNodeError "byte list" "byte list" | MptPanic | OutOfFuel

type_synonym mpt_db = "byte list \<Rightarrow> mnode option"

definition HashLength :: nat where "HashLength = 32"

definition BytesToHash :: "byte list \<Rightarrow> byte list" where
  "BytesToHash b = (if length b > HashLength then drop (length b - HashLength) b
     else replicate (HashLength - length b) 0 @ b)"

definition resolveHash :: "mpt_db \<Rightarrow> byte list \<Rightarrow> byte list \<Rightarrow> mpt_err + mnode" where
  "resolveHash db h prefix =
     (case db (BytesToHash h) of Some n \<Rightarrow> Inr n | None \<Rightarrow> Inl (MissingNodeError (BytesToHash h) prefix))"

fun resolve :: "mpt_db \<Rightarrow> mnode \<Rightarrow> byte list \<Rightarrow> mpt_err + mnode" where
  "resolve db (HashNode h) prefix = resolveHash db h prefix"
| "resolve db n prefix = Inr n"

section \<open>Lookup, insertion, deletion\<close>

fun tryGet :: "nat \<Rightarrow> mpt_db \<Rightarrow> mnode \<Rightarrow> byte list \<Rightarrow> nat \<Rightarrow> mpt_err + (byte list option \<times> mnode \<times> bool)" where
  "tryGet 0 db n key pos = Inl OutOfFuel"
| "tryGet (Suc f) db NilNode key pos = Inr (None, NilNode, False)"
| "tryGet (Suc f) db (ValueNode v) key pos = Inr (Some v, ValueNode v, False)"
| "tryGet (Suc f) db (ShortNode k val) key pos =
     (if length key - pos < length k \<or> k \<noteq> take (length k) (drop pos key)
      then Inr (None, ShortNode k val, False)
      else case tryGet f db val key (pos + length k) of
        Inl e \<Rightarrow> Inl e
      | Inr (value, newnode, didResolve) \<Rightarrow>
          Inr (value, if didResolve then ShortNode k newnode else ShortNode k val, didResolve))"
| "tryGet (Suc f) db (FullNode cs) key pos =
     (if pos \<ge> length key \<or> unat (key ! pos) \<ge> length cs then Inl MptPanic
      else case tryGet f db (cs ! unat (key ! pos)) key (pos + 1) of
        Inl e \<Rightarrow> Inl e
      | Inr (value, newnode, didResolve) \<Rightarrow>
          Inr (value, if didResolve then FullNode (cs[unat (key ! pos) := newnode]) else FullNode cs, didResolve))"
| "tryGet (Suc f) db (HashNode h) key pos =
     (case resolveHash db h (take pos key) of
        Inl e \<Rightarrow> Inl e
      | Inr child \<Rightarrow>
          (case tryGet f db child key pos of
             Inl e \<Rightarrow> Inl e
           | Inr (value, newnode, _) \<Rightarrow> Inr (value, newnode, True)))"

fun insert_node :: "nat \<Rightarrow> mpt_db \<Rightarrow> mnode \<Rightarrow> byte list \<Rightarrow> byte list \<Rightarrow> mnode \<Rightarrow> mpt_err + (bool \<times> mnode)" where
  "insert_node 0 db n prefix key value = Inl OutOfFuel"
| "insert_node (Suc f) db n prefix [] value =
     (case n of
        ValueNode v \<Rightarrow> (case value of ValueNode w \<Rightarrow> Inr (v \<noteq> w, value) | _ \<Rightarrow> Inl MptPanic)
      | _ \<Rightarrow> Inr (True, value))"
| "insert_node (Suc f) db (ShortNode k val) prefix (x # xs) value =
     (let key = x # xs; matchlen = prefixLen key k in
      if matchlen = length k then
        (case insert_node f db val (prefix @ take matchlen key) (drop matchlen key) value of
           Inl e \<Rightarrow> Inl e
         | Inr (dirty, nn) \<Rightarrow> if \<not> dirty then Inr (False, ShortNode k val) else Inr (True, ShortNode k nn))
      else if matchlen \<ge> length key \<or> unat (k ! matchlen) \<ge> 17 \<or> unat (key ! matchlen) \<ge> 17 then Inl MptPanic
      else
        (case insert_node f db NilNode (prefix @ take (matchlen + 1) k) (drop (matchlen + 1) k) val of
           Inl e \<Rightarrow> Inl e
         | Inr (_, c1) \<Rightarrow>
             (case insert_node f db NilNode (prefix @ take (matchlen + 1) key) (drop (matchlen + 1) key) value of
                Inl e \<Rightarrow> Inl e
              | Inr (_, c2) \<Rightarrow>
                  let branch = FullNode ((replicate 17 NilNode)[unat (k ! matchlen) := c1, unat (key ! matchlen) := c2])
                  in if matchlen = 0 then Inr (True, branch)
                     else Inr (True, ShortNode (take matchlen key) branch))))"
| "insert_node (Suc f) db (FullNode cs) prefix (x # xs) value =
     (if unat x \<ge> length cs then Inl MptPanic
      else case insert_node f db (cs ! unat x) (prefix @ [x]) xs value of
        Inl e \<Rightarrow> Inl e
      | Inr (dirty, nn) \<Rightarrow>
          if \<not> dirty then Inr (False, FullNode cs) else Inr (True, FullNode (cs[unat x := nn])))"
| "insert_node (Suc f) db NilNode prefix (x # xs) value = Inr (True, ShortNode (x # xs) value)"
| "insert_node (Suc f) db (HashNode h) prefix (x # xs) value =
     (case resolveHash db h prefix of
        Inl e \<Rightarrow> Inl e
      | Inr rn \<Rightarrow>
          (case insert_node f db rn prefix (x # xs) value of
             Inl e \<Rightarrow> Inl e
           | Inr (dirty, nn) \<Rightarrow> if \<not> dirty then Inr (False, rn) else Inr (True, nn)))"
| "insert_node (Suc f) db (ValueNode v) prefix (x # xs) value = Inl MptPanic"

text \<open>
  The loop over the children: the index of the only child that is left, -2 for two or more,
  -1 for none.
\<close>

fun single_child :: "nat \<Rightarrow> int \<Rightarrow> mnode list \<Rightarrow> int" where
  "single_child i pos [] = pos"
| "single_child i pos (cld # cs) =
     (if cld \<noteq> NilNode then (if pos = -1 then single_child (Suc i) (int i) cs else -2)
      else single_child (Suc i) pos cs)"

definition reduce_full :: "mpt_db \<Rightarrow> mnode list \<Rightarrow> byte list \<Rightarrow> mpt_err + (bool \<times> mnode)" where
  "reduce_full db cs prefix =
     (let pos = single_child 0 (-1) cs in
      if pos \<ge> 0 then
        (if pos \<noteq> 16 then
           (case resolve db (cs ! nat pos) prefix of
              Inl e \<Rightarrow> Inl e
            | Inr cnode \<Rightarrow>
                (case cnode of
                   ShortNode k' val' \<Rightarrow> Inr (True, ShortNode (of_int pos # k') val')
                 | _ \<Rightarrow> Inr (True, ShortNode [of_int pos] (cs ! nat pos))))
         else Inr (True, ShortNode [of_int pos] (cs ! nat pos)))
      else Inr (True, FullNode cs))"

fun delete_node :: "nat \<Rightarrow> mpt_db \<Rightarrow> mnode \<Rightarrow> byte list \<Rightarrow> byte list \<Rightarrow> mpt_err + (bool \<times> mnode)" where
  "delete_node 0 db n prefix key = Inl OutOfFuel"
| "delete_node (Suc f) db (ShortNode k val) prefix key =
     (let matchlen = prefixLen key k in
      if matchlen < length k then Inr (False, ShortNode k val)
      else if matchlen = length key then Inr (True, NilNode)
      else case delete_node f db val (prefix @ take (length k) key) (drop (length k) key) of
        Inl e \<Rightarrow> Inl e
      | Inr (dirty, child) \<Rightarrow>
          if \<not> dirty then Inr (False, ShortNode k val)
          else (case child of
            ShortNode k' val' \<Rightarrow> Inr (True, ShortNode (k @ k') val')
          | _ \<Rightarrow> Inr (True, ShortNode k child)))"
| "delete_node (Suc f) db (FullNode cs) prefix key =
     (if key = [] \<or> unat (hd key) \<ge> length cs then Inl MptPanic
      else case delete_node f db (cs ! unat (hd key)) (prefix @ [hd key]) (tl key) of
        Inl e \<Rightarrow> Inl e
      | Inr (dirty, nn) \<Rightarrow>
          if \<not> dirty then Inr (False, FullNode cs)
          else reduce_full db (cs[unat (hd key) := nn]) prefix)"
| "delete_node (Suc f) db (ValueNode v) prefix key = Inr (True, NilNode)"
| "delete_node (Suc f) db NilNode prefix key = Inr (False, NilNode)"
| "delete_node (Suc f) db (HashNode h) prefix key =
     (case resolveHash db h prefix of
        Inl e \<Rightarrow> Inl e
      | Inr rn \<Rightarrow>
          (case delete_node f db rn prefix key of
             Inl e \<Rightarrow> Inl e
           | Inr (dirty, nn) \<Rightarrow> if \<not> dirty then Inr (False, rn) else Inr (True, nn)))"

section \<open>The interface\<close>

definition mpt_fuel :: "byte list \<Rightarrow> nat" where
  "mpt_fuel k = 2 * length k + 2"

text \<open>The state of a trie is its root node; a failed operation leaves it as it is.\<close>

definition TryGet :: "mpt_db \<Rightarrow> byte list \<Rightarrow> mnode \<Rightarrow> (mpt_err + byte list option) \<times> mnode" where
  "TryGet db key root =
     (let k = keybytesToHex key in
      case tryGet (mpt_fuel k) db root k 0 of
        Inl e \<Rightarrow> (Inl e, root)
      | Inr (value, newroot, didResolve) \<Rightarrow> (Inr value, if didResolve then newroot else root))"

definition TryDelete :: "mpt_db \<Rightarrow> byte list \<Rightarrow> mnode \<Rightarrow> mpt_err option \<times> mnode" where
  "TryDelete db key root =
     (let k = keybytesToHex key in
      case delete_node (mpt_fuel k) db root [] k of
        Inl e \<Rightarrow> (Some e, root)
      | Inr (_, n) \<Rightarrow> (None, n))"

definition TryUpdate :: "mpt_db \<Rightarrow> byte list \<Rightarrow> byte list \<Rightarrow> mnode \<Rightarrow> mpt_err option \<times> mnode" where
  "TryUpdate db key value root =
     (let k = keybytesToHex key in
      if length value \<noteq> 0 then
        (case insert_node (mpt_fuel k) db root [] k (ValueNode value) of
           Inl e \<Rightarrow> (Some e, root)
         | Inr (_, n) \<Rightarrow> (None, n))
      else
        (case delete_node (mpt_fuel k) db root [] k of
           Inl e \<Rightarrow> (Some e, root)
         | Inr (_, n) \<Rightarrow> (None, n)))"

section \<open>Contents and well-formed tries\<close>

text \<open>
  \<open>has db n k v\<close>: below the node \<open>n\<close>, loading what is needed from \<open>db\<close>, the nibbles \<open>k\<close> lead to
  the value \<open>v\<close>.
\<close>

inductive has :: "mpt_db \<Rightarrow> mnode \<Rightarrow> byte list \<Rightarrow> byte list \<Rightarrow> bool" for db where
  has_value: "has db (ValueNode v) [] v"
| has_short: "has db n k v \<Longrightarrow> has db (ShortNode p n) (p @ k) v"
| has_full: "unat i < length cs \<Longrightarrow> has db (cs ! unat i) k v \<Longrightarrow> has db (FullNode cs) (i # k) v"
| has_hash: "resolveHash db h [] = Inr n \<Longrightarrow> has db n k v \<Longrightarrow> has db (HashNode h) k v"

inductive_simps has_value_iff [simp]: "has db (ValueNode v) k w"
inductive_simps has_short_iff: "has db (ShortNode p n) k w"
inductive_simps has_full_iff: "has db (FullNode cs) k w"
inductive_simps has_hash_iff: "has db (HashNode h) k w"
inductive_simps has_nil_iff [simp]: "has db NilNode k w"

text \<open>The keys of the interface: nibbles and one terminator at the end.\<close>

definition full_key :: "byte list \<Rightarrow> bool" where
  "full_key k \<longleftrightarrow> (\<exists>ns. (\<forall>n \<in> set ns. n < 16) \<and> k = ns @ [16])"

definition inner_key :: "byte list \<Rightarrow> bool" where
  "inner_key k \<longleftrightarrow> k \<noteq> [] \<and> (\<forall>n \<in> set k. n < 16)"

definition is_full :: "mpt_db \<Rightarrow> mnode \<Rightarrow> bool" where
  "is_full db n \<longleftrightarrow> (\<exists>cs. n = FullNode cs) \<or> (\<exists>h cs. n = HashNode h \<and> resolveHash db h [] = Inr (FullNode cs))"

definition is_hash :: "mnode \<Rightarrow> bool" where
  "is_hash n \<longleftrightarrow> (\<exists>h. n = HashNode h)"

definition live :: "mnode list \<Rightarrow> nat set" where
  "live cs = {i. i < length cs \<and> cs ! i \<noteq> NilNode}"

text \<open>
  The minimal form: a short node ends in a value or leads to a full node, a full node has at
  least two children, and a hash node stands for a short or a full node of the database.
\<close>

inductive trie :: "mpt_db \<Rightarrow> mnode \<Rightarrow> bool" for db where
  trie_leaf: "full_key p \<Longrightarrow> v \<noteq> [] \<Longrightarrow> trie db (ShortNode p (ValueNode v))"
| trie_ext: "inner_key p \<Longrightarrow> trie db n \<Longrightarrow> is_full db n \<Longrightarrow> trie db (ShortNode p n)"
| trie_full: "length cs = 17 \<Longrightarrow> (\<And>i. i < 16 \<Longrightarrow> cs ! i \<noteq> NilNode \<Longrightarrow> trie db (cs ! i)) \<Longrightarrow>
    (cs ! 16 \<noteq> NilNode \<Longrightarrow> \<exists>v. cs ! 16 = ValueNode v \<and> v \<noteq> []) \<Longrightarrow>
    2 \<le> card (live cs) \<Longrightarrow> trie db (FullNode cs)"
| trie_hash: "resolveHash db h [] = Inr n \<Longrightarrow> trie db n \<Longrightarrow> \<not> is_hash n \<Longrightarrow> trie db (HashNode h)"

inductive_cases trie_shortE: "trie db (ShortNode p n)"
inductive_cases trie_fullE: "trie db (FullNode cs)"
inductive_cases trie_hashE: "trie db (HashNode h)"
inductive_simps trie_value_iff [simp]: "trie db (ValueNode v)"
inductive_simps trie_nil_iff [simp]: "trie db NilNode"

lemma resolveHash_prefix: "resolveHash db h p = Inr n \<longleftrightarrow> resolveHash db h [] = Inr n"
  by (auto simp: resolveHash_def split: option.splits)

lemma full_key_simps:
  "full_key (x # k) \<longleftrightarrow> (if k = [] then x = 16 else x < 16 \<and> full_key k)"
  "\<not> full_key []"
proof -
  show "\<not> full_key []" by (simp add: full_key_def)
  show "full_key (x # k) \<longleftrightarrow> (if k = [] then x = 16 else x < 16 \<and> full_key k)"
  proof (cases "k = []")
    case True
    then show ?thesis by (auto simp: full_key_def)
  next
    case False
    have "(\<exists>ns. (\<forall>n\<in>set ns. n < 16) \<and> x # k = ns @ [16]) \<longleftrightarrow>
        x < 16 \<and> (\<exists>ns. (\<forall>n\<in>set ns. n < 16) \<and> k = ns @ [16])"
      using False by (auto simp: Cons_eq_append_conv)
    then show ?thesis using False by (simp add: full_key_def)
  qed
qed

lemma full_key_append_nibbles: "\<forall>n \<in> set p. n < 16 \<Longrightarrow> full_key (p @ k) \<longleftrightarrow> full_key k"
  by (induction p) (auto simp: full_key_simps)

lemma full_key_append: "inner_key p \<Longrightarrow> full_key (p @ k) \<longleftrightarrow> full_key k"
  by (simp add: inner_key_def full_key_append_nibbles)

lemma full_key_nonempty: "full_key k \<Longrightarrow> k \<noteq> []"
  by (auto simp: full_key_def)

lemma full_key_no_ext: "full_key k \<Longrightarrow> full_key (k @ j) \<Longrightarrow> j = []"
  by (induction k) (auto simp: full_key_simps split: if_splits)

lemma full_key_hex [simp]: "full_key (keybytesToHex key)"
  using nibbles_of_lt by (auto simp: full_key_def keybytesToHex_def)

lemma keybytesToHex_inj [simp]: "keybytesToHex a = keybytesToHex b \<longleftrightarrow> a = b"
  by (metis decode_nibbles_of keybytesToHex_def option.inject append_same_eq)

lemma unat_16 [simp]: "unat (16 :: byte) = 16"
  by simp

lemma unat_eq_byte: "unat (a :: byte) = unat b \<longleftrightarrow> a = b"
  by (simp add: word_unat_eq_iff)

lemma nibble_unat: "(x :: byte) < 16 \<longleftrightarrow> unat x < 16"
  by (simp add: word_less_nat_alt)

lemma full_key_hd: "full_key (x # k) \<Longrightarrow> unat x < 17"
  by (auto simp: full_key_simps nibble_unat split: if_splits)

text \<open>All keys below a well-formed node are complete keys.\<close>

lemma trie_keys: "trie db n \<Longrightarrow> has db n k v \<Longrightarrow> full_key k"
proof (induction arbitrary: k v rule: trie.induct)
  case (trie_leaf p v')
  then show ?case by (auto simp: has_short_iff)
next
  case (trie_ext p n)
  then show ?case by (auto simp: has_short_iff full_key_append)
next
  case (trie_full cs)
  from trie_full.prems obtain i k' where k: "k = i # k'" "unat i < 17" "has db (cs ! unat i) k' v"
    using trie_full.hyps(1) by (auto simp: has_full_iff)
  show ?case
  proof (cases "unat i < 16")
    case True
    moreover have "cs ! unat i \<noteq> NilNode" using k(3) by (metis has_nil_iff)
    ultimately show ?thesis
      using k trie_full.IH [of "unat i" k' v] by (auto simp: full_key_simps nibble_unat)
  next
    case False
    then have i: "unat i = 16" using k(2) by simp
    then have "i = 16" by (metis unat_16 word_unat_eq_iff)
    moreover have "k' = []" using k(3) trie_full.hyps(3) i by fastforce
    ultimately show ?thesis using k(1) by (simp add: full_key_simps)
  qed
next
  case (trie_hash h n)
  then show ?case by (auto simp: has_hash_iff)
qed

section \<open>Lookup\<close>

definition fuel_ok :: "nat \<Rightarrow> mnode \<Rightarrow> nat \<Rightarrow> bool" where
  "fuel_ok f n l \<longleftrightarrow> 2 * l + 1 + (if is_hash n then 1 else 0) \<le> f"

lemma fuel_ok_Suc: "fuel_ok f n l \<Longrightarrow> \<exists>f'. f = Suc f'"
  by (cases f) (auto simp: fuel_ok_def)

lemma fuel_ok_step: "fuel_ok (Suc f) n l \<Longrightarrow> \<not> is_hash n \<Longrightarrow> l' < l \<Longrightarrow> fuel_ok f m l'"
  by (auto simp: fuel_ok_def)

lemma fuel_ok_load: "fuel_ok (Suc f) (HashNode h) l \<Longrightarrow> \<not> is_hash n \<Longrightarrow> fuel_ok f n l"
  by (auto simp: fuel_ok_def is_hash_def)

lemma fuel_ok_mpt: "fuel_ok (mpt_fuel k) n (length k)"
  by (simp add: fuel_ok_def mpt_fuel_def)

lemma fuel_ok_pos: "fuel_ok (Suc f) n l \<Longrightarrow> \<not> is_hash n \<Longrightarrow> 0 < l \<Longrightarrow> \<exists>g. f = Suc g"
  by (cases f) (auto simp: fuel_ok_def)

lemma not_hash [simp]: "\<not> is_hash NilNode" "\<not> is_hash (ValueNode v)" "\<not> is_hash (ShortNode p n)"
  "\<not> is_hash (FullNode cs)" "is_hash (HashNode h)"
  by (simp_all add: is_hash_def)

lemma is_full_simps [simp]: "\<not> is_full db NilNode" "\<not> is_full db (ValueNode v)" "\<not> is_full db (ShortNode p n)"
  "is_full db (FullNode cs)"
  by (simp_all add: is_full_def)

text \<open>
  What a lookup returns: the value, a node with the same contents in which the nodes on the path
  are loaded, and whether anything was loaded.
\<close>

definition got :: "mpt_db \<Rightarrow> mnode \<Rightarrow> byte list \<Rightarrow> mpt_err + (byte list option \<times> mnode \<times> bool) \<Rightarrow> bool" where
  "got db n k res \<longleftrightarrow> (\<exists>vo nn d. res = Inr (vo, nn, d) \<and> (\<forall>w. vo = Some w \<longleftrightarrow> has db n k w) \<and>
     trie db nn \<and> (\<forall>j w. has db nn j w \<longleftrightarrow> has db n j w) \<and> is_full db nn = is_full db n \<and> (\<not> d \<longrightarrow> nn = n))"

lemma drop_cases: "drop pos key = x # xs \<Longrightarrow> pos < length key \<and> key ! pos = x \<and> drop (pos + 1) key = xs"
  by (metis Suc_eq_plus1 drop_eq_Nil Cons_nth_drop_Suc leI list.distinct(1) list.inject)

lemma short_match:
  "\<not> (length key - pos < length p \<or> p \<noteq> take (length p) (drop pos key)) \<longleftrightarrow>
     drop pos key = p @ drop (pos + length p) key" (is "?L \<longleftrightarrow> ?R")
proof
  assume ?L
  then show ?R by (metis add.commute append_take_drop_id drop_drop)
next
  assume ?R
  then show ?L by (metis append_eq_conv_conj length_append length_drop not_add_less1)
qed

lemma trie_full_child:
  assumes "trie db (FullNode cs)" "i < 16" "trie db nn"
  shows "trie db (FullNode (cs[i := nn])) \<or> cs ! i = NilNode"
proof (cases "cs ! i = NilNode")
  case False
  from assms(1) have c: "length cs = 17" "\<And>i. i < 16 \<Longrightarrow> cs ! i \<noteq> NilNode \<Longrightarrow> trie db (cs ! i)"
      "cs ! 16 \<noteq> NilNode \<Longrightarrow> \<exists>v. cs ! 16 = ValueNode v \<and> v \<noteq> []" "2 \<le> card (live cs)"
    by (auto elim: trie_fullE)
  have "nn \<noteq> NilNode" using assms(3) by auto
  then have "live (cs[i := nn]) = live cs"
    using c(1) False assms(2) by (auto simp: live_def nth_list_update split: if_splits)
  then have "trie db (FullNode (cs[i := nn]))"
    using c assms(2,3) by (intro trie_full) (auto simp: nth_list_update)
  then show ?thesis by simp
qed simp

lemma tryGet_correct:
  assumes "trie db n" "full_key (drop pos key)" "fuel_ok f n (length key - pos)"
  shows "got db n (drop pos key) (tryGet f db n key pos)"
  using assms
proof (induction arbitrary: pos f rule: trie.induct)
  case (trie_leaf p v)
  obtain g where f: "f = Suc g" using fuel_ok_Suc [OF trie_leaf.prems(2)] by blast
  have t: "trie db (ShortNode p (ValueNode v))" using trie_leaf.hyps by (rule trie.trie_leaf)
  show ?case
  proof (cases "drop pos key = p @ drop (pos + length p) key")
    case True
    then have "drop (pos + length p) key = []"
      using full_key_no_ext trie_leaf by metis
    moreover have "0 < length key - pos" using full_key_nonempty [OF trie_leaf.prems(1)] by simp
    then obtain g' where "g = Suc g'" using fuel_ok_pos trie_leaf.prems(2) f by fastforce
    ultimately show ?thesis
      using True short_match [of key pos p] t by (auto simp: got_def f has_short_iff)
  next
    case False
    then have "\<not> has db (ShortNode p (ValueNode v)) (drop pos key) w" for w
      by (auto simp: has_short_iff)
    then show ?thesis using False short_match [of key pos p] t by (auto simp: got_def f)
  qed
next
  case (trie_ext p n)
  obtain g where f: "f = Suc g" using fuel_ok_Suc [OF trie_ext.prems(2)] by blast
  have t: "trie db (ShortNode p n)" using trie_ext.hyps by (auto intro: trie.trie_ext)
  have p: "0 < length p" using trie_ext.hyps(1) by (simp add: inner_key_def)
  show ?case
  proof (cases "drop pos key = p @ drop (pos + length p) key")
    case True
    have "full_key (drop (pos + length p) key)"
      using trie_ext True full_key_append by metis
    moreover have "pos < length key" using full_key_nonempty [OF trie_ext.prems(1)] by simp
    then have "fuel_ok g n (length key - (pos + length p))"
      using p by (intro fuel_ok_step [OF trie_ext.prems(2) [unfolded f]]) (simp, linarith)
    ultimately obtain vo nn d where r: "tryGet g db n key (pos + length p) = Inr (vo, nn, d)"
        "\<forall>w. vo = Some w \<longleftrightarrow> has db n (drop (pos + length p) key) w" "trie db nn"
        "\<forall>j w. has db nn j w \<longleftrightarrow> has db n j w" "is_full db nn = is_full db n" "\<not> d \<longrightarrow> nn = n"
      using trie_ext.IH unfolding got_def by blast
    have "has db (ShortNode p n) (drop pos key) w \<longleftrightarrow> has db n (drop (pos + length p) key) w" for w
      by (subst True) (simp add: has_short_iff)
    moreover have "trie db (ShortNode p nn)" using r trie_ext.hyps by (auto intro: trie.trie_ext)
    ultimately show ?thesis
      using True short_match [of key pos p] r t by (auto simp: got_def f has_short_iff)
  next
    case False
    then have "\<not> has db (ShortNode p n) (drop pos key) w" for w
      by (auto simp: has_short_iff) (metis add.commute append_eq_conv_conj drop_drop)
    then show ?thesis using False short_match [of key pos p] t by (auto simp: got_def f)
  qed
next
  case (trie_full cs)
  obtain g where f: "f = Suc g" using fuel_ok_Suc [OF trie_full.prems(2)] by blast
  have t: "trie db (FullNode cs)" using trie_full.hyps by (auto intro: trie.trie_full)
  obtain x xs where d: "drop pos key = x # xs" using full_key_nonempty [OF trie_full.prems(1)] by (cases "drop pos key") auto
  note dx = drop_cases [OF d] and ux = full_key_hd [OF trie_full.prems(1) [unfolded d]]
  have fuel: "fuel_ok g (cs ! unat x) (length key - (pos + 1))"
    using dx by (intro fuel_ok_step [OF trie_full.prems(2) [unfolded f]]) auto
  then obtain g' where g: "g = Suc g'" using fuel_ok_Suc by blast
  have h: "has db (FullNode cs) (drop pos key) w \<longleftrightarrow> has db (cs ! unat x) xs w" for w
    using ux trie_full.hyps(1) by (simp add: d has_full_iff)
  consider "cs ! unat x = NilNode" | "unat x < 16" "cs ! unat x \<noteq> NilNode"
    | v where "unat x = 16" "cs ! unat x = ValueNode v" "xs = []"
    using ux trie_full.hyps(3) trie_full.prems(1)
    by (fastforce simp: d full_key_simps nibble_unat split: if_splits)
  then show ?case
  proof cases
    case 1
    then show ?thesis using dx ux h t trie_full.hyps(1) by (auto simp: got_def f g)
  next
    case 2
    have "full_key (drop (pos + 1) key)"
      using trie_full.prems(1) 2(1) dx by (auto simp: d full_key_simps nibble_unat split: if_splits)
    from trie_full.IH [OF 2 this fuel] obtain vo nn b where
        r: "tryGet g db (cs ! unat x) key (pos + 1) = Inr (vo, nn, b)"
        "\<forall>w. vo = Some w \<longleftrightarrow> has db (cs ! unat x) xs w" "trie db nn"
        "\<forall>j w. has db nn j w \<longleftrightarrow> has db (cs ! unat x) j w" "\<not> b \<longrightarrow> nn = cs ! unat x"
      using dx unfolding got_def by blast
    have "has db (FullNode (cs[unat x := nn])) j w \<longleftrightarrow> has db (FullNode cs) j w" for j w
      using r(4) ux trie_full.hyps(1) by (auto simp: has_full_iff nth_list_update split: if_splits)
    moreover have "trie db (FullNode (cs[unat x := nn]))"
      using trie_full_child [OF t 2(1) r(3)] 2(2) by blast
    ultimately show ?thesis using dx ux h t r trie_full.hyps(1) by (auto simp: got_def f)
  next
    case 3
    then show ?thesis using dx ux h t trie_full.hyps(1) by (auto simp: got_def f g)
  qed
next
  case (trie_hash h n)
  obtain g where f: "f = Suc g" using fuel_ok_Suc [OF trie_hash.prems(2)] by blast
  have "fuel_ok g n (length key - pos)"
    using fuel_ok_load [OF trie_hash.prems(2) [unfolded f] trie_hash.hyps(3)] .
  from trie_hash.IH [OF trie_hash.prems(1) this] obtain vo nn b where
      r: "tryGet g db n key pos = Inr (vo, nn, b)" "\<forall>w. vo = Some w \<longleftrightarrow> has db n (drop pos key) w"
      "trie db nn" "\<forall>j w. has db nn j w \<longleftrightarrow> has db n j w" "is_full db nn = is_full db n"
    unfolding got_def by blast
  have "is_full db (HashNode h) = is_full db n"
    using trie_hash.hyps(1,3) by (cases n) (auto simp: is_full_def)
  then show ?case
    using r trie_hash.hyps(1) resolveHash_prefix [of db h "take pos key" n]
    by (auto simp: got_def f has_hash_iff)
qed

end
