(* ===== verification/MptInsert.thy ===== *)
theory MptInsert
  imports MptTrie
begin

text \<open>
  Correctness of \<open>insert\<close> of \<open>plugin/store/mpt/db/trie.go\<close>: on a well-formed trie it cannot fail,
  keeps the minimal form and changes exactly one entry.
\<close>

section \<open>Insertion\<close>

text \<open>What may stand in the slot \<open>x\<close> of a full node.\<close>

definition slot :: "mpt_db \<Rightarrow> byte \<Rightarrow> mnode \<Rightarrow> bool" where
  "slot db x c \<longleftrightarrow> (if unat x < 16 then trie db c else unat x = 16 \<and> (\<exists>v. c = ValueNode v \<and> v \<noteq> []))"

lemma trie_fullD:
  assumes "trie db (FullNode cs)"
  shows "length cs = 17" "2 \<le> card (live cs)" "unat x < 17 \<Longrightarrow> cs ! unat x \<noteq> NilNode \<Longrightarrow> slot db x (cs ! unat x)"
proof -
  from assms have c: "length cs = 17" "\<And>i. i < 16 \<Longrightarrow> cs ! i \<noteq> NilNode \<Longrightarrow> trie db (cs ! i)"
      "cs ! 16 \<noteq> NilNode \<Longrightarrow> \<exists>v. cs ! 16 = ValueNode v \<and> v \<noteq> []" "2 \<le> card (live cs)"
    by (auto elim: trie_fullE)
  then show "length cs = 17" "2 \<le> card (live cs)" by simp_all
  assume "unat x < 17" "cs ! unat x \<noteq> NilNode"
  moreover from this have "unat x < 16 \<or> unat x = 16" by linarith
  ultimately show "slot db x (cs ! unat x)" using c(2,3) by (auto simp: slot_def)
qed

lemma trie_fullI:
  assumes "length cs = 17" "2 \<le> card (live cs)"
    and "\<And>x. unat x < 17 \<Longrightarrow> cs ! unat x \<noteq> NilNode \<Longrightarrow> slot db x (cs ! unat x)"
  shows "trie db (FullNode cs)"
proof (rule trie_full)
  have "trie db (cs ! i)" if "i < 16" "cs ! i \<noteq> NilNode" for i
  proof -
    have "unat (of_nat i :: byte) = i" using that(1) by (simp add: unat_of_nat)
    with assms(3) [of "of_nat i"] that show ?thesis by (simp add: slot_def)
  qed
  then show "\<And>i. i < 16 \<Longrightarrow> cs ! i \<noteq> NilNode \<Longrightarrow> trie db (cs ! i)" .
  show "cs ! 16 \<noteq> NilNode \<Longrightarrow> \<exists>v. cs ! 16 = ValueNode v \<and> v \<noteq> []"
    using assms(3) [of 16] by (simp add: slot_def)
qed (use assms in simp_all)

lemma slot_not_nil: "slot db x c \<Longrightarrow> c \<noteq> NilNode"
  by (auto simp: slot_def split: if_splits)

lemma slot_lt: "slot db x c \<Longrightarrow> unat x < 17"
  by (auto simp: slot_def split: if_splits)

lemma live_finite [simp]: "finite (live cs)"
  by (simp add: live_def)

lemma trie_full_upd:
  assumes "trie db (FullNode cs)" "slot db x c"
  shows "trie db (FullNode (cs[unat x := c]))"
proof (rule trie_fullI)
  note t = trie_fullD [OF assms(1)]
  show "length (cs[unat x := c]) = 17" using t(1) by simp
  have "cs[unat x := c] ! i \<noteq> NilNode" if "i < length cs" "cs ! i \<noteq> NilNode" for i
    using that slot_not_nil [OF assms(2)] by (cases "unat x = i") simp_all
  then have "live cs \<subseteq> live (cs[unat x := c])" by (auto simp: live_def)
  then show "2 \<le> card (live (cs[unat x := c]))"
    using t(2) card_mono [of "live (cs[unat x := c])" "live cs"] by simp
  show "slot db y (cs[unat x := c] ! unat y)" if "unat y < 17" "cs[unat x := c] ! unat y \<noteq> NilNode" for y
    using that t(1,3) assms(2) slot_lt [OF assms(2)]
    by (auto simp: nth_list_update unat_eq_byte split: if_splits)
qed

lemma has_full_upd:
  assumes "unat x < length cs"
  shows "has db (FullNode (cs[unat x := c])) k w \<longleftrightarrow>
    (if \<exists>j. k = x # j then has db c (tl k) w else has db (FullNode cs) k w)"
  using assms by (cases k) (auto simp: has_full_iff nth_list_update unat_eq_byte)

text \<open>A full node with two children.\<close>

definition two_way :: "byte \<Rightarrow> mnode \<Rightarrow> byte \<Rightarrow> mnode \<Rightarrow> mnode" where
  "two_way y c1 x c2 = FullNode ((replicate 17 NilNode)[unat y := c1, unat x := c2])"

lemma trie_two_way:
  assumes "x \<noteq> y" "slot db y c1" "slot db x c2"
  shows "trie db (two_way y c1 x c2)"
    and "has db (two_way y c1 x c2) k w \<longleftrightarrow>
      (\<exists>j. k = y # j \<and> has db c1 j w) \<or> (\<exists>j. k = x # j \<and> has db c2 j w)"
proof -
  let ?cs = "(replicate 17 NilNode)[unat y := c1, unat x := c2]"
  have lt: "unat y < 17" "unat x < 17" using assms slot_lt by auto
  have "live ?cs = {unat x, unat y}"
    using lt slot_not_nil [OF assms(2)] slot_not_nil [OF assms(3)]
    by (auto simp: live_def nth_list_update split: if_splits)
  then have "2 \<le> card (live ?cs)" using assms(1) by (simp add: card_insert_if unat_eq_byte)
  then show "trie db (two_way y c1 x c2)"
    unfolding two_way_def using assms lt
    by (intro trie_fullI) (auto simp: nth_list_update unat_eq_byte split: if_splits)
  show "has db (two_way y c1 x c2) k w \<longleftrightarrow>
      (\<exists>j. k = y # j \<and> has db c1 j w) \<or> (\<exists>j. k = x # j \<and> has db c2 j w)"
    unfolding two_way_def using lt assms(1) by (auto simp: has_full_iff nth_list_update unat_eq_byte split: if_splits)
qed

text \<open>The rest of a split key: a child of the new full node.\<close>

definition rest_node :: "byte list \<Rightarrow> mnode \<Rightarrow> mnode" where
  "rest_node k n = (if k = [] then n else ShortNode k n)"

lemma has_rest_node: "has db (rest_node k n) j w \<longleftrightarrow> (\<exists>i. j = k @ i \<and> has db n i w)"
  by (auto simp: rest_node_def has_short_iff)

lemma insert_nil: "insert_node (Suc f) db NilNode prefix k n = Inr (True, rest_node k n)"
  by (cases k) (auto simp: rest_node_def)

lemma slot_leaf: "full_key (x # k) \<Longrightarrow> v \<noteq> [] \<Longrightarrow> slot db x (rest_node k (ValueNode v))"
  by (auto simp: slot_def rest_node_def full_key_simps nibble_unat intro: trie_leaf split: if_splits)

lemma slot_ext: "inner_key (q @ y # k) \<Longrightarrow> trie db n \<Longrightarrow> is_full db n \<Longrightarrow> slot db y (rest_node k n)"
  by (auto simp: slot_def rest_node_def inner_key_def nibble_unat intro: trie_ext)

lemma full_key_prefix: "full_key (q @ x # k) \<Longrightarrow> n \<in> set q \<Longrightarrow> n < 16"
  by (induction q) (auto simp: full_key_simps split: if_splits)

lemma full_key_suffix: "full_key (q @ x # k) \<Longrightarrow> full_key (x # k)"
  using full_key_append_nibbles [of q] full_key_prefix by blast

lemma has_fun: "has db n k v \<Longrightarrow> has db n k w \<Longrightarrow> v = w"
  by (induction arbitrary: w rule: has.induct) (auto simp: has_short_iff has_full_iff has_hash_iff)

text \<open>What an insertion returns: a well-formed node with exactly one entry changed.\<close>

definition put_ok :: "mpt_db \<Rightarrow> mnode \<Rightarrow> byte list \<Rightarrow> byte list \<Rightarrow> mpt_err + (bool \<times> mnode) \<Rightarrow> bool" where
  "put_ok db n key v res \<longleftrightarrow> (\<exists>d nn. res = Inr (d, nn) \<and> trie db nn \<and>
     (\<forall>k w. has db nn k w \<longleftrightarrow> (if k = key then w = v else has db n k w)) \<and>
     (is_full db n \<longrightarrow> is_full db nn) \<and> (\<not> d \<longrightarrow> has db n key v))"

lemma insert_branch:
  assumes "key = q @ x # a" "k = q @ y # b" "x \<noteq> y" "prefixLen key k = length q" "unat x < 17" "unat y < 17"
  shows "insert_node (Suc (Suc f)) db (ShortNode k val) prefix key value =
    Inr (True, rest_node q (two_way y (rest_node b val) x (rest_node a value)))"
proof -
  have "key \<noteq> []" using assms(1) by simp
  then obtain z zs where z: "key = z # zs" by (meson list.exhaust)
  have "length q < length key" "key ! length q = x" "k ! length q = y" "length q \<noteq> length k"
    "drop (length q + 1) key = a" "drop (length q + 1) k = b" "take (length q) key = q"
    using assms(1,2) by auto
  then show ?thesis
    using assms(4-6) insert_nil [of f db] unfolding z
    by (simp add: Let_def two_way_def rest_node_def [of q])
qed

text \<open>Both kinds of short node branch in the same way.\<close>

lemma put_branch:
  assumes key: "full_key key" "v \<noteq> []" and k: "key = q @ x # a" "k = q @ y # b" "x \<noteq> y"
    and m: "prefixLen key k = length q" and y: "slot db y (rest_node b val)" and q: "\<forall>n \<in> set q. n < 16"
  shows "put_ok db (ShortNode k val) key v (insert_node (Suc (Suc f)) db (ShortNode k val) prefix key (ValueNode v))"
proof -
  let ?t = "two_way y (rest_node b val) x (rest_node a (ValueNode v))"
  have x: "slot db x (rest_node a (ValueNode v))"
    using slot_leaf [OF full_key_suffix key(2)] key(1) k(1) by blast
  note t = trie_two_way [OF k(3) y x]
  have full: "is_full db ?t" by (simp add: two_way_def)
  have "trie db (rest_node q ?t)"
    using t(1) q full by (auto simp: rest_node_def inner_key_def intro: trie_ext)
  moreover have "has db (rest_node q ?t) j w \<longleftrightarrow> (if j = key then w = v else has db (ShortNode k val) j w)" for j w
    using k by (auto simp: has_rest_node t(2) has_short_iff)
  moreover have "insert_node (Suc (Suc f)) db (ShortNode k val) prefix key (ValueNode v) =
      Inr (True, rest_node q ?t)"
    by (rule insert_branch [OF k m slot_lt [OF x] slot_lt [OF y]])
  ultimately show ?thesis by (auto simp: put_ok_def)
qed

lemma prefixLen_full: "full_key a \<Longrightarrow> full_key b \<Longrightarrow> prefixLen a b = length b \<Longrightarrow> a = b"
  by (metis append_take_drop_id full_key_no_ext prefixLen_take take_all_iff order_refl append.right_neutral)

lemma prefixLen_short: "full_key (take m b) \<Longrightarrow> full_key b \<Longrightarrow> b = take m b"
  by (metis append.right_neutral append_take_drop_id full_key_no_ext)

text \<open>Insertion into the slot of a full node, and the full node around it.\<close>

definition put_slot :: "mpt_db \<Rightarrow> byte \<Rightarrow> mnode \<Rightarrow> byte list \<Rightarrow> byte list \<Rightarrow> mpt_err + (bool \<times> mnode) \<Rightarrow> bool" where
  "put_slot db x c k v res \<longleftrightarrow> (\<exists>d nn. res = Inr (d, nn) \<and> slot db x nn \<and>
     (\<forall>j w. has db nn j w \<longleftrightarrow> (if j = k then w = v else has db c j w)) \<and> (\<not> d \<longrightarrow> has db c k v))"

lemma put_ok_slot: "put_ok db c k v res \<Longrightarrow> unat x < 16 \<Longrightarrow> put_slot db x c k v res"
  unfolding put_ok_def put_slot_def slot_def by auto

lemma put_slot_end:
  assumes t: "trie db (FullNode cs)" and k: "full_key (x # xs)" "v \<noteq> []"
    and fuel: "fuel_ok g (cs ! unat x) (length xs)" and e: "xs = [] \<or> cs ! unat x = NilNode"
  shows "put_slot db x (cs ! unat x) xs v (insert_node g db (cs ! unat x) prefix xs (ValueNode v))"
proof -
  obtain g' where g: "g = Suc g'" using fuel_ok_Suc [OF fuel] by blast
  have new: "slot db x (rest_node xs (ValueNode v))" using slot_leaf [OF k] .
  show ?thesis
  proof (cases "cs ! unat x = NilNode")
    case True
    then show ?thesis using new by (auto simp: g put_slot_def insert_nil has_rest_node)
  next
    case False
    with e have [simp]: "xs = []" by simp
    with k(1) have "unat x = 16" by (simp add: full_key_simps)
    with trie_fullD(3) [OF t _ False] obtain u where "cs ! unat x = ValueNode u"
      by (auto simp: slot_def)
    then show ?thesis using new by (auto simp: g put_slot_def rest_node_def)
  qed
qed

lemma put_full:
  assumes t: "trie db (FullNode cs)" and x: "unat x < 17"
    and r: "put_slot db x (cs ! unat x) xs v (insert_node f db (cs ! unat x) (prefix @ [x]) xs (ValueNode v))"
  shows "put_ok db (FullNode cs) (x # xs) v (insert_node (Suc f) db (FullNode cs) prefix (x # xs) (ValueNode v))"
proof -
  have len: "unat x < length cs" using trie_fullD(1) [OF t] x by simp
  obtain d nn where r: "insert_node f db (cs ! unat x) (prefix @ [x]) xs (ValueNode v) = Inr (d, nn)"
      "slot db x nn" "\<And>j w. has db nn j w \<longleftrightarrow> (if j = xs then w = v else has db (cs ! unat x) j w)"
      "\<not> d \<Longrightarrow> has db (cs ! unat x) xs v"
    using r unfolding put_slot_def by blast
  have "has db (FullNode (cs[unat x := nn])) k w \<longleftrightarrow> (if k = x # xs then w = v else has db (FullNode cs) k w)" for k w
    unfolding has_full_upd [OF len] using len by (auto simp: r(3) has_full_iff)
  moreover have "has db (FullNode cs) (x # xs) v" if "\<not> d"
    using r(4) [OF that] len by (intro has_full)
  ultimately show ?thesis
    using r(1) len t trie_full_upd [OF t r(2)] has_fun by (auto simp: put_ok_def)
qed

lemma insert_correct:
  assumes "trie db n" "full_key key" "v \<noteq> []" "fuel_ok f n (length key)"
  shows "put_ok db n key v (insert_node f db n prefix key (ValueNode v))"
  using assms
proof (induction arbitrary: key prefix f rule: trie.induct)
  case (trie_leaf p u)
  have "key \<noteq> []" by (rule full_key_nonempty [OF trie_leaf.prems(1)])
  then obtain g where f: "f = Suc (Suc g)"
    using fuel_ok_Suc [OF trie_leaf.prems(3)] fuel_ok_pos trie_leaf.prems(3) not_hash(3) length_greater_0_conv by metis
  show ?case
  proof (cases rule: prefixLen_split [of key p])
    case 1
    then have [simp]: "p = key" using prefixLen_full trie_leaf by metis
    obtain z zs where z: "key = z # zs" using \<open>key \<noteq> []\<close> by (cases key) auto
    have "trie db (ShortNode key (ValueNode v))" "trie db (ShortNode key (ValueNode u))"
      using trie_leaf by (auto intro: trie.trie_leaf)
    then show ?thesis using 1 unfolding f z by (auto simp: put_ok_def Let_def has_short_iff z)
  next
    case 2
    then show ?thesis using prefixLen_short [of "length key" p] trie_leaf by simp
  next
    case (3 q x a y b)
    have "slot db y (rest_node b (ValueNode u))" "\<forall>n \<in> set q. n < 16"
      using slot_leaf [OF full_key_suffix] full_key_prefix trie_leaf.hyps 3(2) by blast+
    then show ?thesis
      unfolding f by (intro put_branch [OF trie_leaf.prems(1,2) 3(1,2,3,4)])
  qed
next
  case (trie_ext p n)
  have "key \<noteq> []" by (rule full_key_nonempty [OF trie_ext.prems(1)])
  then obtain g where f: "f = Suc (Suc g)"
    using fuel_ok_Suc [OF trie_ext.prems(3)] fuel_ok_pos trie_ext.prems(3) not_hash(3) length_greater_0_conv by metis
  show ?case
  proof (cases rule: prefixLen_split [of key p])
    case 1
    let ?r = "drop (length p) key"
    obtain z zs where z: "key = z # zs" using \<open>key \<noteq> []\<close> by (cases key) auto
    have "full_key ?r" using trie_ext 1(2) full_key_append by metis
    moreover have "fuel_ok (Suc g) n (length ?r)"
      using trie_ext.hyps(1) \<open>key \<noteq> []\<close>
      by (intro fuel_ok_step [OF trie_ext.prems(3) [unfolded f]]) (auto simp: inner_key_def)
    ultimately obtain d nn where r: "insert_node (Suc g) db n (prefix @ take (length p) key) ?r (ValueNode v) = Inr (d, nn)"
        "trie db nn" "\<And>k w. has db nn k w \<longleftrightarrow> (if k = ?r then w = v else has db n k w)" "is_full db nn"
        "\<not> d \<Longrightarrow> has db n ?r v"
      using trie_ext.IH [OF _ trie_ext.prems(2), of ?r "Suc g" "prefix @ take (length p) key"] trie_ext.hyps(3)
      unfolding put_ok_def by blast
    have t: "trie db (ShortNode p nn)" "trie db (ShortNode p n)" using r trie_ext.hyps by (auto intro: trie.trie_ext)
    have eq: "has db (ShortNode p nn) k w \<longleftrightarrow> (if k = key then w = v else has db (ShortNode p n) k w)" for k w
      using 1(2) by (auto simp: has_short_iff r(3)) (metis append_eq_append_conv)+
    have "has db (ShortNode p n) key v" if "\<not> d"
      using r(5) [OF that] 1(2) by (metis has_short)
    then show ?thesis
      using r(1) 1(1) t eq has_fun unfolding f z by (auto simp: put_ok_def Let_def)
  next
    case 2
    have "16 \<in> set key" using trie_ext.prems(1) by (auto simp: full_key_def)
    then have "16 \<in> set p" using 2(3) by (metis in_set_takeD)
    then show ?thesis using trie_ext.hyps(1) by (auto simp: inner_key_def)
  next
    case (3 q x a y b)
    have "slot db y (rest_node b n)" "\<forall>n \<in> set q. n < 16"
      using slot_ext trie_ext.hyps 3(2) full_key_prefix trie_ext.prems(1) 3(1) by (blast)+
    then show ?thesis
      unfolding f by (intro put_branch [OF trie_ext.prems(1,2) 3(1,2,3,4)])
  qed
next
  case (trie_full cs)
  have t: "trie db (FullNode cs)" using trie_full.hyps by (auto intro: trie.trie_full)
  obtain x xs where k: "key = x # xs" using full_key_nonempty [OF trie_full.prems(1)] by (cases key) auto
  obtain g where f: "f = Suc g" using fuel_ok_Suc [OF trie_full.prems(3)] by blast
  have fuel: "fuel_ok g (cs ! unat x) (length xs)"
    by (rule fuel_ok_step [OF trie_full.prems(3) [unfolded f k]]) simp_all
  show ?case
    unfolding f k
  proof (rule put_full [OF t full_key_hd [OF trie_full.prems(1) [unfolded k]]])
    show "put_slot db x (cs ! unat x) xs v (insert_node g db (cs ! unat x) (prefix @ [x]) xs (ValueNode v))"
    proof (cases "xs = [] \<or> cs ! unat x = NilNode")
      case True
      then show ?thesis
        using put_slot_end [OF t trie_full.prems(1) [unfolded k] trie_full.prems(2) fuel] by blast
    next
      case False
      then have x: "unat x < 16" "full_key xs"
        using trie_full.prems(1) by (auto simp: k full_key_simps nibble_unat)
      have "cs ! unat x \<noteq> NilNode" using False by simp
      from trie_full.IH [OF x(1) this x(2) trie_full.prems(2) fuel, of "prefix @ [x]"] show ?thesis
        using x(1) by (rule put_ok_slot)
    qed
  qed
next
  case (trie_hash h n)
  obtain g where f: "f = Suc g" using fuel_ok_Suc [OF trie_hash.prems(3)] by blast
  obtain x xs where k: "key = x # xs" using full_key_nonempty [OF trie_hash.prems(1)] by (cases key) auto
  have "fuel_ok g n (length key)"
    using fuel_ok_load [OF trie_hash.prems(3) [unfolded f] trie_hash.hyps(3)] .
  from trie_hash.IH [OF trie_hash.prems(1,2) this] obtain d nn where
      r: "insert_node g db n prefix key (ValueNode v) = Inr (d, nn)" "trie db nn"
      "\<And>k w. has db nn k w \<longleftrightarrow> (if k = key then w = v else has db n k w)" "is_full db n \<Longrightarrow> is_full db nn"
      "\<not> d \<Longrightarrow> has db n key v"
    unfolding put_ok_def by blast
  have "is_full db (HashNode h) = is_full db n"
    using trie_hash.hyps(1,3) by (cases n) (auto simp: is_full_def)
  then show ?case
    using r trie_hash.hyps has_fun resolveHash_prefix [of db h prefix n] unfolding f k
    by (auto simp: put_ok_def has_hash_iff)
qed

end
