(* ===== verification/MptDelete.thy ===== *)
theory MptDelete
  imports MptInsert
begin

text \<open>
  Correctness of \<open>delete\<close> of \<open>plugin/store/mpt/db/trie.go\<close>, which removes one entry and brings the
  trie back to its minimal form.
\<close>

section \<open>Deletion\<close>

lemma live_Cons: "live (c # cs) = (if c \<noteq> NilNode then {0} else {}) \<union> Suc ` live cs"
  by (auto simp: live_def image_iff nth_Cons split: nat.splits) (metis Suc_less_eq nat.exhaust gr0_conv_Suc)+

lemma live_Nil [simp]: "live [] = {}"
  by (simp add: live_def)

lemma single_child_found: "0 \<le> pos \<Longrightarrow> single_child i pos cs = (if live cs = {} then pos else -2)"
  by (induction cs arbitrary: i) (auto simp: live_Cons)

lemma single_child_spec:
  "single_child i (-1) cs = (if live cs = {} then -1
     else if card (live cs) = 1 then int i + int (the_elem (live cs)) else -2)"
proof (induction cs arbitrary: i)
  case (Cons c cs)
  have im: "card (Suc ` live cs) = card (live cs)" "live cs \<noteq> {} \<Longrightarrow> 0 < card (live cs)"
    by (simp_all add: card_image card_gt_0_iff)
  have one: "the_elem (Suc ` live cs) = Suc (the_elem (live cs))" if "card (live cs) = 1"
    using that by (auto simp: card_1_singleton_iff)
  show ?case
    using Cons.IH [of "Suc i"] im one
    by (auto simp: live_Cons single_child_found card_insert_if)
qed simp

lemma single_child_cases:
  assumes "live cs \<noteq> {}"
  obtains j where "live cs = {j}" "single_child 0 (-1) cs = int j"
  | "2 \<le> card (live cs)" "single_child 0 (-1) cs = -2"
proof (cases "card (live cs) = 1")
  case True
  then obtain j where "live cs = {j}" by (auto simp: card_1_singleton_iff)
  then show ?thesis using that(1) single_child_spec [of 0 cs] by simp
next
  case False
  moreover have "0 < card (live cs)" using assms by (simp add: card_gt_0_iff)
  ultimately show ?thesis using that(2) single_child_spec [of 0 cs] assms by simp
qed

lemma trie_merge:
  assumes "inner_key p" "trie db (ShortNode q n)"
  shows "trie db (ShortNode (p @ q) n)"
  using assms(2)
proof (cases rule: trie.cases)
  case (trie_leaf v)
  then show ?thesis using assms(1) by (auto simp: full_key_append intro: trie.trie_leaf)
next
  case trie_ext
  then show ?thesis using assms(1) by (intro trie.trie_ext) (auto simp: inner_key_def)
qed

lemma has_single:
  assumes "live cs = {unat x}"
  shows "has db (FullNode cs) k w \<longleftrightarrow> (\<exists>j. k = x # j \<and> has db (cs ! unat x) j w)"
proof -
  have "i = x" if "unat i < length cs" "has db (cs ! unat i) j w" for i j
  proof -
    have "cs ! unat i \<noteq> NilNode" using that(2) by auto
    with that(1) have "unat i \<in> live cs" by (simp add: live_def)
    then show ?thesis using assms by (simp add: unat_eq_byte)
  qed
  moreover have "unat x < length cs" using assms by (auto simp: live_def)
  ultimately show ?thesis by (auto simp: has_full_iff)
qed

lemma resolve_trie:
  assumes t: "trie db c"
  obtains m where "resolve db c prefix = Inr m" "trie db m" "\<not> is_hash m"
    "\<And>k w. has db m k w \<longleftrightarrow> has db c k w" "is_full db m = is_full db c"
proof (cases c)
  case (HashNode h)
  with t obtain m where m: "resolveHash db h [] = Inr m" "trie db m" "\<not> is_hash m" by (auto elim: trie_hashE)
  then have "is_full db m = is_full db c" using HashNode by (cases m) (auto simp: is_full_def)
  then show ?thesis
    using m HashNode by (intro that [of m]) (auto simp: has_hash_iff resolveHash_prefix [of db h prefix])
qed (use t that [of c] in auto)

lemma reduce_single:
  assumes c: "slot db x (cs ! unat x)" and l: "live cs = {unat x}" "single_child 0 (-1) cs = int (unat x)"
  shows "\<exists>nn. reduce_full db cs prefix = Inr (True, nn) \<and> trie db nn \<and> \<not> is_hash nn \<and>
    (\<forall>k w. has db nn k w \<longleftrightarrow> has db (FullNode cs) k w)"
proof (cases "unat x = 16")
  case True
  then obtain v where v: "cs ! unat x = ValueNode v" "v \<noteq> []" using c by (auto simp: slot_def)
  have "x = 16" using True by (metis unat_16 unat_eq_byte)
  then have "trie db (ShortNode [x] (ValueNode v))"
    using v by (intro trie_leaf) (simp_all add: full_key_simps)
  moreover have "reduce_full db cs prefix = Inr (True, ShortNode [x] (ValueNode v))"
    using l(2) v True \<open>x = 16\<close> by (simp add: reduce_full_def)
  ultimately show ?thesis using v by (auto simp: has_single [OF l(1)] has_short_iff)
next
  case False
  then have lt: "unat x < 16" and t: "trie db (cs ! unat x)" using c by (auto simp: slot_def split: if_splits)
  have x: "of_int (int (unat x)) = x" "inner_key [x]" using lt by (simp_all add: inner_key_def nibble_unat)
  have u: "uint x \<noteq> 16" using False by (metis nat_numeral unat_eq_nat_uint)
  obtain m where m: "resolve db (cs ! unat x) prefix = Inr m" "trie db m" "\<not> is_hash m"
      "\<And>k w. has db m k w \<longleftrightarrow> has db (cs ! unat x) k w" "is_full db m = is_full db (cs ! unat x)"
    using resolve_trie [OF t, of prefix] by blast
  show ?thesis
  proof (cases "\<exists>q n. m = ShortNode q n")
    case True
    then obtain q n where q: "m = ShortNode q n" by blast
    have "reduce_full db cs prefix = Inr (True, ShortNode (x # q) n)"
      using l(2) m(1) q x u by (simp add: reduce_full_def Let_def)
    moreover have "trie db (ShortNode (x # q) n)" using trie_merge [OF x(2)] m(2) q by simp
    moreover have "has db (ShortNode (x # q) n) k w \<longleftrightarrow> has db (FullNode cs) k w" for k w
      by (auto simp: has_single [OF l(1)] m(4) [symmetric] q has_short_iff)
    ultimately show ?thesis by auto
  next
    case False
    then have full: "is_full db m" using m(2,3) by (cases m) auto
    with False have r: "reduce_full db cs prefix = Inr (True, ShortNode [x] (cs ! unat x))"
      using l(2) m(1,3) x u by (cases m) (auto simp: reduce_full_def Let_def)
    have "trie db (ShortNode [x] (cs ! unat x))" using x(2) t full m(5) by (intro trie_ext) auto
    with r show ?thesis by (auto simp: has_single [OF l(1)] has_short_iff)
  qed
qed

lemma reduce_correct:
  assumes "length cs = 17" "live cs \<noteq> {}" "\<And>x. unat x < 17 \<Longrightarrow> cs ! unat x \<noteq> NilNode \<Longrightarrow> slot db x (cs ! unat x)"
  shows "\<exists>nn. reduce_full db cs prefix = Inr (True, nn) \<and> trie db nn \<and> \<not> is_hash nn \<and>
    (\<forall>k w. has db nn k w \<longleftrightarrow> has db (FullNode cs) k w)"
proof (cases rule: single_child_cases [OF assms(2)])
  case (1 j)
  then have j: "j < 17" "cs ! j \<noteq> NilNode" using assms(1) by (auto simp: live_def)
  define x :: byte where "x = of_nat j"
  have x: "unat x = j" using j(1) by (simp add: x_def unat_of_nat)
  show ?thesis
    using assms(3) [of x] 1 j x by (intro reduce_single [of db x]) simp_all
next
  case 2
  then have "trie db (FullNode cs)" using assms by (intro trie_fullI)
  then show ?thesis using 2 by (simp add: reduce_full_def)
qed

text \<open>What a deletion returns: a well-formed node, or nil, without the key.\<close>

definition del_ok :: "mpt_db \<Rightarrow> mnode \<Rightarrow> byte list \<Rightarrow> mpt_err + (bool \<times> mnode) \<Rightarrow> bool" where
  "del_ok db n key res \<longleftrightarrow> (\<exists>d nn. res = Inr (d, nn) \<and> (nn = NilNode \<or> trie db nn) \<and>
     (\<forall>k w. has db nn k w \<longleftrightarrow> k \<noteq> key \<and> has db n k w) \<and> (is_full db n \<longrightarrow> nn \<noteq> NilNode) \<and>
     (d \<longrightarrow> \<not> is_hash nn) \<and> (\<not> d \<longrightarrow> (\<forall>w. \<not> has db n key w)))"

lemma del_full:
  assumes t: "trie db (FullNode cs)" and x: "unat x < 17"
    and r: "delete_node f db (cs ! unat x) (prefix @ [x]) xs = Inr (d, nn)" "nn = NilNode \<or> slot db x nn"
      "\<And>k w. has db nn k w \<longleftrightarrow> k \<noteq> xs \<and> has db (cs ! unat x) k w" "\<not> d \<Longrightarrow> \<forall>w. \<not> has db (cs ! unat x) xs w"
  shows "del_ok db (FullNode cs) (x # xs) (delete_node (Suc f) db (FullNode cs) prefix (x # xs))"
proof -
  note tD = trie_fullD [OF t]
  have len: "unat x < length cs" using tD(1) x by simp
  let ?cs = "cs[unat x := nn]"
  have h: "has db (FullNode ?cs) k w \<longleftrightarrow> k \<noteq> x # xs \<and> has db (FullNode cs) k w" for k w
    unfolding has_full_upd [OF len] using len by (auto simp: r(3) has_full_iff)
  have "live cs - {unat x} \<subseteq> live ?cs" by (auto simp: live_def)
  moreover have "live cs - {unat x} \<noteq> {}"
    using tD(2) card_mono [of "{unat x}" "live cs"] by auto
  ultimately have "live ?cs \<noteq> {}" by blast
  moreover have "slot db y (?cs ! unat y)" if "unat y < 17" "?cs ! unat y \<noteq> NilNode" for y
    using that r(2) tD(3) len by (auto simp: nth_list_update unat_eq_byte split: if_splits)
  ultimately obtain m where m: "reduce_full db ?cs prefix = Inr (True, m)" "trie db m" "\<not> is_hash m"
      "\<And>k w. has db m k w \<longleftrightarrow> has db (FullNode ?cs) k w"
    using reduce_correct [of ?cs db prefix] tD(1) by auto
  then have "m \<noteq> NilNode" by auto
  moreover have "\<not> has db (FullNode cs) (x # xs) w" if "\<not> d" for w
    using r(4) [OF that] by (auto simp: has_full_iff)
  ultimately show ?thesis
    using len r(1) m t h by (cases d) (auto simp: del_ok_def)
qed

lemma prefixLen_append: "prefixLen (p @ k) p = length p"
  by (induction p) auto

lemma prefixLen_same: "prefixLen p p = length p"
  using prefixLen_append [of p "[]"] by simp

lemma del_ext:
  assumes t: "trie db (ShortNode p n)" and p: "inner_key p" and m: "prefixLen key p = length p" and k: "key = p @ r" and full: "full_key r"
    and del: "delete_node g db n (prefix @ take (length p) key) r = Inr (d, nn)" and tn: "trie db nn"
    and h: "\<And>k w. has db nn k w \<longleftrightarrow> k \<noteq> r \<and> has db n k w" and nh: "d \<Longrightarrow> \<not> is_hash nn"
    and nd: "\<not> d \<Longrightarrow> \<forall>w. \<not> has db n r w"
  shows "del_ok db (ShortNode p n) key (delete_node (Suc g) db (ShortNode p n) prefix key)"
proof -
  have rk: "drop (length p) key = r" "length p \<noteq> length key" using k full_key_nonempty [OF full] by auto
  have miss: "\<not> has db (ShortNode p n) key w" if "\<not> d" for w
    using nd [OF that] k by (auto simp: has_short_iff)
  show ?thesis
  proof (cases d)
    case False
    then show ?thesis using t m rk del miss by (auto simp: del_ok_def Let_def)
  next
    case True
    show ?thesis
    proof (cases "\<exists>q n'. nn = ShortNode q n'")
      case True
      then obtain q n' where q: "nn = ShortNode q n'" by blast
      have "trie db (ShortNode (p @ q) n')" using trie_merge [OF p] tn q by simp
      moreover have "has db (ShortNode (p @ q) n') j w \<longleftrightarrow> j \<noteq> key \<and> has db (ShortNode p n) j w" for j w
      proof -
        have "has db (ShortNode (p @ q) n') j w \<longleftrightarrow> (\<exists>i. j = p @ i \<and> has db nn i w)"
          by (auto simp: q has_short_iff)
        then show ?thesis using k by (auto simp: h has_short_iff)
      qed
      ultimately show ?thesis using \<open>d\<close> m rk del q by (auto simp: del_ok_def Let_def)
    next
      case False
      then have "is_full db nn" using tn nh \<open>d\<close> by (cases nn) auto
      then have "trie db (ShortNode p nn)" using p tn by (intro trie_ext)
      moreover have "has db (ShortNode p nn) j w \<longleftrightarrow> j \<noteq> key \<and> has db (ShortNode p n) j w" for j w
        using h k by (auto simp: has_short_iff)
      ultimately show ?thesis
        using \<open>d\<close> m rk del False by (cases nn) (auto simp: del_ok_def Let_def)
    qed
  qed
qed

text \<open>The cases of the induction, one per kind of node.\<close>

lemma delete_leaf:
  assumes "full_key p" "v \<noteq> []" "full_key key"
  shows "del_ok db (ShortNode p (ValueNode v)) key (delete_node (Suc g) db (ShortNode p (ValueNode v)) prefix key)"
proof (cases "prefixLen key p = length p")
  case True
  then have "key = p" using prefixLen_full assms by metis
  then show ?thesis using True by (auto simp: del_ok_def Let_def has_short_iff)
next
  case False
  then have "prefixLen key p < length p" using prefixLen_le(2) [of key p] by linarith
  moreover have "key \<noteq> p" using False by (auto simp: prefixLen_same)
  ultimately show ?thesis
    using trie_leaf [OF assms(1,2), of db] by (auto simp: del_ok_def Let_def has_short_iff)
qed

lemma delete_ext:
  assumes p: "inner_key p" and n: "trie db n" "is_full db n" and key: "full_key key"
    and IH: "\<And>r pre. full_key r \<Longrightarrow> length r < length key \<Longrightarrow> del_ok db n r (delete_node g db n pre r)"
  shows "del_ok db (ShortNode p n) key (delete_node (Suc g) db (ShortNode p n) prefix key)"
proof (cases "prefixLen key p = length p")
  case True
  let ?r = "drop (length p) key"
  have t: "trie db (ShortNode p n)" using p n by (rule trie_ext)
  have k: "key = p @ ?r" using True by (metis append_take_drop_id prefixLen_take take_all_iff order_refl)
  have full: "full_key ?r" using p key k full_key_append by metis
  have "length ?r < length key" using p full_key_nonempty [OF key] by (simp add: inner_key_def)
  from IH [OF full this, of "prefix @ take (length p) key"] n obtain d nn where
      r: "delete_node g db n (prefix @ take (length p) key) ?r = Inr (d, nn)" "trie db nn"
      "\<And>k w. has db nn k w \<longleftrightarrow> k \<noteq> ?r \<and> has db n k w" "d \<Longrightarrow> \<not> is_hash nn"
      "\<not> d \<Longrightarrow> \<forall>w. \<not> has db n ?r w"
    unfolding del_ok_def by blast
  show ?thesis by (rule del_ext [OF t p True k full r])
next
  case False
  then have "prefixLen key p < length p" using prefixLen_le(2) [of key p] by linarith
  moreover have "\<not> has db (ShortNode p n) key w" for w
    using False by (auto simp: has_short_iff prefixLen_append)
  ultimately show ?thesis using trie_ext [OF p n] by (auto simp: del_ok_def Let_def)
qed

lemma delete_full:
  assumes t: "trie db (FullNode cs)" and key: "full_key (x # xs)"
    and IH: "unat x < 16 \<Longrightarrow> cs ! unat x \<noteq> NilNode \<Longrightarrow> full_key xs \<Longrightarrow>
      del_ok db (cs ! unat x) xs (delete_node (Suc g) db (cs ! unat x) (prefix @ [x]) xs)"
  shows "del_ok db (FullNode cs) (x # xs) (delete_node (Suc (Suc g)) db (FullNode cs) prefix (x # xs))"
proof -
  note x = full_key_hd [OF key]
  consider "cs ! unat x = NilNode" | "unat x < 16" "full_key xs" "cs ! unat x \<noteq> NilNode"
    | v where "cs ! unat x = ValueNode v" "xs = []"
    using trie_fullD(3) [OF t x] key
    by (cases "xs = []") (auto simp: slot_def full_key_simps nibble_unat)
  then show ?thesis
  proof cases
    case 1
    then have "delete_node (Suc g) db (cs ! unat x) (prefix @ [x]) xs = Inr (False, NilNode)" by simp
    from del_full [OF t x this] 1 show ?thesis by simp
  next
    case 2
    from IH [OF 2(1,3,2)] obtain d nn where
        r: "delete_node (Suc g) db (cs ! unat x) (prefix @ [x]) xs = Inr (d, nn)" "nn = NilNode \<or> trie db nn"
        "\<And>k w. has db nn k w \<longleftrightarrow> k \<noteq> xs \<and> has db (cs ! unat x) k w" "\<not> d \<Longrightarrow> \<forall>w. \<not> has db (cs ! unat x) xs w"
      unfolding del_ok_def by blast
    have "nn = NilNode \<or> slot db x nn" using r(2) 2(1) by (auto simp: slot_def)
    then show ?thesis by (rule del_full [OF t x r(1) _ r(3,4)])
  next
    case 3
    then have "delete_node (Suc g) db (cs ! unat x) (prefix @ [x]) xs = Inr (True, NilNode)" by simp
    from del_full [OF t x this] 3 show ?thesis by simp
  qed
qed

lemma delete_hash:
  assumes h: "resolveHash db h [] = Inr n" "trie db n" "\<not> is_hash n"
    and r: "del_ok db n key (delete_node g db n prefix key)"
  shows "del_ok db (HashNode h) key (delete_node (Suc g) db (HashNode h) prefix key)"
proof -
  from r obtain d nn where
      r: "delete_node g db n prefix key = Inr (d, nn)" "nn = NilNode \<or> trie db nn"
      "\<And>k w. has db nn k w \<longleftrightarrow> k \<noteq> key \<and> has db n k w" "is_full db n \<Longrightarrow> nn \<noteq> NilNode"
      "d \<Longrightarrow> \<not> is_hash nn" "\<not> d \<Longrightarrow> \<forall>w. \<not> has db n key w"
    unfolding del_ok_def by blast
  have "is_full db (HashNode h) = is_full db n" "n \<noteq> NilNode"
    using h by (cases n; auto simp: is_full_def)+
  moreover have "has db (HashNode h) k w \<longleftrightarrow> has db n k w" for k w
    using h(1) by (simp add: has_hash_iff)
  moreover have "resolveHash db h prefix = Inr n" using h(1) resolveHash_prefix [of db h prefix n] by simp
  ultimately show ?thesis
    using r h(2) by (cases d) (auto simp: del_ok_def)
qed

lemma delete_correct:
  assumes "trie db n" "full_key key" "fuel_ok f n (length key)"
  shows "del_ok db n key (delete_node f db n prefix key)"
  using assms
proof (induction arbitrary: key prefix f rule: trie.induct)
  case (trie_leaf p v)
  obtain g where "f = Suc g" using fuel_ok_Suc [OF trie_leaf.prems(2)] by blast
  then show ?case using delete_leaf [OF trie_leaf.hyps trie_leaf.prems(1)] by simp
next
  case (trie_ext p n)
  obtain g where f: "f = Suc g" using fuel_ok_Suc [OF trie_ext.prems(2)] by blast
  show ?case
    unfolding f
  proof (rule delete_ext [OF trie_ext.hyps trie_ext.prems(1)])
    fix r pre
    assume "full_key r" "length r < length key"
    then show "del_ok db n r (delete_node g db n pre r)"
      by (intro trie_ext.IH fuel_ok_step [OF trie_ext.prems(2) [unfolded f]]) simp_all
  qed
next
  case (trie_full cs)
  have t: "trie db (FullNode cs)" using trie_full.hyps by (auto intro: trie.trie_full)
  obtain x xs where k: "key = x # xs" using full_key_nonempty [OF trie_full.prems(1)] by (cases key) auto
  obtain g where f: "f = Suc g" using fuel_ok_Suc [OF trie_full.prems(2)] by blast
  have fuel: "fuel_ok g (cs ! unat x) (length xs)"
    by (rule fuel_ok_step [OF trie_full.prems(2) [unfolded f k]]) simp_all
  obtain g' where g: "g = Suc g'" using fuel_ok_Suc [OF fuel] by blast
  show ?case
    unfolding f k g using trie_full.IH [OF _ _ _ fuel] trie_full.prems(1)
    by (intro delete_full [OF t]) (simp_all add: k g)
next
  case (trie_hash h n)
  obtain g where f: "f = Suc g" using fuel_ok_Suc [OF trie_hash.prems(2)] by blast
  have "fuel_ok g n (length key)"
    using fuel_ok_load [OF trie_hash.prems(2) [unfolded f] trie_hash.hyps(3)] .
  then show ?case
    unfolding f using trie_hash.hyps trie_hash.IH trie_hash.prems(1) by (intro delete_hash)
qed

end
