(* ===== verification/MptStore.thy ===== *)
theory MptStore
  imports MptDelete
begin

text \<open>
  The trie as a store: the interface of \<open>plugin/store/mpt/db/trie.go\<close> (\<open>TryGet\<close>, \<open>TryUpdate\<close>,
  \<open>TryDelete\<close> and the loops of \<open>SetKVPair\<close>, \<open>GetKVPair\<close>, \<open>DelKVPair\<close>) implements a map from keys
  to values, and the trie is determined by that map: the order in which it was written does not
  show in the nodes, hence not in the root hash.
\<close>

section \<open>The loops over key-value pairs\<close>

text \<open>\<open>Update\<close> logs an error and goes on.\<close>

definition trie_Update :: "mpt_db \<Rightarrow> byte list \<times> byte list \<Rightarrow> mnode \<Rightarrow> mnode" where
  "trie_Update db kv root = snd (TryUpdate db (fst kv) (snd kv) root)"

definition SetKVPair_loop :: "mpt_db \<Rightarrow> (byte list \<times> byte list) list \<Rightarrow> mnode \<Rightarrow> mnode" where
  "SetKVPair_loop db kvs root = fold (trie_Update db) kvs root"

fun GetKVPair_loop :: "mpt_db \<Rightarrow> byte list list \<Rightarrow> mnode \<Rightarrow> byte list option list" where
  "GetKVPair_loop db [] root = []"
| "GetKVPair_loop db (k # keys) root =
     (case TryGet db k root of
        (Inl e, root') \<Rightarrow> GetKVPair_loop db keys root'
      | (Inr value, root') \<Rightarrow> value # GetKVPair_loop db keys root')"

fun DelKVPair_loop :: "mpt_db \<Rightarrow> byte list list \<Rightarrow> mnode \<Rightarrow> byte list list \<times> mnode" where
  "DelKVPair_loop db [] root = ([], root)"
| "DelKVPair_loop db (k # keys) root =
     (let (err, root1) = TryUpdate db k [] root; (values, root2) = DelKVPair_loop db keys root1
      in (if err = None then k # values else values, root2))"

section \<open>The store as a map\<close>

locale kv_store =
  fixes get :: "'s \<Rightarrow> 'k \<Rightarrow> 'v option"
    and put :: "'k \<times> 'v \<Rightarrow> 's \<Rightarrow> 's"
    and stored :: "'v \<Rightarrow> 'v option"
    and inv :: "'s \<Rightarrow> bool"
  assumes inv_put: "inv s \<Longrightarrow> inv (put kv s)"
    and get_put: "inv s \<Longrightarrow> get (put kv s) k = (if k = fst kv then stored (snd kv) else get s k)"
begin

lemma inv_puts: "inv s \<Longrightarrow> inv (fold put kvs s)"
  by (induction kvs arbitrary: s) (auto intro: inv_put)

lemma get_puts:
  "inv s \<Longrightarrow> get (fold put kvs s) k =
     (case map_of (rev kvs) k of Some v \<Rightarrow> stored v | None \<Rightarrow> get s k)"
proof (induction kvs rule: rev_induct)
  case (snoc kv kvs)
  then show ?case using inv_puts [of s kvs] by (cases kv) (auto simp: get_put)
qed simp

end

definition root_ok :: "mpt_db \<Rightarrow> mnode \<Rightarrow> bool" where
  "root_ok db root \<longleftrightarrow> root = NilNode \<or> trie db root"

definition content :: "mpt_db \<Rightarrow> mnode \<Rightarrow> byte list \<Rightarrow> byte list option" where
  "content db root key = (case fst (TryGet db key root) of Inl e \<Rightarrow> None | Inr v \<Rightarrow> v)"

definition stored_value :: "byte list \<Rightarrow> byte list option" where
  "stored_value v = (if v = [] then None else Some v)"

lemma TryGet_ok:
  assumes "root_ok db root"
  shows "\<exists>v root'. TryGet db key root = (Inr v, root') \<and> root_ok db root' \<and>
    (\<forall>w. v = Some w \<longleftrightarrow> has db root (keybytesToHex key) w) \<and> (\<forall>k w. has db root' k w \<longleftrightarrow> has db root k w)"
proof (cases "root = NilNode")
  case True
  then show ?thesis by (simp add: TryGet_def mpt_fuel_def root_ok_def)
next
  case False
  then have t: "trie db root" using assms by (simp add: root_ok_def)
  have "fuel_ok (mpt_fuel (keybytesToHex key)) root (length (keybytesToHex key) - 0)"
    using fuel_ok_mpt by simp
  from tryGet_correct [OF t _ this] t show ?thesis
    by (auto simp: got_def TryGet_def Let_def root_ok_def)
qed

lemma content_has: "root_ok db root \<Longrightarrow> content db root key = Some w \<longleftrightarrow> has db root (keybytesToHex key) w"
  using TryGet_ok [of db root key] by (auto simp: content_def)

lemma TryUpdate_ok:
  assumes "root_ok db root"
  shows "\<exists>root'. TryUpdate db key v root = (None, root') \<and> root_ok db root' \<and>
    (\<forall>k w. has db root' k w \<longleftrightarrow> (if k = keybytesToHex key then stored_value v = Some w else has db root k w))"
proof (cases "root = NilNode")
  case True
  have "trie db (ShortNode (keybytesToHex key) (ValueNode v))" if "v \<noteq> []"
    using that by (intro trie_leaf) simp_all
  then show ?thesis
    using True insert_nil [of "2 * length (keybytesToHex key) + 1" db "[]"]
    by (auto simp: TryUpdate_def mpt_fuel_def root_ok_def stored_value_def has_short_iff rest_node_def
        keybytesToHex_def)
next
  case False
  then have t: "trie db root" using assms by (simp add: root_ok_def)
  show ?thesis
  proof (cases "v = []")
    case True
    obtain d nn where "delete_node (mpt_fuel (keybytesToHex key)) db root [] (keybytesToHex key) = Inr (d, nn)"
        "nn = NilNode \<or> trie db nn" "\<And>k w. has db nn k w \<longleftrightarrow> k \<noteq> keybytesToHex key \<and> has db root k w"
      using delete_correct [OF t full_key_hex fuel_ok_mpt, of key "[]"] unfolding del_ok_def by blast
    with True show ?thesis by (simp add: TryUpdate_def root_ok_def stored_value_def)
  next
    case False
    then show ?thesis
      using insert_correct [OF t full_key_hex False fuel_ok_mpt, of key "[]"]
      by (auto simp: put_ok_def TryUpdate_def Let_def root_ok_def stored_value_def)
  qed
qed

lemma TryDelete_update: "TryDelete db key root = TryUpdate db key [] root"
  by (simp add: TryDelete_def TryUpdate_def)

interpretation mpt: kv_store "content db" "trie_Update db" stored_value "root_ok db" for db
proof
  fix root kv
  assume ok: "root_ok db root"
  obtain root' where r: "TryUpdate db (fst kv) (snd kv) root = (None, root')" "root_ok db root'"
    "\<And>k w. has db root' k w \<longleftrightarrow> (if k = keybytesToHex (fst kv) then stored_value (snd kv) = Some w else has db root k w)"
    using TryUpdate_ok [OF ok, of "fst kv" "snd kv"] by blast
  then show "root_ok db (trie_Update db kv root)" by (simp add: trie_Update_def)
  fix k
  have "content db root' k = Some w \<longleftrightarrow>
      (if k = fst kv then stored_value (snd kv) else content db root k) = Some w" for w
    using content_has [OF r(2)] content_has [OF ok] by (simp add: r(3))
  then show "content db (trie_Update db kv root) k = (if k = fst kv then stored_value (snd kv) else content db root k)"
    unfolding trie_Update_def r(1) snd_conv by (metis option.exhaust)
qed

section \<open>The minimal form is unique\<close>

text \<open>
  Over an empty database a well-formed trie is completely in memory: it has no hash nodes.
\<close>

abbreviation no_db :: mpt_db where "no_db \<equiv> \<lambda>_. None"

lemma trie_no_hash [simp]: "\<not> trie no_db (HashNode h)"
  by (auto elim: trie_hashE simp: resolveHash_def)

lemma full_no_db: "is_full no_db n \<longleftrightarrow> (\<exists>cs. n = FullNode cs)"
  by (auto simp: is_full_def resolveHash_def)

text \<open>The first nibbles of the keys: a full node has two different ones, a short node only one.\<close>

lemma slot_has: "slot db x c \<Longrightarrow> (unat x < 16 \<Longrightarrow> \<exists>k w. has db c k w) \<Longrightarrow> \<exists>k w. has db c k w"
proof (cases "unat x < 16")
  case False
  assume "slot db x c"
  with False obtain v where "c = ValueNode v" by (auto simp: slot_def)
  then show ?thesis using has_value by blast
qed blast

lemma live_two:
  assumes "length cs = 17" "2 \<le> card (live cs)"
  obtains x y :: byte where "unat x < 17" "unat y < 17" "x \<noteq> y" "cs ! unat x \<noteq> NilNode" "cs ! unat y \<noteq> NilNode"
proof -
  obtain i j where ij: "i \<in> live cs" "j \<in> live cs" "i \<noteq> j"
    using assms(2) by (metis card_le_Suc0_iff_eq live_finite not_less_eq_eq numeral_2_eq_2)
  then have lt: "i < 17" "j < 17" "cs ! i \<noteq> NilNode" "cs ! j \<noteq> NilNode" using assms(1) by (auto simp: live_def)
  define x y :: byte where "x = of_nat i" and "y = of_nat j"
  have u: "unat x = i" "unat y = j" using lt by (simp_all add: x_def y_def unat_of_nat)
  then show ?thesis using lt ij(3) by (intro that [of x y]) auto
qed

lemma trie_nonempty: "trie db n \<Longrightarrow> \<exists>k w. has db n k w"
proof (induction rule: trie.induct)
  case (trie_leaf p v)
  show ?case by (intro exI) (rule has_short [OF has_value])
next
  case (trie_ext p n)
  then show ?case by (blast intro: has_short)
next
  case (trie_full cs)
  have t: "trie db (FullNode cs)" using trie_full.hyps by (auto intro: trie.trie_full)
  obtain x y :: byte where xy: "unat x < 17" "unat y < 17" "x \<noteq> y" "cs ! unat x \<noteq> NilNode" "cs ! unat y \<noteq> NilNode"
    by (rule live_two [OF trie_full.hyps(1,4)])
  have "\<exists>k w. has db (cs ! unat x) k w"
  proof (rule slot_has [OF trie_fullD(3) [OF t xy(1,4)]])
    assume "unat x < 16"
    then show "\<exists>k w. has db (cs ! unat x) k w" using xy(4) by (rule trie_full.IH)
  qed
  then obtain k w where "has db (cs ! unat x) k w" by blast
  then have "has db (FullNode cs) (x # k) w" using xy(1) trie_full.hyps(1) by (intro has_full) simp_all
  then show ?case by blast
next
  case (trie_hash h n)
  then show ?case by (blast intro: has_hash)
qed

lemma full_heads:
  assumes "trie db (FullNode cs)"
  obtains x y j k v w where "x \<noteq> y" "has db (FullNode cs) (x # j) v" "has db (FullNode cs) (y # k) w"
proof -
  note t = trie_fullD [OF assms]
  obtain x y :: byte where xy: "unat x < 17" "unat y < 17" "x \<noteq> y" "cs ! unat x \<noteq> NilNode" "cs ! unat y \<noteq> NilNode"
    by (rule live_two [OF t(1,2)])
  have "\<exists>k w. has db (cs ! unat z) k w" if "unat z < 17" "cs ! unat z \<noteq> NilNode" for z :: byte
  proof (rule slot_has [OF t(3) [OF that]])
    assume "unat z < 16"
    with t(3) [OF that] have "trie db (cs ! unat z)" by (simp add: slot_def)
    then show "\<exists>k w. has db (cs ! unat z) k w" by (rule trie_nonempty)
  qed
  from this [OF xy(1,4)] this [OF xy(2,5)] obtain j v k w where
    "has db (cs ! unat x) j v" "has db (cs ! unat y) k w" by blast
  then have "has db (FullNode cs) (x # j) v" "has db (FullNode cs) (y # k) w"
    using xy(1,2) t(1) by (auto intro: has_full)
  with xy(3) show ?thesis by (rule that)
qed

lemma short_head: "trie db (ShortNode p n) \<Longrightarrow> has db (ShortNode p n) (x # k) w \<Longrightarrow> x = hd p"
  by (erule trie_shortE) (auto simp: has_short_iff inner_key_def Cons_eq_append_conv full_key_def)

text \<open>Two nodes with the same contents.\<close>

definition same :: "mnode \<Rightarrow> mnode \<Rightarrow> bool" where
  "same n m \<longleftrightarrow> (\<forall>k w. has no_db n k w \<longleftrightarrow> has no_db m k w)"

lemma same_sym: "same n m \<Longrightarrow> same m n"
  by (simp add: same_def)

lemma full_not_short:
  assumes "trie no_db (FullNode cs)" "trie no_db (ShortNode p n)"
  shows "\<not> same (FullNode cs) (ShortNode p n)"
proof
  assume s: "same (FullNode cs) (ShortNode p n)"
  obtain x y j k u w where h: "x \<noteq> y" "has no_db (FullNode cs) (x # j) u" "has no_db (FullNode cs) (y # k) w"
    by (rule full_heads [OF assms(1)])
  then have "has no_db (ShortNode p n) (x # j) u" "has no_db (ShortNode p n) (y # k) w"
    using s by (simp_all add: same_def)
  then have "x = hd p" "y = hd p" using short_head [OF assms(2)] by blast+
  with h(1) show False by simp
qed

lemma leaf_not_ext:
  assumes "trie no_db (FullNode cs)"
  shows "\<not> same (ShortNode p (ValueNode v)) (ShortNode q (FullNode cs))"
proof
  assume s: "same (ShortNode p (ValueNode v)) (ShortNode q (FullNode cs))"
  obtain x y j k u w where h: "x \<noteq> y" "has no_db (FullNode cs) (x # j) u" "has no_db (FullNode cs) (y # k) w"
    by (rule full_heads [OF assms])
  then have "has no_db (ShortNode q (FullNode cs)) (q @ x # j) u" "has no_db (ShortNode q (FullNode cs)) (q @ y # k) w"
    by (auto intro: has_short)
  then have "q @ x # j = p" "q @ y # k = p" using s by (auto simp: same_def has_short_iff)
  with h(1) show False by auto
qed

text \<open>The key of an extension is the longest common prefix of the keys below it.\<close>

lemma ext_prefix:
  assumes "\<And>k w. has no_db (ShortNode p (FullNode cs)) k w \<Longrightarrow> \<exists>j. k = q @ j" "trie no_db (FullNode cs)"
  shows "\<exists>r. p = q @ r"
proof -
  obtain x y j k u w where h: "x \<noteq> y" "has no_db (FullNode cs) (x # j) u" "has no_db (FullNode cs) (y # k) w"
    by (rule full_heads [OF assms(2)])
  obtain a b where ab: "p @ x # j = q @ a" "p @ y # k = q @ b"
    using assms(1) [OF has_short [OF h(2), of p]] assms(1) [OF has_short [OF h(3), of p]] by blast
  show ?thesis
  proof (cases "length q \<le> length p")
    case True
    then have "take (length q) p = q" using arg_cong [OF ab(1), of "take (length q)"] by simp
    then show ?thesis by (metis append_take_drop_id)
  next
    case False
    then have "q ! length p = x" "q ! length p = y"
      using arg_cong [OF ab(1), of "\<lambda>l. l ! length p"] arg_cong [OF ab(2), of "\<lambda>l. l ! length p"]
      by (simp_all add: nth_append)
    then show ?thesis using h(1) by simp
  qed
qed

lemma same_prefix: "same (ShortNode p n) (ShortNode q m) \<Longrightarrow> has no_db (ShortNode p n) k w \<Longrightarrow> \<exists>j. k = q @ j"
  unfolding same_def has_short_iff [of no_db q m] by blast

lemma same_tail: "same (ShortNode p n) (ShortNode p m) \<Longrightarrow> same n m"
  unfolding same_def has_short_iff by (metis same_append_eq)

lemma ext_same:
  assumes "trie no_db (FullNode cs)" "trie no_db (FullNode ds)"
    and s: "same (ShortNode p (FullNode cs)) (ShortNode q (FullNode ds))"
  shows "p = q \<and> same (FullNode cs) (FullNode ds)"
proof -
  have "\<exists>r. p = q @ r" using same_prefix [OF s] by (rule ext_prefix [OF _ assms(1)])
  moreover have "\<exists>r. q = p @ r" using same_prefix [OF same_sym [OF s]] by (rule ext_prefix [OF _ assms(2)])
  ultimately have "p = q" by auto
  with s show ?thesis by (auto intro: same_tail)
qed

lemma full_same:
  fixes x :: byte
  assumes "same (FullNode cs) (FullNode ds)" "unat x < length cs" "length ds = length cs"
  shows "same (cs ! unat x) (ds ! unat x)"
proof -
  have h: "has no_db (FullNode es) (x # k) w \<longleftrightarrow> has no_db (es ! unat x) k w" if "unat x < length es" for es k w
    using that by (simp add: has_full_iff)
  have "has no_db (FullNode cs) (x # k) w \<longleftrightarrow> has no_db (FullNode ds) (x # k) w" for k w
    using assms(1) by (simp only: same_def)
  then show ?thesis using assms(2,3) unfolding same_def by (simp add: h)
qed

lemma same_nil: "same NilNode m \<Longrightarrow> m = NilNode \<or> trie no_db m \<Longrightarrow> m = NilNode"
  using trie_nonempty [of no_db m] by (auto simp: same_def)

lemma same_value: "same (ValueNode v) (ValueNode w) \<Longrightarrow> v = w"
  by (auto simp: same_def)

lemma trie_kinds:
  assumes "trie no_db m"
  obtains (leaf) p v where "m = ShortNode p (ValueNode v)"
  | (ext) p cs where "m = ShortNode p (FullNode cs)" "trie no_db (FullNode cs)"
  | (full) cs where "m = FullNode cs"
  using assms by (cases rule: trie.cases) (auto simp: full_no_db resolveHash_def)

lemma trie_unique_full:
  assumes t: "trie no_db (FullNode cs)" "trie no_db (FullNode ds)" and s: "same (FullNode cs) (FullNode ds)"
    and IH: "\<And>i m. i < 16 \<Longrightarrow> cs ! i \<noteq> NilNode \<Longrightarrow> trie no_db m \<Longrightarrow> same (cs ! i) m \<Longrightarrow> cs ! i = m"
  shows "cs = ds"
proof (rule nth_equalityI)
  show len: "length cs = length ds" using trie_fullD(1) [OF t(1)] trie_fullD(1) [OF t(2)] by simp
  fix i
  assume "i < length cs"
  then have i: "i < 17" using trie_fullD(1) [OF t(1)] by simp
  define x :: byte where "x = of_nat i"
  have x: "unat x = i" using i by (simp add: x_def unat_of_nat)
  have si: "same (cs ! i) (ds ! i)" by (rule full_same [OF s, of x, unfolded x, OF \<open>i < length cs\<close> len [symmetric]])
  have sl: "cs ! i = NilNode \<or> slot no_db x (cs ! i)" "ds ! i = NilNode \<or> slot no_db x (ds ! i)"
    using trie_fullD(3) [OF t(1), of x, unfolded x] trie_fullD(3) [OF t(2), of x, unfolded x] i by blast+
  show "cs ! i = ds ! i"
  proof (cases "i < 16")
    case True
    then have tr: "cs ! i = NilNode \<or> trie no_db (cs ! i)" "ds ! i = NilNode \<or> trie no_db (ds ! i)"
      using sl by (auto simp: slot_def [of no_db x, unfolded x])
    then consider "cs ! i = NilNode" | "ds ! i = NilNode" | "cs ! i \<noteq> NilNode" "trie no_db (ds ! i)" by blast
    then show ?thesis
    proof cases
      case 1
      then show ?thesis using same_nil [of "ds ! i"] si tr(2) by simp
    next
      case 2
      then show ?thesis using same_nil [of "cs ! i"] same_sym [OF si] tr(1) by simp
    next
      case 3
      then show ?thesis using IH [OF True] si by blast
    qed
  next
    case False
    then have v: "cs ! i = NilNode \<or> (\<exists>v. cs ! i = ValueNode v)" "ds ! i = NilNode \<or> (\<exists>v. ds ! i = ValueNode v)"
      using sl by (auto simp: slot_def [of no_db x, unfolded x])
    show ?thesis
    proof (cases "cs ! i = NilNode \<or> ds ! i = NilNode")
      case True
      then show ?thesis using v si by (auto simp: same_def)
    next
      case False
      then obtain a b where "cs ! i = ValueNode a" "ds ! i = ValueNode b" using v by blast
      then show ?thesis using si same_value by simp
    qed
  qed
qed

lemma trie_unique: "trie no_db n \<Longrightarrow> trie no_db m \<Longrightarrow> same n m \<Longrightarrow> n = m"
proof (induction n arbitrary: m rule: trie.induct)
  case (trie_leaf p v)
  have t: "trie no_db (ShortNode p (ValueNode v))" using trie_leaf.hyps by (rule trie.trie_leaf)
  from trie_leaf.prems(1) show ?case
  proof (cases rule: trie_kinds)
    case (leaf q w)
    then have "has no_db (ShortNode q (ValueNode w)) p v"
      using trie_leaf.prems(2) by (auto simp: same_def has_short_iff)
    then show ?thesis using leaf by (simp add: has_short_iff)
  next
    case (ext q cs)
    then show ?thesis using leaf_not_ext trie_leaf.prems(2) by blast
  next
    case (full cs)
    then show ?thesis using full_not_short [OF _ t] trie_leaf.prems same_sym by blast
  qed
next
  case (trie_ext p n)
  then obtain cs where n: "n = FullNode cs" by (auto simp: full_no_db)
  have t: "trie no_db (ShortNode p n)" using trie_ext.hyps by (rule trie.trie_ext)
  from trie_ext.prems(1) show ?case
  proof (cases rule: trie_kinds)
    case (leaf q w)
    then show ?thesis using leaf_not_ext trie_ext.hyps(2) trie_ext.prems(2) n same_sym by blast
  next
    case (ext q ds)
    then have "p = q" "same n (FullNode ds)"
      using ext_same [of cs ds p q] trie_ext.hyps(2) trie_ext.prems(2) n by auto
    then show ?thesis using trie_ext.IH ext by simp
  next
    case (full cs)
    then show ?thesis using full_not_short [OF _ t] trie_ext.prems same_sym by blast
  qed
next
  case (trie_full cs)
  have t: "trie no_db (FullNode cs)" using trie_full.hyps by (auto intro: trie.trie_full)
  from trie_full.prems(1) show ?case
  proof (cases rule: trie_kinds)
    case (leaf q w)
    then show ?thesis using full_not_short [OF t] trie_full.prems by blast
  next
    case (ext q ds)
    then show ?thesis using full_not_short [OF t] trie_full.prems by blast
  next
    case (full ds)
    then show ?thesis
      using trie_unique_full [OF t, of ds] trie_full.prems trie_full.IH by blast
  qed
next
  case (trie_hash h n)
  then show ?case by (simp add: resolveHash_def)
qed

text \<open>A trie written through the interface holds keys of whole bytes only.\<close>

definition byte_keys :: "mnode \<Rightarrow> bool" where
  "byte_keys r \<longleftrightarrow> (\<forall>k w. has no_db r k w \<longrightarrow> (\<exists>key. k = keybytesToHex key))"

lemma byte_keys_loop: "byte_keys (SetKVPair_loop no_db kvs NilNode) \<and> root_ok no_db (SetKVPair_loop no_db kvs NilNode)"
  unfolding SetKVPair_loop_def
proof (induction kvs rule: rev_induct)
  case Nil
  then show ?case by (simp add: byte_keys_def root_ok_def)
next
  case (snoc kv kvs)
  let ?r = "fold (trie_Update no_db) kvs NilNode"
  obtain r' where r': "TryUpdate no_db (fst kv) (snd kv) ?r = (None, r')" "root_ok no_db r'"
    "\<And>k w. has no_db r' k w \<longleftrightarrow> (if k = keybytesToHex (fst kv) then stored_value (snd kv) = Some w else has no_db ?r k w)"
    using TryUpdate_ok [of no_db ?r "fst kv" "snd kv"] snoc.IH by blast
  have "byte_keys r'" using snoc.IH by (auto simp: byte_keys_def r'(3))
  moreover have "trie_Update no_db kv ?r = r'" by (simp add: trie_Update_def [of no_db kv ?r] r'(1))
  ultimately show ?case using r'(2) by simp
qed

lemma content_determines:
  assumes "root_ok no_db r" "root_ok no_db r'" "byte_keys r" "byte_keys r'"
    and "\<And>k. content no_db r k = content no_db r' k"
  shows "r = r'"
proof -
  have "has no_db r k w \<longleftrightarrow> has no_db r' k w" for k w
  proof (cases "\<exists>key. k = keybytesToHex key")
    case True
    then obtain key where "k = keybytesToHex key" by blast
    then show ?thesis using content_has [OF assms(1)] content_has [OF assms(2)] assms(5) by metis
  next
    case False
    then show ?thesis using assms(3,4) by (auto simp: byte_keys_def)
  qed
  then have s: "same r r'" by (simp add: same_def)
  show ?thesis
    using assms(1,2) s same_sym [OF s] same_nil [of r'] same_nil [of r] trie_unique [of r r']
    by (auto simp: root_ok_def)
qed

section \<open>Properties\<close>

text \<open>
  C4. The trie is a map: on a well-formed trie, whatever part of it is still in the database,
  \<open>TryUpdate\<close> succeeds, keeps the trie well formed, and afterwards \<open>TryGet\<close> returns the new value
  for the key (nothing when it was deleted by an empty value) and the old one for every other key.
\<close>

theorem mpt_update_get:
  assumes "root_ok db root"
  shows "\<exists>root'. TryUpdate db key value root = (None, root') \<and> root_ok db root' \<and>
    (\<forall>k. \<exists>old. fst (TryGet db k root) = Inr old \<and>
       fst (TryGet db k root') = Inr (if k = key then (if value = [] then None else Some value) else old))"
proof -
  obtain root' where r: "TryUpdate db key value root = (None, root')" "root_ok db root'"
    using TryUpdate_ok [OF assms] by blast
  have r': "root' = trie_Update db (key, value) root" using r(1) by (simp add: trie_Update_def)
  have get: "fst (TryGet db k t) = Inr (content db t k)" if "root_ok db t" for k t
    using TryGet_ok [OF that, of k] by (auto simp: content_def)
  show ?thesis
    using r get [OF assms] get [OF r(2)] mpt.get_put [OF assms, of "(key, value)"]
    by (auto simp: r' stored_value_def)
qed

theorem mpt_update_get_witness:
  "\<exists>root'. TryUpdate no_db [1, 2] [7] NilNode = (None, root') \<and> fst (TryGet no_db [1, 2] root') = Inr (Some [7])"
proof -
  have "root_ok no_db NilNode" by (simp add: root_ok_def)
  from mpt_update_get [OF this, of "[1, 2]" "[7]"] obtain root' where
      u: "TryUpdate no_db [1, 2] [7] NilNode = (None, root')" and
      g: "\<forall>k. \<exists>old. fst (TryGet no_db k NilNode) = Inr old \<and>
       fst (TryGet no_db k root') = Inr (if k = [1, 2] then (if [7 :: byte] = [] then None else Some [7]) else old)"
    by blast
  from g [THEN spec, of "[1, 2]"] have "fst (TryGet no_db [1, 2] root') = Inr (Some [7])" by simp
  with u show ?thesis by (intro exI conjI)
qed

text \<open>
  C14. The trie does not remember its history: two sequences of writes into an empty trie that
  leave the same values under all keys build the same trie, node by node. The root hash, which
  is computed from the nodes, is then the same on every node of the network.
\<close>

theorem mpt_history_independent:
  assumes "\<And>k. (case map_of (rev kvs) k of None \<Rightarrow> None | Some v \<Rightarrow> stored_value v) =
    (case map_of (rev kvs') k of None \<Rightarrow> None | Some v \<Rightarrow> stored_value v)"
  shows "SetKVPair_loop no_db kvs NilNode = SetKVPair_loop no_db kvs' NilNode"
proof -
  have nil: "root_ok no_db NilNode" "\<And>k. content no_db NilNode k = None"
    by (simp_all add: root_ok_def content_def TryGet_def mpt_fuel_def)
  have "content no_db (SetKVPair_loop no_db kvs NilNode) k = content no_db (SetKVPair_loop no_db kvs' NilNode) k" for k
    unfolding SetKVPair_loop_def mpt.get_puts [OF nil(1)] nil(2) by (rule assms)
  then show ?thesis
    using byte_keys_loop by (intro content_determines) blast+
qed

theorem mpt_history_independent_witness:
  "SetKVPair_loop no_db [([1], [5]), ([2], [6]), ([3], [7]), ([3], [])] NilNode =
   SetKVPair_loop no_db [([2], [6]), ([1], [4]), ([1], [5])] NilNode"
  by (rule mpt_history_independent) (simp add: stored_value_def)



text \<open>
  C16. The walks over the trie end: on a well-formed trie the recursions behind \<open>TryGet\<close>, \<open>TryUpdate\<close> and
  \<open>TryDelete\<close> make at most two calls for each nibble of the key and two more. With that much fuel or more they
  return a result, and the lookup the value that \<open>TryGet\<close> returns.
\<close>

theorem mpt_walks_end:
  assumes "trie db root" and "mpt_fuel (keybytesToHex key) \<le> f" and "value \<noteq> []"
  shows "(\<exists>v n b. tryGet f db root (keybytesToHex key) 0 = Inr (v, n, b) \<and> fst (TryGet db key root) = Inr v)
    \<and> (\<exists>d n. insert_node f db root [] (keybytesToHex key) (ValueNode value) = Inr (d, n))
    \<and> (\<exists>d n. delete_node f db root [] (keybytesToHex key) = Inr (d, n))"
proof -
  have fuel: "fuel_ok f root (length (keybytesToHex key))"
    using assms(2) by (auto simp: fuel_ok_def mpt_fuel_def)
  have g: "got db root (keybytesToHex key) (tryGet f db root (keybytesToHex key) 0)"
    using tryGet_correct [OF assms(1), of 0 "keybytesToHex key" f] fuel full_key_hex by simp
  obtain v root' where v: "TryGet db key root = (Inr v, root')" "\<forall>w. v = Some w \<longleftrightarrow> has db root (keybytesToHex key) w"
    using TryGet_ok [of db root key] assms(1) by (auto simp: root_ok_def)
  then have "\<exists>n b. tryGet f db root (keybytesToHex key) 0 = Inr (v, n, b)"
    using g by (cases v) (fastforce simp: got_def)+
  then show ?thesis
    using v(1) insert_correct [OF assms(1) full_key_hex assms(3) fuel, of "[]"] delete_correct [OF assms(1) full_key_hex fuel, of "[]"]
    by (auto simp: put_ok_def del_ok_def)
qed

theorem mpt_walks_end_witness:
  "\<exists>v n b. tryGet 50 no_db (ShortNode (keybytesToHex [1, 2]) (ValueNode [7])) (keybytesToHex [1, 3]) 0 = Inr (v, n, b)"
proof -
  have "trie no_db (ShortNode (keybytesToHex [1, 2]) (ValueNode [7]))"
    by (intro trie_leaf) simp_all
  moreover have "mpt_fuel (keybytesToHex [1, 3]) \<le> 50"
    by (simp add: mpt_fuel_def keybytesToHex_def)
  ultimately show ?thesis
    using mpt_walks_end [of no_db "ShortNode (keybytesToHex [1, 2]) (ValueNode [7])" "[1, 3]" 50 "[7]"] by auto
qed

end
