(* ===== verification/TmTypes.thy ===== *)
theory TmTypes
  imports Prelude "HOL-Library.Char_ord" "HOL-Library.List_Lexorder"
begin

text \<open>
  The messages of the Tendermint plugin and what is signed of them:
  \<open>plugin/consensus/tendermint/types\<close> (\<open>signable.go\<close>, \<open>round_state.go\<close>, \<open>evidence.go\<close>, the commit
  of \<open>block.go\<close>). The bytes to sign are the JSON text of a canonical struct; the model keeps the
  struct, which the text determines, and the time stamp as the milliseconds the text shows. The
  signature scheme (\<open>ConsensusCrypto\<close>) and the hash \<open>Ripemd160\<close> are parameters.
\<close>

section \<open>Definitions\<close>

text \<open>\<open>signable.go\<close>, the errors of votes, and the errors made on the spot.\<close>

datatype tm_err =
    ErrVoteUnexpectedStep | ErrVoteInvalidValidatorIndex | ErrVoteInvalidValidatorAddress
  | ErrVoteInvalidSignature | ErrVoteNonDeterministicSignature | ErrVoteNil
  | ErrPubKeyFromBytes | ErrSignatureFromBytes | ErrSigner
  | Err_WrongSetSize | Err_WrongHeight | Err_WrongRound | Err_NotPrecommit | Err_InsufficientPower
  | Err_InsufficientOldPower | Err_InsufficientCurPower
  | Err_HeightRegression | Err_RoundRegression | Err_StepRegression | Err_NoLastSignature
  | Err_ConflictingData | Err_PeerCatchup
  | Err_HRSDiffer | Err_AddressDiffer | Err_IndexDiffer | Err_SameBlock
  | Err_NilBlock | Err_NoPrecommits
  | Err_NegativePower | Err_ThirdChanged | Err_AddFailed | Err_RemoveFailed | Err_UpdateFailed
  | TmExit | TmPanic

text \<open>\<open>ConsensusCrypto\<close> and \<open>crypto.Ripemd160\<close>.\<close>

datatype sign_bytes =
    SB_Vote string bytes int int int nat
  | SB_Proposal string int int bytes int int
  | SB_Heartbeat string int int int bytes int

record ('pub, 'sig) crypto =
  PubKeyFromBytes :: "bytes \<Rightarrow> 'pub option"
  SignatureFromBytes :: "bytes \<Rightarrow> 'sig option"
  pub_Bytes :: "'pub \<Rightarrow> bytes"
  sig_Bytes :: "'sig \<Rightarrow> bytes"
  VerifyBytes :: "'pub \<Rightarrow> sign_bytes \<Rightarrow> 'sig \<Rightarrow> bool"
  pub_Equals :: "'pub \<Rightarrow> 'pub \<Rightarrow> bool"
  Ripemd160 :: "bytes \<Rightarrow> bytes"

text \<open>A \<open>BlockID\<close> is its hash; a zero one has an empty hash.\<close>

type_synonym blockID = bytes

definition bid_IsZero :: "blockID \<Rightarrow> bool" where
  "bid_IsZero b \<longleftrightarrow> length b = 0"

definition bid_Equals :: "blockID \<Rightarrow> blockID \<Rightarrow> bool" where
  "bid_Equals a b \<longleftrightarrow> a = b"

definition bid_Key :: "blockID \<Rightarrow> string" where
  "bid_Key b = b"

definition VoteTypePrevote :: nat where "VoteTypePrevote = 1"
definition VoteTypePrecommit :: nat where "VoteTypePrecommit = 2"

definition IsVoteTypeValid :: "nat \<Rightarrow> bool" where
  "IsVoteTypeValid t \<longleftrightarrow> t = VoteTypePrevote \<or> t = VoteTypePrecommit"

text \<open>The conversion \<open>byte(vote.Type)\<close> of a 32-bit type.\<close>

definition to_byte :: "nat \<Rightarrow> nat" where
  "to_byte t = t mod 256"

text \<open>The conversion \<open>int32(i)\<close>.\<close>

definition to_int32 :: "int \<Rightarrow> int" where
  "to_int32 i = (i + 2 ^ 31) mod 2 ^ 32 - 2 ^ 31"

record vote =
  v_ValidatorAddress :: bytes
  v_ValidatorIndex :: int
  v_Height :: int
  v_Round :: int
  v_Timestamp :: int
  v_Type :: nat
  v_BlockID :: blockID
  v_Signature :: bytes

definition empty_vote :: vote where
  "empty_vote = \<lparr>v_ValidatorAddress = [], v_ValidatorIndex = 0, v_Height = 0, v_Round = 0,
     v_Timestamp = 0, v_Type = 0, v_BlockID = [], v_Signature = []\<rparr>"

record proposal =
  p_Height :: int
  p_Round :: int
  p_Timestamp :: int
  p_POLRound :: int
  p_POLBlockID :: blockID
  p_Signature :: bytes
  p_Blockhash :: bytes

record heartbeat =
  hb_ValidatorAddress :: bytes
  hb_ValidatorIndex :: int
  hb_Height :: int
  hb_Round :: int
  hb_Sequence :: int
  hb_Signature :: bytes

definition NewProposal :: "int \<Rightarrow> int \<Rightarrow> int \<Rightarrow> bytes \<Rightarrow> int \<Rightarrow> blockID \<Rightarrow> proposal" where
  "NewProposal now h r blockhash polRound polBlockID =
     \<lparr>p_Height = h, p_Round = to_int32 r, p_Timestamp = now, p_POLRound = to_int32 polRound,
      p_POLBlockID = polBlockID, p_Signature = [], p_Blockhash = blockhash\<rparr>"

definition CanonicalTime :: "int \<Rightarrow> int" where
  "CanonicalTime t = t div 1000000"

definition SignBytes_vote :: "string \<Rightarrow> vote \<Rightarrow> sign_bytes" where
  "SignBytes_vote chainID v =
     SB_Vote chainID (v_BlockID v) (v_Height v) (v_Round v) (CanonicalTime (v_Timestamp v)) (to_byte (v_Type v))"

definition SignBytes_proposal :: "string \<Rightarrow> proposal \<Rightarrow> sign_bytes" where
  "SignBytes_proposal chainID p =
     SB_Proposal chainID (p_Height p) (CanonicalTime (p_Timestamp p)) (p_POLBlockID p) (p_POLRound p) (p_Round p)"

definition SignBytes_heartbeat :: "string \<Rightarrow> heartbeat \<Rightarrow> sign_bytes" where
  "SignBytes_heartbeat chainID h =
     SB_Heartbeat chainID (hb_Height h) (hb_Round h) (hb_Sequence h) (hb_ValidatorAddress h) (hb_ValidatorIndex h)"

definition GenAddressByPubKey :: "('pub, 'sig) crypto \<Rightarrow> 'pub \<Rightarrow> bytes" where
  "GenAddressByPubKey C pubkey = Ripemd160 C ([CHR 0x01, CHR 0x01, CHR 0x20] @ pub_Bytes C pubkey)"

definition vote_Verify :: "('pub, 'sig) crypto \<Rightarrow> string \<Rightarrow> vote \<Rightarrow> 'pub \<Rightarrow> tm_err + unit" where
  "vote_Verify C chainID v pubKey =
     (if GenAddressByPubKey C pubKey \<noteq> v_ValidatorAddress v then Inl ErrVoteInvalidValidatorAddress
      else case SignatureFromBytes C (v_Signature v) of
             None \<Rightarrow> Inl ErrSignatureFromBytes
           | Some sig \<Rightarrow>
               if \<not> VerifyBytes C pubKey (SignBytes_vote chainID v) sig then Inl ErrVoteInvalidSignature
               else Inr ())"

text \<open>\<open>fmt.Sprintf("%X", bytes)\<close> and \<open>hex.DecodeString\<close>.\<close>

definition hex_digit :: "nat \<Rightarrow> char" where
  "hex_digit n = (if n < 10 then char_of (48 + n) else char_of (55 + n))"

definition fromHexChar :: "char \<Rightarrow> nat option" where
  "fromHexChar c =
     (let n = of_char c :: nat in
      if 48 \<le> n \<and> n \<le> 57 then Some (n - 48)
      else if 97 \<le> n \<and> n \<le> 102 then Some (n - 97 + 10)
      else if 65 \<le> n \<and> n \<le> 70 then Some (n - 65 + 10)
      else None)"

fun hex_encode :: "bytes \<Rightarrow> string" where
  "hex_encode [] = []"
| "hex_encode (c # cs) = hex_digit (of_char c div 16) # hex_digit (of_char c mod 16) # hex_encode cs"

fun hex_DecodeString :: "string \<Rightarrow> bytes option" where
  "hex_DecodeString [] = Some []"
| "hex_DecodeString [_] = None"
| "hex_DecodeString (a # b # cs) =
     (case (fromHexChar a, fromHexChar b) of
        (Some x, Some y) \<Rightarrow> map_option (\<lambda>r. char_of (16 * x + y) # r) (hex_DecodeString cs)
      | _ \<Rightarrow> None)"

definition PubKeyFromString :: "('pub, 'sig) crypto \<Rightarrow> string \<Rightarrow> 'pub option" where
  "PubKeyFromString C s = Option.bind (hex_DecodeString s) (PubKeyFromBytes C)"

text \<open>\<open>evidence.go\<close>, the proof that a validator signed two votes.\<close>

record DuplicateVoteEvidence =
  dve_PubKey :: string
  dve_VoteA :: vote
  dve_VoteB :: vote

definition dve_Height :: "DuplicateVoteEvidence \<Rightarrow> int" where
  "dve_Height d = v_Height (dve_VoteA d)"

definition dve_Index :: "DuplicateVoteEvidence \<Rightarrow> int" where
  "dve_Index d = v_ValidatorIndex (dve_VoteA d)"

definition dve_Address :: "('pub, 'sig) crypto \<Rightarrow> DuplicateVoteEvidence \<Rightarrow> bytes" where
  "dve_Address C d =
     (case PubKeyFromString C (dve_PubKey d) of None \<Rightarrow> [] | Some k \<Rightarrow> GenAddressByPubKey C k)"

definition dve_Verify :: "('pub, 'sig) crypto \<Rightarrow> string \<Rightarrow> DuplicateVoteEvidence \<Rightarrow> tm_err + unit" where
  "dve_Verify C chainID d =
     (let a = dve_VoteA d; b = dve_VoteB d in
      if v_Height a \<noteq> v_Height b \<or> v_Round a \<noteq> v_Round b \<or> v_Type a \<noteq> v_Type b then Inl Err_HRSDiffer
      else if v_ValidatorAddress a \<noteq> v_ValidatorAddress b then Inl Err_AddressDiffer
      else if v_ValidatorIndex a \<noteq> v_ValidatorIndex b then Inl Err_IndexDiffer
      else if bid_Equals (v_BlockID a) (v_BlockID b) then Inl Err_SameBlock
      else case PubKeyFromString C (dve_PubKey d) of
        None \<Rightarrow> Inl ErrPubKeyFromBytes
      | Some pubkey \<Rightarrow>
          (case SignatureFromBytes C (v_Signature a) of
             None \<Rightarrow> Inl ErrSignatureFromBytes
           | Some sigA \<Rightarrow>
               (case SignatureFromBytes C (v_Signature b) of
                  None \<Rightarrow> Inl ErrSignatureFromBytes
                | Some sigB \<Rightarrow>
                    if \<not> VerifyBytes C pubkey (SignBytes_vote chainID a) sigA then Inl ErrVoteInvalidSignature
                    else if \<not> VerifyBytes C pubkey (SignBytes_vote chainID b) sigB then Inl ErrVoteInvalidSignature
                    else Inr ())))"

text \<open>
  \<open>block.go\<close>, the commit. A missing precommit is nil (\<open>None\<close>) or a vote without a signature. The
  cached first precommit is the one the loop finds, as the precommits never change.
\<close>

record commit =
  c_BlockID :: blockID
  c_Precommits :: "vote option list"

definition has_sig :: "vote option \<Rightarrow> bool" where
  "has_sig p \<longleftrightarrow> (case p of None \<Rightarrow> False | Some v \<Rightarrow> length (v_Signature v) > 0)"

definition FirstPrecommit :: "commit \<Rightarrow> vote option" where
  "FirstPrecommit c = (case filter has_sig (c_Precommits c) of [] \<Rightarrow> None | p # _ \<Rightarrow> p)"

definition commit_Height :: "commit \<Rightarrow> tm_err + int" where
  "commit_Height c =
     (if c_Precommits c = [] then Inr 0
      else case FirstPrecommit c of None \<Rightarrow> Inl TmPanic | Some v \<Rightarrow> Inr (v_Height v))"

definition commit_Round :: "commit \<Rightarrow> tm_err + int" where
  "commit_Round c =
     (if c_Precommits c = [] then Inr 0
      else case FirstPrecommit c of None \<Rightarrow> Inl TmPanic | Some v \<Rightarrow> Inr (v_Round v))"

fun validate_precommits :: "int \<Rightarrow> int \<Rightarrow> vote option list \<Rightarrow> tm_err + unit" where
  "validate_precommits h r [] = Inr ()"
| "validate_precommits h r (None # ps) = validate_precommits h r ps"
| "validate_precommits h r (Some v # ps) =
     (if to_byte (v_Type v) \<noteq> VoteTypePrecommit then Inl Err_NotPrecommit
      else if v_Height v \<noteq> h then Inl Err_WrongHeight
      else if v_Round v \<noteq> r then Inl Err_WrongRound
      else validate_precommits h r ps)"

definition commit_ValidateBasic :: "commit \<Rightarrow> tm_err + unit" where
  "commit_ValidateBasic c =
     (if bid_IsZero (c_BlockID c) then Inl Err_NilBlock
      else if c_Precommits c = [] then Inl Err_NoPrecommits
      else case (commit_Height c, commit_Round c) of
        (Inr h, Inr r) \<Rightarrow> validate_precommits h r (c_Precommits c)
      | _ \<Rightarrow> Inl TmPanic)"

section \<open>Hexadecimal text\<close>

lemma fromHexChar_digit: "n < 16 \<Longrightarrow> fromHexChar (hex_digit n) = Some n"
  by (auto simp: fromHexChar_def hex_digit_def Let_def)

lemma hex_decode_encode: "hex_DecodeString (hex_encode bs) = Some bs"
proof (induction bs)
  case (Cons c cs)
  have "(of_char c :: nat) < 256"
    by (metis of_char_mod_256 mod_less_divisor zero_less_numeral)
  then have "(of_char c :: nat) div 16 < 16" "(of_char c :: nat) mod 16 < 16"
    by (simp_all add: div_less_iff_less_mult)
  then show ?case
    using Cons by (simp add: fromHexChar_digit)
qed simp

end
