(* ===== verification/GoHeap.thy ===== *)
theory GoHeap
  imports Prelude "HOL-Library.Multiset"
begin

text \<open>
  The priority queue of the Tendermint plugin (\<open>plugin/consensus/tendermint/types/util.go\<close>) with the
  algorithms of Go's \<open>container/heap\<close> it is built on. Items carry their position as the source
  keeps it. The order is a parameter: \<open>lt a b\<close> means that \<open>a\<close> comes out before \<open>b\<close>.
\<close>

section \<open>Definitions\<close>

record 'a pqItem =
  pq_value :: 'a
  pq_index :: nat

type_synonym 'a priorityQueue = "'a pqItem list"

definition pq_Less :: "('a \<Rightarrow> 'a \<Rightarrow> bool) \<Rightarrow> 'a priorityQueue \<Rightarrow> nat \<Rightarrow> nat \<Rightarrow> bool" where
  "pq_Less lt pq i j = lt (pq_value (pq ! i)) (pq_value (pq ! j))"

definition pq_Swap :: "'a priorityQueue \<Rightarrow> nat \<Rightarrow> nat \<Rightarrow> 'a priorityQueue" where
  "pq_Swap pq i j = pq[i := (pq ! j)\<lparr>pq_index := i\<rparr>, j := (pq ! i)\<lparr>pq_index := j\<rparr>]"

definition pq_Push :: "'a priorityQueue \<Rightarrow> 'a \<Rightarrow> 'a priorityQueue" where
  "pq_Push pq x = pq @ [\<lparr>pq_value = x, pq_index = length pq\<rparr>]"

text \<open>\<open>up\<close>, \<open>down\<close> and \<open>Fix\<close> of \<open>container/heap\<close>.\<close>

function heap_up :: "('a \<Rightarrow> 'a \<Rightarrow> bool) \<Rightarrow> 'a priorityQueue \<Rightarrow> nat \<Rightarrow> 'a priorityQueue" where
  "heap_up lt pq j =
     (let i = (j - 1) div 2 in
      if i = j \<or> \<not> pq_Less lt pq j i then pq else heap_up lt (pq_Swap pq i j) i)"
  by pat_completeness auto
termination
  by (relation "measure (\<lambda>(lt, pq, j). j)") auto

function heap_down :: "('a \<Rightarrow> 'a \<Rightarrow> bool) \<Rightarrow> 'a priorityQueue \<Rightarrow> nat \<Rightarrow> nat \<Rightarrow> nat \<times> 'a priorityQueue" where
  "heap_down lt pq i n =
     (let j1 = 2 * i + 1 in
      if j1 \<ge> n then (i, pq)
      else let j2 = j1 + 1; j = (if j2 < n \<and> pq_Less lt pq j2 j1 then j2 else j1) in
           if \<not> pq_Less lt pq j i then (i, pq) else heap_down lt (pq_Swap pq i j) j n)"
  by pat_completeness auto
termination
  by (relation "measure (\<lambda>(lt, pq, i, n). n - i)") auto

declare heap_up.simps [simp del] heap_down.simps [simp del]

definition heap_Fix :: "('a \<Rightarrow> 'a \<Rightarrow> bool) \<Rightarrow> 'a priorityQueue \<Rightarrow> nat \<Rightarrow> 'a priorityQueue" where
  "heap_Fix lt pq i =
     (case heap_down lt pq i (length pq) of (i', pq') \<Rightarrow> if i' > i then pq' else heap_up lt pq' i)"

text \<open>The heap of the plugin. \<open>Update\<close> always replaces the first item.\<close>

definition Heap_Push :: "('a \<Rightarrow> 'a \<Rightarrow> bool) \<Rightarrow> 'a priorityQueue \<Rightarrow> 'a \<Rightarrow> 'a priorityQueue" where
  "Heap_Push lt pq x = heap_up lt (pq_Push pq x) (length pq)"

definition Heap_Peek :: "'a priorityQueue \<Rightarrow> 'a option" where
  "Heap_Peek pq = (if length pq = 0 then None else Some (pq_value (pq ! 0)))"

definition Heap_Update :: "('a \<Rightarrow> 'a \<Rightarrow> bool) \<Rightarrow> 'a priorityQueue \<Rightarrow> 'a \<Rightarrow> 'a priorityQueue" where
  "Heap_Update lt pq x = heap_Fix lt (pq[0 := (pq ! 0)\<lparr>pq_value := x\<rparr>]) (pq_index (pq ! 0))"

definition Heap_Pop :: "('a \<Rightarrow> 'a \<Rightarrow> bool) \<Rightarrow> 'a priorityQueue \<Rightarrow> ('a \<times> 'a priorityQueue) option" where
  "Heap_Pop lt pq =
     (if length pq = 0 then None
      else let n = length pq - 1; pq' = snd (heap_down lt (pq_Swap pq 0 n) 0 n)
           in Some (pq_value (pq' ! n), take n pq'))"

section \<open>The heap order\<close>

definition pq_vals :: "'a priorityQueue \<Rightarrow> 'a list" where
  "pq_vals pq = map pq_value pq"

definition idx_ok :: "'a priorityQueue \<Rightarrow> bool" where
  "idx_ok pq \<longleftrightarrow> (\<forall>k < length pq. pq_index (pq ! k) = k)"

abbreviation parent :: "nat \<Rightarrow> nat" where
  "parent m \<equiv> (m - 1) div 2"

lemma parent_less: "0 < m \<Longrightarrow> parent m < m"
  by simp

definition heapy :: "('a \<Rightarrow> 'a \<Rightarrow> bool) \<Rightarrow> 'a priorityQueue \<Rightarrow> nat \<Rightarrow> bool" where
  "heapy lt pq n \<longleftrightarrow> (\<forall>m < n. 0 < m \<longrightarrow> \<not> pq_Less lt pq m (parent m))"

text \<open>A heap but for the edge above \<open>j\<close>, and a heap but for the edges below \<open>i\<close>.\<close>

definition heapy_up :: "('a \<Rightarrow> 'a \<Rightarrow> bool) \<Rightarrow> 'a priorityQueue \<Rightarrow> nat \<Rightarrow> nat \<Rightarrow> bool" where
  "heapy_up lt pq j n \<longleftrightarrow>
     (\<forall>m < n. 0 < m \<longrightarrow> m \<noteq> j \<longrightarrow> \<not> pq_Less lt pq m (parent m)) \<and>
     (\<forall>m < n. 0 < m \<longrightarrow> parent m = j \<longrightarrow> 0 < j \<longrightarrow> \<not> pq_Less lt pq m (parent j))"

definition heapy_down :: "('a \<Rightarrow> 'a \<Rightarrow> bool) \<Rightarrow> 'a priorityQueue \<Rightarrow> nat \<Rightarrow> nat \<Rightarrow> bool" where
  "heapy_down lt pq i n \<longleftrightarrow>
     (\<forall>m < n. 0 < m \<longrightarrow> parent m \<noteq> i \<longrightarrow> \<not> pq_Less lt pq m (parent m)) \<and>
     (\<forall>m < n. 0 < m \<longrightarrow> parent m = i \<longrightarrow> 0 < i \<longrightarrow> \<not> pq_Less lt pq m (parent i))"

lemma pq_Swap_length [simp]: "length (pq_Swap pq i j) = length pq"
  by (simp add: pq_Swap_def)

lemma pq_Swap_nth:
  assumes "i < length pq" and "j < length pq" and "i \<noteq> j" and "k < length pq"
  shows "pq_value (pq_Swap pq i j ! k) = pq_value (pq ! (if k = i then j else if k = j then i else k))"
  using assms by (simp add: pq_Swap_def nth_list_update)

lemma pq_Swap_Less:
  assumes "i < length pq" and "j < length pq" and "i \<noteq> j" and "k < length pq" and "l < length pq"
  shows "pq_Less lt (pq_Swap pq i j) k l = pq_Less lt pq (if k = i then j else if k = j then i else k)
    (if l = i then j else if l = j then i else l)"
  using assms by (simp add: pq_Less_def pq_Swap_nth)

lemma pq_Swap_idx: "idx_ok pq \<Longrightarrow> i < length pq \<Longrightarrow> j < length pq \<Longrightarrow> idx_ok (pq_Swap pq i j)"
  by (simp add: idx_ok_def pq_Swap_def nth_list_update)

lemma pq_Swap_mset:
  assumes "i < length pq" and "j < length pq"
  shows "mset (pq_vals (pq_Swap pq i j)) = mset (pq_vals pq)"
proof -
  have "pq_vals (pq_Swap pq i j) = (pq_vals pq)[i := pq_vals pq ! j, j := pq_vals pq ! i]"
    using assms by (simp add: pq_vals_def pq_Swap_def map_update)
  then show ?thesis
    using assms mset_swap [of j "pq_vals pq" i] by (simp add: pq_vals_def)
qed

text \<open>
  The contract of an order for a heap: a strict weak order on the values. What the heap
  algorithms keep is proved once under it.
\<close>

locale heap_order =
  fixes lt :: "'a \<Rightarrow> 'a \<Rightarrow> bool"
  assumes lt_asym: "lt a b \<Longrightarrow> \<not> lt b a"
    and lt_neg_trans: "\<not> lt a b \<Longrightarrow> \<not> lt b c \<Longrightarrow> \<not> lt a c"
begin

lemma Less_asym: "pq_Less lt pq i j \<Longrightarrow> \<not> pq_Less lt pq j i"
  unfolding pq_Less_def by (rule lt_asym)

lemma Less_neg_trans: "\<not> pq_Less lt pq i j \<Longrightarrow> \<not> pq_Less lt pq j k \<Longrightarrow> \<not> pq_Less lt pq i k"
  unfolding pq_Less_def by (rule lt_neg_trans)

lemma up_swap:
  assumes h: "heapy_up lt pq j n" and n: "n \<le> length pq" "j < n" and j: "0 < j" "pq_Less lt pq j (parent j)"
  shows "heapy_up lt (pq_Swap pq (parent j) j) (parent j) n"
proof -
  let ?i = "parent j" and ?q = "pq_Swap pq (parent j) j"
  have i: "?i < j" "?i < length pq" "j < length pq" "?i \<noteq> j"
    using n j by auto
  have e: "\<not> pq_Less lt pq m (parent m)" if "m < n" "0 < m" "m \<noteq> j" for m
    using h that by (simp add: heapy_up_def)
  have c: "\<not> pq_Less lt pq m ?i" if "m < n" "0 < m" "parent m = j" for m
    using h j that by (simp add: heapy_up_def)
  have s: "pq_Less lt ?q k l = pq_Less lt pq (if k = ?i then j else if k = j then ?i else k)
      (if l = ?i then j else if l = j then ?i else l)" if "k < n" "l < n" for k l
    using pq_Swap_Less [OF i(2,3,4), of k l lt] that n(1) by simp
  have "\<not> pq_Less lt ?q m (parent m)" if m: "m < n" "0 < m" "m \<noteq> ?i" for m
  proof -
    have p: "parent m < n" "parent m \<noteq> m"
      using m by auto
    consider "m = j" | "m \<noteq> j" "parent m = ?i" | "m \<noteq> j" "parent m = j" | "m \<noteq> j" "parent m \<noteq> ?i" "parent m \<noteq> j"
      by blast
    then show ?thesis
    proof cases
      case 1
      then show ?thesis
        using s [of m "parent m"] m p Less_asym [OF j(2)] i(4) by simp
    next
      case 2
      then show ?thesis
        using s [of m "parent m"] m p e [of m] Less_neg_trans [of pq m ?i j] Less_asym [OF j(2)] by auto
    next
      case 3
      then show ?thesis
        using s [of m "parent m"] m p c [of m] i(4) by auto
    next
      case 4
      then show ?thesis
        using s [of m "parent m"] m p e [of m] by auto
    qed
  qed
  moreover have "\<not> pq_Less lt ?q m (parent ?i)" if m: "m < n" "0 < m" "parent m = ?i" "0 < ?i" for m
  proof -
    have p: "parent ?i < ?i" "parent ?i < n"
      using parent_less [OF m(4)] i n by linarith+
    have pi: "\<not> pq_Less lt pq ?i (parent ?i)"
      using e [of ?i] m i n by simp
    show ?thesis
    proof (cases "m = j")
      case True
      then show ?thesis
        using s [of m "parent ?i"] m p pi i by auto
    next
      case False
      then have "\<not> pq_Less lt pq m ?i"
        using e [OF m(1,2)] m(3) by metis
      then have "\<not> pq_Less lt pq m (parent ?i)"
        using pi by (rule Less_neg_trans)
      moreover have "m \<noteq> ?i" "parent ?i \<noteq> ?i" "parent ?i \<noteq> j"
        using m(2,3) p i(1) parent_less [OF m(2)] by linarith+
      ultimately show ?thesis
        using s [OF m(1) p(2)] False by (simp only: if_False not_False_eq_True)
    qed
  qed
  ultimately show ?thesis
    by (simp add: heapy_up_def)
qed

lemma up_heapy:
  assumes "heapy_up lt pq j n" and "n \<le> length pq" and "j < n"
  shows "heapy lt (heap_up lt pq j) n"
  using assms
proof (induction j arbitrary: pq rule: less_induct)
  case (less j)
  show ?case
  proof (cases "j = 0 \<or> \<not> pq_Less lt pq j (parent j)")
    case True
    then have "heap_up lt pq j = pq"
      by (subst heap_up.simps) (auto simp: Let_def)
    then show ?thesis
      using True less.prems by (auto simp: heapy_def heapy_up_def)
  next
    case False
    then have "heap_up lt pq j = heap_up lt (pq_Swap pq (parent j) j) (parent j)"
      using parent_less [of j] by (subst heap_up.simps) (simp add: Let_def)
    then show ?thesis
      using less.IH [of "parent j" "pq_Swap pq (parent j) j"] less.prems False parent_less [of j]
        up_swap [of pq j n] by simp
  qed
qed

end

definition pq_keeps :: "'a priorityQueue \<Rightarrow> 'a priorityQueue \<Rightarrow> bool" where
  "pq_keeps pq q \<longleftrightarrow> length q = length pq \<and> mset (pq_vals q) = mset (pq_vals pq) \<and> (idx_ok pq \<longrightarrow> idx_ok q)"

lemma pq_keeps_refl: "pq_keeps pq pq"
  by (simp add: pq_keeps_def)

lemma pq_keeps_swap: "pq_keeps (pq_Swap pq i j) q \<Longrightarrow> i < length pq \<Longrightarrow> j < length pq \<Longrightarrow> pq_keeps pq q"
  using pq_Swap_mset [of i pq j] pq_Swap_idx [of pq i j] by (simp add: pq_keeps_def)

lemma up_keeps: "j < length pq \<Longrightarrow> pq_keeps pq (heap_up lt pq j)"
proof (induction j arbitrary: pq rule: less_induct)
  case (less j)
  show ?case
  proof (cases "parent j = j \<or> \<not> pq_Less lt pq j (parent j)")
    case True
    then have "heap_up lt pq j = pq"
      by (subst heap_up.simps) (simp add: Let_def)
    then show ?thesis
      by (simp add: pq_keeps_refl)
  next
    case False
    then have "heap_up lt pq j = heap_up lt (pq_Swap pq (parent j) j) (parent j)"
      by (subst heap_up.simps) (simp add: Let_def)
    moreover have "parent j < j"
      using False by (cases "j = 0") simp_all
    ultimately show ?thesis
      using less.IH [of "parent j" "pq_Swap pq (parent j) j"] less.prems
        pq_keeps_swap [of pq "parent j" j] by simp
  qed
qed

text \<open>One step of \<open>down\<close>: the child that is swapped with \<open>i\<close>.\<close>

definition down_child :: "('a \<Rightarrow> 'a \<Rightarrow> bool) \<Rightarrow> 'a priorityQueue \<Rightarrow> nat \<Rightarrow> nat \<Rightarrow> nat" where
  "down_child lt pq i n = (if 2 * i + 1 + 1 < n \<and> pq_Less lt pq (2 * i + 1 + 1) (2 * i + 1) then 2 * i + 1 + 1 else 2 * i + 1)"

lemma heap_down_unfold:
  "heap_down lt pq i n =
     (if 2 * i + 1 \<ge> n then (i, pq)
      else if \<not> pq_Less lt pq (down_child lt pq i n) i then (i, pq)
      else heap_down lt (pq_Swap pq i (down_child lt pq i n)) (down_child lt pq i n) n)"
  unfolding down_child_def by (subst heap_down.simps) (simp only: Let_def)

lemma heap_down_stop:
  "n \<le> 2 * i + 1 \<or> \<not> pq_Less lt pq (down_child lt pq i n) i \<Longrightarrow> heap_down lt pq i n = (i, pq)"
  by (subst heap_down_unfold) auto

lemma heap_down_step:
  assumes "2 * i + 1 < n" and "pq_Less lt pq (down_child lt pq i n) i"
  shows "heap_down lt pq i n = heap_down lt (pq_Swap pq i (down_child lt pq i n)) (down_child lt pq i n) n"
  using assms by (subst heap_down_unfold) simp

lemma down_child_bounds:
  assumes "2 * i + 1 < n"
  shows "i < down_child lt pq i n" and "down_child lt pq i n < n" and "parent (down_child lt pq i n) = i"
  using assms by (auto simp: down_child_def)

lemma down_cases:
  obtains (stop) "n \<le> 2 * i + 1 \<or> \<not> pq_Less lt pq (down_child lt pq i n) i"
    | (step) "2 * i + 1 < n" "pq_Less lt pq (down_child lt pq i n) i"
  by linarith

lemma down_keeps: "i < length pq \<Longrightarrow> n \<le> length pq \<Longrightarrow> pq_keeps pq (snd (heap_down lt pq i n)) \<and> i \<le> fst (heap_down lt pq i n)"
proof (induction "n - i" arbitrary: pq i rule: less_induct)
  case less
  show ?case
  proof (cases rule: down_cases [of n i lt pq])
    case stop
    then show ?thesis
      by (simp add: heap_down_stop pq_keeps_refl)
  next
    case step
    let ?j = "down_child lt pq i n"
    note b = down_child_bounds [OF step(1), of lt pq]
    have lt: "n - ?j < n - i" "?j < length (pq_Swap pq i ?j)" "n \<le> length (pq_Swap pq i ?j)"
      using b(1,2) less.prems by (simp_all add: diff_less_mono2)
    note ih = less.hyps [OF lt]
    have "pq_keeps pq (snd (heap_down lt (pq_Swap pq i ?j) ?j n))"
      using pq_keeps_swap [OF conjunct1 [OF ih]] less.prems b(2) by simp
    moreover have "i \<le> fst (heap_down lt (pq_Swap pq i ?j) ?j n)"
      using conjunct2 [OF ih] b(1) by (rule order_trans [OF less_imp_le, rotated])
    ultimately show ?thesis
      unfolding heap_down_step [OF step] ..
  qed
qed

context heap_order
begin

lemma child_least:
  assumes "2 * i + 1 < n" and "m < n" and "0 < m" and "parent m = i"
  shows "\<not> pq_Less lt pq m (down_child lt pq i n)"
proof -
  have "m = 2 * i + 1 \<or> m = 2 * i + 1 + 1"
    using assms(3,4) by presburger
  moreover have "\<not> pq_Less lt pq k k" for k
    using Less_asym by blast
  ultimately show ?thesis
    using assms(2) Less_asym by (auto simp: down_child_def)
qed

lemma down_swap:
  assumes h: "heapy_down lt pq i n" and n: "n \<le> length pq" "2 * i + 1 < n"
    and l: "pq_Less lt pq (down_child lt pq i n) i"
  shows "heapy_down lt (pq_Swap pq i (down_child lt pq i n)) (down_child lt pq i n) n"
proof -
  let ?j = "down_child lt pq i n"
  let ?q = "pq_Swap pq i ?j"
  note b = down_child_bounds [OF n(2), of lt pq]
  have i: "i < length pq" "?j < length pq" "i \<noteq> ?j" "i < n"
    using b(1,2) n by linarith+
  have e: "\<not> pq_Less lt pq m (parent m)" if "m < n" "0 < m" "parent m \<noteq> i" for m
    using h that by (simp add: heapy_down_def)
  have c: "\<not> pq_Less lt pq m (parent i)" if "m < n" "0 < m" "parent m = i" "0 < i" for m
    using h that by (simp add: heapy_down_def)
  have s: "pq_Less lt ?q k l = pq_Less lt pq (if k = i then ?j else if k = ?j then i else k)
      (if l = i then ?j else if l = ?j then i else l)" if "k < n" "l < n" for k l
    using pq_Swap_Less [OF i(1,2,3), of k l lt] that n(1) by simp
  have "\<not> pq_Less lt ?q m (parent m)" if m: "m < n" "0 < m" "parent m \<noteq> ?j" for m
  proof -
    have p: "parent m < n" "parent m \<noteq> m"
      using m parent_less [OF m(2)] by linarith+
    consider "m = ?j" | "m \<noteq> ?j" "parent m = i" | "m = i" | "m \<noteq> ?j" "m \<noteq> i" "parent m \<noteq> i"
      by blast
    then show ?thesis
    proof cases
      case 1
      then show ?thesis
        using s [OF m(1) p(1)] b(3) Less_asym [OF l] i(3) by simp
    next
      case 2
      then show ?thesis
        using s [OF m(1) p(1)] child_least [OF n(2) m(1,2)] p(2) by auto
    next
      case 3
      then show ?thesis
        using s [OF m(1) p(1)] c [OF b(2) _ b(3)] m b(1) p(2) by auto
    next
      case 4
      then show ?thesis
        using s [OF m(1) p(1)] m(3) e [OF m(1,2)] by auto
    qed
  qed
  moreover have "\<not> pq_Less lt ?q m (parent ?j)" if m: "m < n" "0 < m" "parent m = ?j" for m
  proof -
    have "m \<noteq> ?j" "m \<noteq> i"
      using m b(1) parent_less [OF m(2)] by linarith+
    then show ?thesis
      using s [OF m(1) i(4)] b(3) i(3) e [OF m(1,2)] m(3) by auto
  qed
  ultimately show ?thesis
    unfolding heapy_down_def by blast
qed

lemma down_heapy:
  assumes "heapy_down lt pq i n" and "n \<le> length pq" and "i < length pq"
  shows "heapy lt (snd (heap_down lt pq i n)) n"
  using assms
proof (induction "n - i" arbitrary: pq i rule: less_induct)
  case less
  show ?case
  proof (cases rule: down_cases [of n i lt pq])
    case stop
    have "\<not> pq_Less lt pq m (parent m)" if m: "m < n" "0 < m" for m
    proof (cases "parent m = i")
      case True
      then have "2 * i + 1 < n \<or> m = i"
        using m by presburger
      then show ?thesis
        using stop child_least [OF _ m True] Less_neg_trans True m parent_less [OF m(2)] by (metis less_irrefl linorder_not_less)
    next
      case False
      then show ?thesis
        using less.prems(1) m by (simp add: heapy_down_def)
    qed
    then show ?thesis
      using stop by (simp add: heap_down_stop heapy_def)
  next
    case step
    note b = down_child_bounds [OF step(1), of lt pq]
    have "n - down_child lt pq i n < n - i"
      using b(1,2) by (simp add: diff_less_mono2)
    then show ?thesis
      unfolding heap_down_step [OF step]
      using less.hyps down_swap [OF less.prems(1,2) step] less.prems b(2) by simp
  qed
qed

end

section \<open>The operations of the heap\<close>

lemma Heap_Push_keeps:
  assumes "idx_ok pq"
  shows "length (Heap_Push lt pq x) = Suc (length pq)" and "mset (pq_vals (Heap_Push lt pq x)) = add_mset x (mset (pq_vals pq))"
    and "idx_ok (Heap_Push lt pq x)"
proof -
  have "idx_ok (pq_Push pq x)"
    using assms by (auto simp: idx_ok_def pq_Push_def nth_append less_Suc_eq)
  then show "length (Heap_Push lt pq x) = Suc (length pq)" "mset (pq_vals (Heap_Push lt pq x)) = add_mset x (mset (pq_vals pq))"
      "idx_ok (Heap_Push lt pq x)"
    using up_keeps [of "length pq" "pq_Push pq x" lt]
    by (simp_all add: Heap_Push_def pq_keeps_def pq_Push_def pq_vals_def)
qed

lemma Heap_Update_keeps:
  assumes "idx_ok pq" and "pq \<noteq> []"
  shows "length (Heap_Update lt pq x) = length pq" and "mset (pq_vals (Heap_Update lt pq x)) = mset ((pq_vals pq)[0 := x])"
    and "idx_ok (Heap_Update lt pq x)"
    and "Heap_Update lt pq x = snd (heap_down lt (pq[0 := (pq ! 0)\<lparr>pq_value := x\<rparr>]) 0 (length pq))"
proof -
  let ?p = "pq[0 := (pq ! 0)\<lparr>pq_value := x\<rparr>]"
  have i: "pq_index (pq ! 0) = 0" "idx_ok ?p"
    using assms by (auto simp: idx_ok_def nth_list_update)
  have "heap_up lt q 0 = q" for q
    by (subst heap_up.simps) simp
  then show e: "Heap_Update lt pq x = snd (heap_down lt ?p 0 (length pq))"
    by (simp add: Heap_Update_def heap_Fix_def i split: prod.split)
  have "pq_vals ?p = (pq_vals pq)[0 := x]"
    by (simp add: pq_vals_def map_update)
  then show "length (Heap_Update lt pq x) = length pq" "mset (pq_vals (Heap_Update lt pq x)) = mset ((pq_vals pq)[0 := x])"
      "idx_ok (Heap_Update lt pq x)"
    using e down_keeps [of 0 ?p "length pq" lt] i(2) assms(2) by (auto simp: pq_keeps_def)
qed

context heap_order
begin

lemma root_least:
  assumes "heapy lt pq n" and "k < n" and "n \<le> length pq"
  shows "\<not> pq_Less lt pq k 0"
  using assms(2)
proof (induction k rule: less_induct)
  case (less k)
  show ?case
  proof (cases "k = 0")
    case True
    then show ?thesis
      using Less_asym by blast
  next
    case False
    then have k: "0 < k"
      by simp
    then have "\<not> pq_Less lt pq k (parent k)"
      using assms(1) less.prems by (simp add: heapy_def)
    moreover have "\<not> pq_Less lt pq (parent k) 0"
      using less.IH [OF parent_less [OF k]] less.prems parent_less [OF k] by linarith
    ultimately show ?thesis
      by (rule Less_neg_trans)
  qed
qed

lemma Heap_Push_heapy:
  assumes "heapy lt pq (length pq)"
  shows "heapy lt (Heap_Push lt pq x) (Suc (length pq))"
proof -
  let ?q = "pq_Push pq x"
  have old: "pq_Less lt ?q a b = pq_Less lt pq a b" if "a < length pq" "b < length pq" for a b
    using that by (simp add: pq_Less_def pq_Push_def nth_append)
  have "\<not> pq_Less lt ?q m (parent m)" if "m < Suc (length pq)" "0 < m" "m \<noteq> length pq" for m
    using old [of m "parent m"] that parent_less [of m] assms by (simp add: heapy_def)
  moreover have "parent m \<noteq> length pq" if "m < Suc (length pq)" "0 < m" for m
    using that parent_less [of m] by linarith
  ultimately have "heapy_up lt ?q (length pq) (Suc (length pq))"
    unfolding heapy_up_def by blast
  then show ?thesis
    unfolding Heap_Push_def by (rule up_heapy) (simp_all add: pq_Push_def)
qed

lemma Heap_Update_heapy:
  assumes "idx_ok pq" and "pq \<noteq> []"
    and "\<forall>m < length pq. 0 < m \<longrightarrow> parent m \<noteq> 0 \<longrightarrow> \<not> pq_Less lt pq m (parent m)"
  shows "heapy lt (Heap_Update lt pq x) (length pq)"
proof -
  let ?p = "pq[0 := (pq ! 0)\<lparr>pq_value := x\<rparr>]"
  have "pq_Less lt ?p m k = pq_Less lt pq m k" if "0 < m" "k \<noteq> 0" for m k
    using that by (simp add: pq_Less_def)
  then have "heapy_down lt ?p 0 (length pq)"
    using assms(3) unfolding heapy_down_def by auto
  then show ?thesis
    unfolding Heap_Update_keeps(4) [OF assms(1,2)] by (rule down_heapy) (use assms(2) in simp_all)
qed

end

section \<open>Orders that agree on the items\<close>

definition agree :: "('a \<Rightarrow> 'a \<Rightarrow> bool) \<Rightarrow> ('a \<Rightarrow> 'a \<Rightarrow> bool) \<Rightarrow> 'a priorityQueue \<Rightarrow> bool" where
  "agree lt lt' pq \<longleftrightarrow> distinct (pq_vals pq) \<and> (\<forall>x \<in> set (pq_vals pq). \<forall>y \<in> set (pq_vals pq). x \<noteq> y \<longrightarrow> lt x y = lt' x y)"

lemma agree_Less:
  assumes "agree lt lt' pq" and "i < length pq" and "j < length pq" and "i \<noteq> j"
  shows "pq_Less lt pq i j = pq_Less lt' pq i j"
proof -
  have "pq_value (pq ! i) \<noteq> pq_value (pq ! j)"
    using assms nth_eq_iff_index_eq [of "pq_vals pq" i j] by (simp add: agree_def pq_vals_def)
  moreover have "pq_value (pq ! i) \<in> set (pq_vals pq)" "pq_value (pq ! j) \<in> set (pq_vals pq)"
    using assms by (simp_all add: pq_vals_def)
  ultimately show ?thesis
    using assms(1) by (simp add: agree_def pq_Less_def)
qed

lemma agree_mset:
  assumes "mset (pq_vals q) = mset (pq_vals pq)"
  shows "agree lt lt' q = agree lt lt' pq"
  unfolding agree_def mset_eq_setD [OF assms] mset_eq_imp_distinct_iff [OF assms] ..

lemma up_cong: "agree lt lt' pq \<Longrightarrow> j < length pq \<Longrightarrow> heap_up lt pq j = heap_up lt' pq j"
proof (induction j arbitrary: pq rule: less_induct)
  case (less j)
  show ?case
  proof (cases "parent j = j")
    case True
    then have "heap_up l pq j = pq" for l
      by (subst heap_up.simps) (simp only: Let_def simp_thms if_True)
    then show ?thesis
      by simp
  next
    case False
    then have p: "parent j < j"
      by (cases "j = 0") simp_all
    have l: "pq_Less lt pq j (parent j) = pq_Less lt' pq j (parent j)"
      using agree_Less [OF less.prems(1,2)] p less.prems(2) by simp
    have "heap_up lt (pq_Swap pq (parent j) j) (parent j) = heap_up lt' (pq_Swap pq (parent j) j) (parent j)"
      using less.IH [OF p] less.prems p agree_mset [OF pq_Swap_mset, of "parent j" pq j] by simp
    then show ?thesis
      by (subst (1 2) heap_up.simps) (simp only: Let_def l)
  qed
qed

lemma down_cong: "agree lt lt' pq \<Longrightarrow> i < n \<Longrightarrow> n \<le> length pq \<Longrightarrow> heap_down lt pq i n = heap_down lt' pq i n"
proof (induction "n - i" arbitrary: pq i rule: less_induct)
  case less
  show ?case
  proof (cases "n \<le> 2 * i + 1")
    case True
    then show ?thesis
      by (simp add: heap_down_stop)
  next
    case False
    then have n: "2 * i + 1 < n"
      by simp
    have L: "a < n \<Longrightarrow> b < n \<Longrightarrow> a \<noteq> b \<Longrightarrow> pq_Less lt pq a b = pq_Less lt' pq a b" for a b
      using agree_Less [OF less.prems(1)] less.prems(3) by simp
    have j: "down_child lt pq i n = down_child lt' pq i n"
      using n L [of "2 * i + 1 + 1" "2 * i + 1"] by (auto simp: down_child_def)
    note b = down_child_bounds [OF n, of lt pq]
    have s: "heap_down lt (pq_Swap pq i (down_child lt pq i n)) (down_child lt pq i n) n
        = heap_down lt' (pq_Swap pq i (down_child lt pq i n)) (down_child lt pq i n) n"
      using less.hyps [of "down_child lt pq i n" "pq_Swap pq i (down_child lt pq i n)"] less.prems b(1,2)
        agree_mset [OF pq_Swap_mset, of i pq "down_child lt pq i n"]
      by (simp add: diff_less_mono2)
    have l: "pq_Less lt pq (down_child lt pq i n) i = pq_Less lt' pq (down_child lt pq i n) i"
      using L [OF b(2), of i] b(1) less.prems(2) by simp
    show ?thesis
      by (subst (1 2) heap_down_unfold) (simp only: j [symmetric] l s)
  qed
qed

lemma Push_cong:
  assumes "agree lt lt' (pq_Push pq x)"
  shows "Heap_Push lt pq x = Heap_Push lt' pq x"
  unfolding Heap_Push_def by (rule up_cong [OF assms]) (simp add: pq_Push_def)

lemma Update_cong:
  assumes "agree lt lt' (pq[0 := (pq ! 0)\<lparr>pq_value := x\<rparr>])" and "idx_ok pq" and "pq \<noteq> []"
  shows "Heap_Update lt pq x = Heap_Update lt' pq x"
  unfolding Heap_Update_keeps(4) [OF assms(2,3)] using down_cong [OF assms(1)] assms(3) by simp

end
