(* ===== verification/ValidatorSet.thy ===== *)
theory ValidatorSet
  imports TmTypes GoHeap
begin

text \<open>
  The validator sets of the Tendermint plugin: \<open>plugin/consensus/tendermint/types/validator_set.go\<close>.
  Validators are sorted by address; the proposer is chosen by accumulated voting power through the
  heap; commits are verified against the set. A validator in the heap is a pointer shared with the
  set: the model keeps the index of the validator and its value, which changes only through the
  root of the heap. The comparison panics on two validators with equal address and equal power;
  the addresses of a set are distinct, so the heap never asks for it
  (\<open>compareAccum_total\<close>), and the model of \<open>Less\<close> answers \<open>False\<close> there.
\<close>

section \<open>Definitions\<close>

record validator =
  val_Address :: bytes
  val_PubKey :: bytes
  val_VotingPower :: int
  val_Accum :: int

record ValidatorSet =
  vs_Validators :: "validator list"
  vs_Proposer :: "validator option"
  vs_totalVotingPower :: int

definition NewValidator :: "('pub, 'sig) crypto \<Rightarrow> 'pub \<Rightarrow> int \<Rightarrow> validator" where
  "NewValidator C pubKey votingPower =
     \<lparr>val_Address = GenAddressByPubKey C pubKey, val_PubKey = pub_Bytes C pubKey,
      val_VotingPower = votingPower, val_Accum = 0\<rparr>"

definition CompareAccum :: "validator option \<Rightarrow> validator \<Rightarrow> tm_err + validator" where
  "CompareAccum v other =
     (case v of
        None \<Rightarrow> Inr other
      | Some v \<Rightarrow>
          if val_Accum v > val_Accum other then Inr v
          else if val_Accum v < val_Accum other then Inr other
          else if val_Address v < val_Address other then Inr v
          else if val_Address v > val_Address other then Inr other
          else Inl TmPanic)"

definition accum_Less :: "validator \<Rightarrow> validator \<Rightarrow> bool" where
  "accum_Less ac other =
     (case CompareAccum (Some ac) other of Inl _ \<Rightarrow> False | Inr larger \<Rightarrow> val_Address larger = val_Address ac)"

definition heap_less :: "nat \<times> validator \<Rightarrow> nat \<times> validator \<Rightarrow> bool" where
  "heap_less a b = accum_Less (snd a) (snd b)"

definition sum_power :: "int \<Rightarrow> validator list \<Rightarrow> int" where
  "sum_power t vs = foldl (\<lambda>s v. add64 s (val_VotingPower v)) t vs"

definition TotalVotingPower :: "ValidatorSet \<Rightarrow> int \<times> ValidatorSet" where
  "TotalVotingPower S =
     (if vs_totalVotingPower S = 0
      then let t = sum_power (vs_totalVotingPower S) (vs_Validators S) in (t, S\<lparr>vs_totalVotingPower := t\<rparr>)
      else (vs_totalVotingPower S, S))"

fun inc_push :: "nat \<Rightarrow> nat \<Rightarrow> validator list \<Rightarrow> (nat \<times> validator) priorityQueue
    \<Rightarrow> validator list \<times> (nat \<times> validator) priorityQueue" where
  "inc_push tms i [] h = ([], h)"
| "inc_push tms i (v # vs) h =
     (let v' = v\<lparr>val_Accum := add64 (val_Accum v) (mul64 (val_VotingPower v) (int tms))\<rparr>;
          (vs', h') = inc_push tms (Suc i) vs (Heap_Push heap_less h (i, v'))
      in (v' # vs', h'))"

fun inc_loop :: "nat \<Rightarrow> ValidatorSet \<Rightarrow> (nat \<times> validator) priorityQueue \<Rightarrow> tm_err + ValidatorSet" where
  "inc_loop 0 S h = Inr S"
| "inc_loop (Suc k) S h =
     (case Heap_Peek h of
        None \<Rightarrow> Inl TmPanic
      | Some (i, mostest) \<Rightarrow>
          let (tot, S1) = TotalVotingPower S;
              m = mostest\<lparr>val_Accum := sub64 (val_Accum mostest) tot\<rparr>;
              S2 = S1\<lparr>vs_Validators := (vs_Validators S1)[i := m],
                      vs_Proposer := if k = 0 then Some m else vs_Proposer S1\<rparr>
          in inc_loop k S2 (Heap_Update heap_less h (i, m)))"

definition IncrementAccum :: "nat \<Rightarrow> ValidatorSet \<Rightarrow> tm_err + ValidatorSet" where
  "IncrementAccum tms S =
     (let (vs, h) = inc_push tms 0 (vs_Validators S) [] in inc_loop tms (S\<lparr>vs_Validators := vs\<rparr>) h)"

text \<open>A nil slice of validators is \<open>None\<close>; \<open>sort.Sort\<close> orders by address.\<close>

definition NewValidatorSet :: "validator list option \<Rightarrow> tm_err + ValidatorSet" where
  "NewValidatorSet vals =
     (case vals of
        None \<Rightarrow> Inr \<lparr>vs_Validators = [], vs_Proposer = None, vs_totalVotingPower = 0\<rparr>
      | Some vs \<Rightarrow>
          IncrementAccum 1 \<lparr>vs_Validators = sort_key val_Address vs, vs_Proposer = None, vs_totalVotingPower = 0\<rparr>)"

text \<open>\<open>sort.Search\<close>: binary search for the first index at which a monotone predicate holds.\<close>

function search_loop :: "(nat \<Rightarrow> bool) \<Rightarrow> nat \<Rightarrow> nat \<Rightarrow> nat" where
  "search_loop f i j =
     (if i < j then let h = (i + j) div 2 in if \<not> f h then search_loop f (h + 1) j else search_loop f i h else i)"
  by pat_completeness auto
termination
  by (relation "measure (\<lambda>(f, i, j). j - i)") auto

declare search_loop.simps [simp del]

definition sort_Search :: "nat \<Rightarrow> (nat \<Rightarrow> bool) \<Rightarrow> nat" where
  "sort_Search n f = search_loop f 0 n"

definition vs_search :: "ValidatorSet \<Rightarrow> bytes \<Rightarrow> nat" where
  "vs_search S a = sort_Search (length (vs_Validators S)) (\<lambda>i. a \<le> val_Address (vs_Validators S ! i))"

definition vs_HasAddress :: "ValidatorSet \<Rightarrow> bytes \<Rightarrow> bool" where
  "vs_HasAddress S a =
     (let idx = vs_search S a in
      idx \<noteq> length (vs_Validators S) \<and> val_Address (vs_Validators S ! idx) = a)"

definition vs_GetByAddress :: "ValidatorSet \<Rightarrow> bytes \<Rightarrow> int \<times> validator option" where
  "vs_GetByAddress S a =
     (let idx = vs_search S a in
      if idx \<noteq> length (vs_Validators S) \<and> val_Address (vs_Validators S ! idx) = a
      then (int idx, Some (vs_Validators S ! idx))
      else (-1, None))"

definition vs_GetByIndex :: "ValidatorSet \<Rightarrow> int \<Rightarrow> (bytes \<times> validator) option" where
  "vs_GetByIndex S i =
     (if i < 0 \<or> i \<ge> int (length (vs_Validators S)) then None
      else let v = vs_Validators S ! nat i in Some (val_Address v, v))"

definition vs_Size :: "ValidatorSet \<Rightarrow> nat" where
  "vs_Size S = length (vs_Validators S)"

fun findProposer_loop :: "validator option \<Rightarrow> validator list \<Rightarrow> tm_err + validator option" where
  "findProposer_loop p [] = Inr p"
| "findProposer_loop p (v # vs) =
     (if p = None \<or> val_Address v \<noteq> val_Address (the p) then
        (case CompareAccum p v of Inl e \<Rightarrow> Inl e | Inr p' \<Rightarrow> findProposer_loop (Some p') vs)
      else findProposer_loop p vs)"

definition findProposer :: "ValidatorSet \<Rightarrow> tm_err + validator option" where
  "findProposer S = findProposer_loop None (vs_Validators S)"

definition GetProposer :: "ValidatorSet \<Rightarrow> (tm_err + validator option) \<times> ValidatorSet" where
  "GetProposer S =
     (if length (vs_Validators S) = 0 then (Inr None, S)
      else case vs_Proposer S of
        Some p \<Rightarrow> (Inr (Some p), S)
      | None \<Rightarrow> (case findProposer S of Inl e \<Rightarrow> (Inl e, S) | Inr p \<Rightarrow> (Inr p, S\<lparr>vs_Proposer := p\<rparr>)))"

definition vs_Add :: "ValidatorSet \<Rightarrow> validator \<Rightarrow> bool \<times> ValidatorSet" where
  "vs_Add S v =
     (let idx = vs_search S (val_Address v) in
      if idx = length (vs_Validators S) then
        (True, S\<lparr>vs_Validators := vs_Validators S @ [v], vs_Proposer := None, vs_totalVotingPower := 0\<rparr>)
      else if val_Address (vs_Validators S ! idx) = val_Address v then (False, S)
      else (True, S\<lparr>vs_Validators := take idx (vs_Validators S) @ [v] @ drop idx (vs_Validators S),
              vs_Proposer := None, vs_totalVotingPower := 0\<rparr>))"

definition vs_Update :: "ValidatorSet \<Rightarrow> validator \<Rightarrow> bool \<times> ValidatorSet" where
  "vs_Update S v =
     (case vs_GetByAddress S (val_Address v) of
        (_, None) \<Rightarrow> (False, S)
      | (i, Some _) \<Rightarrow>
          (True, S\<lparr>vs_Validators := (vs_Validators S)[nat i := v], vs_Proposer := None, vs_totalVotingPower := 0\<rparr>))"

definition vs_Remove :: "ValidatorSet \<Rightarrow> bytes \<Rightarrow> (validator option \<times> bool) \<times> ValidatorSet" where
  "vs_Remove S a =
     (let idx = vs_search S a in
      if idx = length (vs_Validators S) \<or> val_Address (vs_Validators S ! idx) \<noteq> a then ((None, False), S)
      else ((Some (vs_Validators S ! idx), True),
            S\<lparr>vs_Validators := take idx (vs_Validators S) @ drop (idx + 1) (vs_Validators S),
              vs_Proposer := None, vs_totalVotingPower := 0\<rparr>))"

text \<open>The loop of \<open>VerifyCommit\<close> over the precommits, with the power tallied so far.\<close>

fun verify_loop :: "('pub, 'sig) crypto \<Rightarrow> ValidatorSet \<Rightarrow> string \<Rightarrow> blockID \<Rightarrow> int \<Rightarrow> int \<Rightarrow> nat
    \<Rightarrow> vote option list \<Rightarrow> int \<Rightarrow> tm_err + int" where
  "verify_loop C S chainID b h r idx [] tally = Inr tally"
| "verify_loop C S chainID b h r idx (item # items) tally =
     (if \<not> has_sig item then verify_loop C S chainID b h r (Suc idx) items tally
      else let p = the item in
        if v_Height p \<noteq> h then Inl Err_WrongHeight
        else if v_Round p \<noteq> r then Inl Err_WrongRound
        else if v_Type p \<noteq> VoteTypePrecommit then Inl Err_NotPrecommit
        else case vs_GetByIndex S (int idx) of
          None \<Rightarrow> Inl TmPanic
        | Some (_, v) \<Rightarrow>
            (case SignatureFromBytes C (v_Signature p) of
               None \<Rightarrow> Inl ErrSignatureFromBytes
             | Some sig \<Rightarrow>
                 (case PubKeyFromBytes C (val_PubKey v) of
                    None \<Rightarrow> Inl ErrPubKeyFromBytes
                  | Some pubkey \<Rightarrow>
                      if \<not> VerifyBytes C pubkey (SignBytes_vote chainID p) sig then Inl ErrVoteInvalidSignature
                      else verify_loop C S chainID b h r (Suc idx) items
                        (if b \<noteq> v_BlockID p then tally else add64 tally (val_VotingPower v)))))"

definition VerifyCommit :: "('pub, 'sig) crypto \<Rightarrow> ValidatorSet \<Rightarrow> string \<Rightarrow> blockID \<Rightarrow> int \<Rightarrow> commit
    \<Rightarrow> tm_err + unit" where
  "VerifyCommit C S chainID b h c =
     (if vs_Size S \<noteq> length (c_Precommits c) then Inl Err_WrongSetSize
      else case commit_Height c of
        Inl e \<Rightarrow> Inl e
      | Inr ch \<Rightarrow>
          if h \<noteq> ch then Inl Err_WrongHeight
          else case commit_Round c of
            Inl e \<Rightarrow> Inl e
          | Inr r \<Rightarrow>
              (case verify_loop C S chainID b h r 0 (c_Precommits c) 0 of
                 Inl e \<Rightarrow> Inl e
               | Inr tally \<Rightarrow>
                   if tally > div64 (mul64 (fst (TotalVotingPower S)) 2) 3 then Inr () else Inl Err_InsufficientPower))"

fun verifyAny_loop :: "('pub, 'sig) crypto \<Rightarrow> ValidatorSet \<Rightarrow> ValidatorSet \<Rightarrow> string \<Rightarrow> blockID \<Rightarrow> int \<Rightarrow> int \<Rightarrow> nat
    \<Rightarrow> vote option list \<Rightarrow> int list \<Rightarrow> int \<Rightarrow> int \<Rightarrow> tm_err + int \<times> int" where
  "verifyAny_loop C S N chainID b h r idx [] seen old new = Inr (old, new)"
| "verifyAny_loop C S N chainID b h r idx (item # items) seen old new =
     (if \<not> has_sig item then verifyAny_loop C S N chainID b h r (Suc idx) items seen old new
      else let p = the item in
        if v_Height p \<noteq> h then Inl Err_WrongHeight
        else if v_Round p \<noteq> r then Inl Err_WrongRound
        else if v_Type p \<noteq> VoteTypePrecommit then Inl Err_NotPrecommit
        else if b \<noteq> v_BlockID p then verifyAny_loop C S N chainID b h r (Suc idx) items seen old new
        else case vs_GetByAddress S (v_ValidatorAddress p) of
          (_, None) \<Rightarrow> verifyAny_loop C S N chainID b h r (Suc idx) items seen old new
        | (vi, Some ov) \<Rightarrow>
            if vi \<in> set seen then verifyAny_loop C S N chainID b h r (Suc idx) items seen old new
            else case SignatureFromBytes C (v_Signature p) of
              None \<Rightarrow> Inl ErrSignatureFromBytes
            | Some sig \<Rightarrow>
                (case PubKeyFromBytes C (val_PubKey ov) of
                   None \<Rightarrow> Inl ErrPubKeyFromBytes
                 | Some pubkey \<Rightarrow>
                     if \<not> VerifyBytes C pubkey (SignBytes_vote chainID p) sig then Inl ErrVoteInvalidSignature
                     else case vs_GetByIndex N (int idx) of
                       None \<Rightarrow> Inl TmPanic
                     | Some (_, cv) \<Rightarrow>
                         (case PubKeyFromBytes C (val_PubKey cv) of
                            None \<Rightarrow> Inl ErrPubKeyFromBytes
                          | Some cvPubKey \<Rightarrow>
                              verifyAny_loop C S N chainID b h r (Suc idx) items (vi # seen)
                                (add64 old (val_VotingPower ov))
                                (if pub_Equals C cvPubKey pubkey then add64 new (val_VotingPower cv) else new))))"

definition VerifyCommitAny :: "('pub, 'sig) crypto \<Rightarrow> ValidatorSet \<Rightarrow> ValidatorSet \<Rightarrow> string \<Rightarrow> blockID \<Rightarrow> int \<Rightarrow> commit
    \<Rightarrow> tm_err + unit" where
  "VerifyCommitAny C S N chainID b h c =
     (if vs_Size N \<noteq> length (c_Precommits c) then Inl Err_WrongSetSize
      else case commit_Height c of
        Inl e \<Rightarrow> Inl e
      | Inr ch \<Rightarrow>
          if h \<noteq> ch then Inl Err_WrongHeight
          else case commit_Round c of
            Inl e \<Rightarrow> Inl e
          | Inr r \<Rightarrow>
              (case verifyAny_loop C S N chainID b h r 0 (c_Precommits c) [] 0 0 of
                 Inl e \<Rightarrow> Inl e
               | Inr (old, new) \<Rightarrow>
                   if old \<le> div64 (mul64 (fst (TotalVotingPower S)) 2) 3 then Inl Err_InsufficientOldPower
                   else if new \<le> div64 (mul64 (fst (TotalVotingPower N)) 2) 3 then Inl Err_InsufficientCurPower
                   else Inr ()))"

section \<open>The order of proposers\<close>

definition key_lt :: "validator \<Rightarrow> validator \<Rightarrow> bool" where
  "key_lt a b \<longleftrightarrow> val_Accum b < val_Accum a \<or> (val_Accum a = val_Accum b \<and> val_Address a < val_Address b)"

definition heap_key :: "nat \<times> validator \<Rightarrow> nat \<times> validator \<Rightarrow> bool" where
  "heap_key a b = key_lt (snd a) (snd b)"

interpretation acc: heap_order heap_key
  by unfold_locales (auto simp: heap_key_def key_lt_def)

lemma compareAccum_total:
  assumes "val_Address a \<noteq> val_Address b"
  shows "CompareAccum (Some a) b = Inr (if key_lt a b then a else b)"
  using assms by (auto simp: CompareAccum_def key_lt_def)

lemma key_total: "val_Address a \<noteq> val_Address b \<Longrightarrow> key_lt a b \<or> key_lt b a"
  by (auto simp: key_lt_def)

lemma accum_Less_key: "val_Address a \<noteq> val_Address b \<Longrightarrow> accum_Less a b = key_lt a b"
  by (simp add: accum_Less_def compareAccum_total)

lemma key_trans: "key_lt a b \<Longrightarrow> key_lt b c \<Longrightarrow> key_lt a c"
  by (auto simp: key_lt_def)

lemma key_asym: "key_lt a b \<Longrightarrow> \<not> key_lt b a"
  by (auto simp: key_lt_def)

text \<open>\<open>q\<close> comes before every other validator of the list.\<close>

definition best :: "validator \<Rightarrow> validator list \<Rightarrow> bool" where
  "best q vs \<longleftrightarrow> q \<in> set vs \<and> (\<forall>w \<in> set vs. w \<noteq> q \<longrightarrow> key_lt q w)"

lemma best_unique: "best p vs \<Longrightarrow> best q vs \<Longrightarrow> p = q"
  unfolding best_def using key_asym by metis

abbreviation addresses :: "validator list \<Rightarrow> bytes list" where
  "addresses vs \<equiv> map val_Address vs"

lemma findProposer_loop_best:
  assumes "distinct (addresses (p # vs))"
  shows "\<exists>q. findProposer_loop (Some p) vs = Inr (Some q) \<and> best q (p # vs)"
  using assms
proof (induction vs arbitrary: p)
  case Nil
  then show ?case
    by (simp add: best_def)
next
  case (Cons v vs)
  let ?p = "if key_lt p v then p else v"
  have ne: "val_Address p \<noteq> val_Address v"
    using Cons.prems by auto
  have "distinct (addresses (?p # vs))"
    using Cons.prems by auto
  then obtain q where q: "findProposer_loop (Some ?p) vs = Inr (Some q)" "best q (?p # vs)"
    using Cons.IH by blast
  have "best q (p # v # vs)"
    using q(2) key_total [OF ne] key_trans [of q p v] key_trans [of q v p]
    by (auto simp: best_def split: if_splits)
  then show ?case
    using q(1) ne by (auto simp: compareAccum_total)
qed

lemma findProposer_best:
  assumes "distinct (addresses vs)" and "vs \<noteq> []"
  shows "\<exists>q. findProposer_loop None vs = Inr (Some q) \<and> best q vs"
  using assms findProposer_loop_best by (cases vs) (auto simp: CompareAccum_def)

section \<open>The heap follows the set\<close>

definition entries :: "validator list \<Rightarrow> (nat \<times> validator) list" where
  "entries vs = zip [0..<length vs] vs"

definition corr :: "(nat \<times> validator) priorityQueue \<Rightarrow> validator list \<Rightarrow> bool" where
  "corr h vs \<longleftrightarrow> mset (pq_vals h) = mset (entries vs) \<and> idx_ok h \<and> heapy heap_key h (length h)"

lemma entries_snoc: "entries (vs @ [v]) = entries vs @ [(length vs, v)]"
  by (simp add: entries_def)

lemma entries_mem: "(i, v) \<in> set (entries vs) \<longleftrightarrow> i < length vs \<and> vs ! i = v"
  by (auto simp: entries_def in_set_zip intro!: exI [of _ i])

lemma entries_distinct: "distinct (entries vs)"
  by (simp add: entries_def distinct_zipI1)

lemma entries_agree:
  assumes "distinct (addresses vs)" and "mset (pq_vals h) = mset (entries vs)"
  shows "agree heap_less heap_key h"
proof -
  have "heap_less x y = heap_key x y" if xy: "x \<in> set (entries vs)" "y \<in> set (entries vs)" "x \<noteq> y" for x y
  proof -
    obtain i v j w where e: "x = (i, v)" "y = (j, w)"
      by (cases x; cases y)
    have ij: "i < length vs" "j < length vs" "vs ! i = v" "vs ! j = w" "i \<noteq> j"
      using xy by (auto simp: e entries_mem)
    then have "val_Address v \<noteq> val_Address w"
      using nth_eq_iff_index_eq [OF assms(1), of i j] by auto
    then show ?thesis
      by (simp add: heap_less_def heap_key_def e accum_Less_key)
  qed
  then show ?thesis
    unfolding agree_def mset_eq_setD [OF assms(2)] mset_eq_imp_distinct_iff [OF assms(2)]
    using entries_distinct by blast
qed

definition bump :: "nat \<Rightarrow> validator \<Rightarrow> validator" where
  "bump tms v = v\<lparr>val_Accum := add64 (val_Accum v) (mul64 (val_VotingPower v) (int tms))\<rparr>"

lemma bump_Address [simp]: "val_Address (bump tms v) = val_Address v"
  by (simp add: bump_def)

lemma corr_Push:
  assumes "corr h vs" and "distinct (addresses (vs @ [v]))"
  shows "corr (Heap_Push heap_less h (length vs, v)) (vs @ [v])"
proof -
  let ?x = "(length vs, v)"
  have m: "mset (pq_vals (pq_Push h ?x)) = mset (entries (vs @ [v]))"
    using assms(1) by (simp add: corr_def pq_vals_def pq_Push_def entries_snoc)
  have "Heap_Push heap_less h ?x = Heap_Push heap_key h ?x"
    by (rule Push_cong [OF entries_agree [OF assms(2) m]])
  moreover have "heapy heap_key (Heap_Push heap_key h ?x) (Suc (length h))"
    using assms(1) by (intro acc.Heap_Push_heapy) (simp add: corr_def)
  ultimately show ?thesis
    using assms(1) Heap_Push_keeps [of h heap_key ?x] by (simp add: corr_def entries_snoc)
qed

lemma inc_push_corr:
  assumes "corr h ps" and "distinct (addresses (ps @ vs))"
  shows "fst (inc_push tms (length ps) vs h) = map (bump tms) vs
    \<and> corr (snd (inc_push tms (length ps) vs h)) (ps @ map (bump tms) vs)"
  using assms
proof (induction vs arbitrary: ps h)
  case (Cons v vs)
  have "corr (Heap_Push heap_less h (length ps, bump tms v)) (ps @ [bump tms v])"
    by (rule corr_Push [OF Cons.prems(1)]) (use Cons.prems(2) in simp)
  from Cons.IH [OF this] Cons.prems(2) show ?case
    by (auto simp: bump_def [symmetric] Let_def split: prod.split)
qed simp

lemma corr_Peek:
  assumes "corr h vs" and "distinct (addresses vs)" and "vs \<noteq> []"
  shows "\<exists>i < length vs. Heap_Peek h = Some (i, vs ! i) \<and> best (vs ! i) vs \<and> h \<noteq> []"
proof -
  have m: "mset (pq_vals h) = mset (entries vs)" "heapy heap_key h (length h)"
    using assms(1) by (simp_all add: corr_def)
  have len: "length h = length vs"
    using arg_cong [OF m(1), of size] by (simp add: pq_vals_def entries_def)
  then have h: "0 < length h" "h \<noteq> []"
    using assms(3) by auto
  obtain i v where r: "pq_value (h ! 0) = (i, v)"
    by (cases "pq_value (h ! 0)")
  have "(i, v) \<in> set (pq_vals h)"
    using h r by (metis length_map nth_map nth_mem pq_vals_def)
  then have i: "i < length vs" "vs ! i = v"
    by (simp_all add: mset_eq_setD [OF m(1)] entries_mem)
  have "key_lt v w" if w: "w \<in> set vs" "w \<noteq> v" for w
  proof -
    obtain k where k: "k < length vs" "vs ! k = w"
      using w(1) by (auto simp: in_set_conv_nth)
    then have "(k, w) \<in> set (pq_vals h)"
      by (simp add: mset_eq_setD [OF m(1)] entries_mem)
    then obtain p where "p < length h" "pq_value (h ! p) = (k, w)"
      by (auto simp: in_set_conv_nth pq_vals_def)
    then have "\<not> key_lt w v"
      using acc.root_least [OF m(2), of p] r by (simp add: pq_Less_def heap_key_def)
    moreover have "val_Address w \<noteq> val_Address v"
      using assms(2) w i by (metis distinct_map inj_onD nth_mem)
    ultimately show ?thesis
      using key_total by blast
  qed
  then show ?thesis
    using i h r by (auto simp: Heap_Peek_def best_def)
qed

lemma addresses_update: "i < length vs \<Longrightarrow> val_Address m = val_Address (vs ! i) \<Longrightarrow> addresses (vs[i := m]) = addresses vs"
  by (simp add: map_update list_update_same_conv)

lemma corr_Update:
  assumes "corr h vs" and "distinct (addresses vs)" and "h \<noteq> []" and "Heap_Peek h = Some (i, vs ! i)"
    and "i < length vs" and "val_Address m = val_Address (vs ! i)"
  shows "corr (Heap_Update heap_less h (i, m)) (vs[i := m])"
proof -
  let ?x = "(i, m)"
  have c: "mset (pq_vals h) = mset (entries vs)" "idx_ok h" "heapy heap_key h (length h)"
    using assms(1) by (simp_all add: corr_def)
  have d: "distinct (addresses (vs[i := m]))"
    using assms(2) addresses_update [OF assms(5,6)] by simp
  have e: "entries (vs[i := m]) = (entries vs)[i := ?x]"
    by (simp add: entries_def zip_update [of "[0..<length vs]" i i vs m, symmetric]) (metis assms(5) list_update_id nth_upt plus_nat.add_0)
  have r: "pq_vals h ! 0 = (i, vs ! i)" "entries vs ! i = (i, vs ! i)"
    using assms(3,4,5) by (simp_all add: Heap_Peek_def pq_vals_def entries_def)
  have u: "mset ((pq_vals h)[0 := ?x]) = mset (entries (vs[i := m]))"
  proof -
    have "0 < length (pq_vals h)" "i < length (entries vs)"
      using assms(3,5) by (simp_all add: pq_vals_def entries_def)
    then show ?thesis
      unfolding e by (simp only: mset_update r c(1))
  qed
  have v: "pq_vals (h[0 := (h ! 0)\<lparr>pq_value := ?x\<rparr>]) = (pq_vals h)[0 := ?x]"
    by (simp add: pq_vals_def map_update)
  have "Heap_Update heap_less h ?x = Heap_Update heap_key h ?x"
    by (rule Update_cong [OF entries_agree [OF d] c(2) assms(3)]) (simp only: u v)
  moreover have "heapy heap_key (Heap_Update heap_key h ?x) (length h)"
    using c assms(3) by (intro acc.Heap_Update_heapy) (auto simp: heapy_def)
  ultimately show ?thesis
    using u Heap_Update_keeps [OF c(2) assms(3), of heap_key ?x] by (simp add: corr_def)
qed

section \<open>Choosing the proposer\<close>

text \<open>
  The reference: scan for the validator with the most accumulated power and take the total power
  from it, as often as asked.
\<close>

definition charge_one :: "int \<Rightarrow> validator \<Rightarrow> validator" where
  "charge_one tot v = v\<lparr>val_Accum := sub64 (val_Accum v) tot\<rparr>"

definition charge :: "int \<Rightarrow> validator list \<Rightarrow> validator list" where
  "charge tot vs =
     (case findProposer_loop None vs of
        Inr (Some p) \<Rightarrow> map (\<lambda>v. if val_Address v = val_Address p then charge_one tot v else v) vs
      | _ \<Rightarrow> vs)"

lemma charge_one_simps [simp]:
  "val_Address (charge_one t v) = val_Address v" "val_VotingPower (charge_one t v) = val_VotingPower v"
  by (simp_all add: charge_one_def)

lemma bump_power [simp]: "val_VotingPower (bump tms v) = val_VotingPower v"
  by (simp add: bump_def)

lemma charge_best:
  assumes "distinct (addresses vs)" and "best (vs ! i) vs" and "i < length vs"
  shows "findProposer_loop None vs = Inr (Some (vs ! i))" and "charge tot vs = vs[i := charge_one tot (vs ! i)]"
proof -
  have "vs \<noteq> []"
    using assms(3) by auto
  then show f: "findProposer_loop None vs = Inr (Some (vs ! i))"
    using findProposer_best [OF assms(1)] best_unique [OF assms(2)] by auto
  have "val_Address (vs ! k) = val_Address (vs ! i) \<longleftrightarrow> k = i" if "k < length vs" for k
    using nth_eq_iff_index_eq [OF assms(1), of k i] that assms(3) by simp
  then show "charge tot vs = vs[i := charge_one tot (vs ! i)]"
    by (auto simp: charge_def f nth_list_update intro!: nth_equalityI)
qed

lemma charge_addresses [simp]: "addresses (charge tot vs) = addresses vs"
  by (auto simp: charge_def split: sum.split option.split)

lemma charge_powers [simp]: "map val_VotingPower (charge tot vs) = map val_VotingPower vs"
  by (auto simp: charge_def split: sum.split option.split)

lemma charge_length [simp]: "length (charge tot vs) = length vs"
  by (metis charge_addresses length_map)

lemma sum_power_map: "sum_power t vs = foldl add64 t (map val_VotingPower vs)"
  by (simp add: sum_power_def foldl_map)

lemma total_keeps:
  assumes "TotalVotingPower S = (t, S1)" and "map val_VotingPower vs = map val_VotingPower (vs_Validators S)"
  shows "fst (TotalVotingPower (S1\<lparr>vs_Validators := vs, vs_Proposer := p\<rparr>)) = t"
    and "vs_Validators S1 = vs_Validators S" and "vs_Proposer S1 = vs_Proposer S"
  using assms by (auto simp: TotalVotingPower_def Let_def sum_power_map split: if_splits)

lemma inc_loop_ref:
  assumes "corr h (vs_Validators S)" and "distinct (addresses (vs_Validators S))" and "vs_Validators S \<noteq> []"
    and "tot = fst (TotalVotingPower S)"
  shows "\<exists>S'. inc_loop k S h = Inr S' \<and> vs_Validators S' = (charge tot ^^ k) (vs_Validators S)
    \<and> (k > 0 \<longrightarrow> (\<exists>p. findProposer_loop None ((charge tot ^^ (k - 1)) (vs_Validators S)) = Inr (Some p)
         \<and> vs_Proposer S' = Some (charge_one tot p)))"
  using assms
proof (induction k arbitrary: S h)
  case (Suc k)
  let ?vs = "vs_Validators S"
  obtain t S1 where t: "TotalVotingPower S = (t, S1)"
    by (cases "TotalVotingPower S")
  obtain i where i: "i < length ?vs" "Heap_Peek h = Some (i, ?vs ! i)" "best (?vs ! i) ?vs" "h \<noteq> []"
    using corr_Peek [OF Suc.prems(1-3)] by blast
  let ?m = "charge_one tot (?vs ! i)"
  let ?S = "S1\<lparr>vs_Validators := (vs_Validators S1)[i := ?m], vs_Proposer := if k = 0 then Some ?m else vs_Proposer S1\<rparr>"
  have tt: "t = tot"
    using t Suc.prems(4) by simp
  note c = charge_best [OF Suc.prems(2) i(3,1)]
  have vs: "vs_Validators ?S = charge tot ?vs"
    using c(2) total_keeps(2) [OF t refl] by simp
  have h: "corr (Heap_Update heap_less h (i, ?m)) (vs_Validators ?S)"
    unfolding vs c(2) using corr_Update [OF Suc.prems(1,2) i(4,2,1)] by simp
  have tt2: "tot = fst (TotalVotingPower ?S)"
    using total_keeps(1) [OF t, of "charge tot ?vs"] tt vs by simp
  have step: "inc_loop (Suc k) S h = inc_loop k ?S (Heap_Update heap_less h (i, ?m))"
    using i(2) t tt by (simp add: Let_def charge_one_def)
  obtain S' where S': "inc_loop k ?S (Heap_Update heap_less h (i, ?m)) = Inr S'"
      "vs_Validators S' = (charge tot ^^ k) (charge tot ?vs)"
      "k > 0 \<longrightarrow> (\<exists>p. findProposer_loop None ((charge tot ^^ (k - 1)) (charge tot ?vs)) = Inr (Some p)
         \<and> vs_Proposer S' = Some (charge_one tot p))"
    using Suc.IH [OF h _ _ tt2] Suc.prems(2,3) unfolding vs by (metis charge_addresses charge_length length_0_conv)
  have pow: "(charge tot ^^ Suc j) ?vs = (charge tot ^^ j) (charge tot ?vs)" for j
    by (simp add: funpow_swap1)
  have "\<exists>p. findProposer_loop None ((charge tot ^^ k) ?vs) = Inr (Some p) \<and> vs_Proposer S' = Some (charge_one tot p)"
  proof (cases k)
    case 0
    then show ?thesis
      using S'(1) c(1) by auto
  next
    case (Suc j)
    then show ?thesis
      using S'(3) pow [of j] by simp
  qed
  then show ?case
    unfolding step pow using S'(1,2) by simp
qed auto

definition accum_sum :: "validator list \<Rightarrow> int" where
  "accum_sum vs = sum_list (map val_Accum vs)"

definition power_sum :: "validator list \<Rightarrow> int" where
  "power_sum vs = sum_list (map val_VotingPower vs)"

lemma foldl_add64: "wrap64 (foldl add64 t xs) = wrap64 (t + sum_list xs)"
proof (induction xs arbitrary: t)
  case (Cons x xs)
  have "wrap64 (add64 t x + sum_list xs) = wrap64 (t + x + sum_list xs)"
    by (rule wrap64_cong_add) (simp_all add: add64_def)
  then show ?case
    using Cons by (simp add: add.assoc)
qed simp

lemma accum_sum_update:
  "i < length vs \<Longrightarrow> accum_sum (vs[i := v]) = accum_sum vs - val_Accum (vs ! i) + val_Accum v"
proof (induction vs arbitrary: i)
  case (Cons a vs)
  then show ?case
    by (cases i) (auto simp: accum_sum_def)
qed simp

lemma charge_sum:
  assumes "distinct (addresses vs)" and "vs \<noteq> []"
  shows "wrap64 (accum_sum (charge tot vs)) = wrap64 (accum_sum vs - tot)"
proof -
  obtain q where q: "best q vs"
    using findProposer_best [OF assms] by blast
  then obtain i where i: "i < length vs" "vs ! i = q"
    by (auto simp: best_def in_set_conv_nth)
  have "accum_sum (charge tot vs) = accum_sum vs - val_Accum q + sub64 (val_Accum q) tot"
    using charge_best(2) [OF assms(1), of i tot] q i accum_sum_update [of i vs] by (simp add: charge_one_def)
  moreover have "wrap64 (accum_sum vs - val_Accum q + sub64 (val_Accum q) tot) = wrap64 (accum_sum vs - val_Accum q + (val_Accum q - tot))"
    by (rule wrap64_cong_add) (simp_all add: sub64_def)
  ultimately show ?thesis
    by simp
qed

lemma charges_sum:
  assumes "distinct (addresses vs)" and "vs \<noteq> []"
  shows "wrap64 (accum_sum ((charge tot ^^ k) vs)) = wrap64 (accum_sum vs - int k * tot)
    \<and> addresses ((charge tot ^^ k) vs) = addresses vs"
proof (induction k)
  case (Suc k)
  let ?w = "(charge tot ^^ k) vs"
  have "distinct (addresses ?w)" "?w \<noteq> []"
    using Suc assms by (simp_all, metis list.map_disc_iff)
  then have "wrap64 (accum_sum (charge tot ?w)) = wrap64 (accum_sum ?w - tot)"
    by (rule charge_sum)
  also have "\<dots> = wrap64 (accum_sum vs - int k * tot - tot)"
    using Suc by (intro wrap64_cong_sub) simp_all
  finally show ?case
    using Suc by (simp add: algebra_simps)
qed simp

lemma bump_sum: "wrap64 (accum_sum (map (bump k) vs)) = wrap64 (accum_sum vs + int k * power_sum vs)"
proof (induction vs)
  case (Cons v vs)
  have "wrap64 (val_Accum (bump k v)) = wrap64 (val_Accum v + int k * val_VotingPower v)"
    unfolding bump_def add64_def
    by (simp add: mult.commute) (rule wrap64_cong_add, simp_all add: mul64_def mult.commute)
  from wrap64_cong_add [OF this Cons] show ?case
    by (simp add: accum_sum_def power_sum_def algebra_simps)
qed (simp add: accum_sum_def power_sum_def)

text \<open>The cache of the total power is empty or right.\<close>

definition cache_ok :: "ValidatorSet \<Rightarrow> bool" where
  "cache_ok S \<longleftrightarrow> vs_totalVotingPower S = 0 \<or> vs_totalVotingPower S = wrap64 (power_sum (vs_Validators S))"

lemma total_power:
  assumes "cache_ok S"
  shows "wrap64 (fst (TotalVotingPower S)) = wrap64 (power_sum (vs_Validators S))"
  using assms foldl_add64 [of 0 "map val_VotingPower (vs_Validators S)"]
  by (auto simp: TotalVotingPower_def cache_ok_def Let_def sum_power_map power_sum_def)

section \<open>Looking up validators\<close>

lemma search_loop_correct:
  assumes "\<And>a b. a \<le> b \<Longrightarrow> b < n \<Longrightarrow> f a \<Longrightarrow> f b" and "i \<le> j" and "j \<le> n"
    and "\<And>k. k < i \<Longrightarrow> \<not> f k" and "\<And>k. j \<le> k \<Longrightarrow> k < n \<Longrightarrow> f k"
  shows "search_loop f i j \<le> n \<and> (\<forall>k < search_loop f i j. \<not> f k) \<and> (\<forall>k. search_loop f i j \<le> k \<and> k < n \<longrightarrow> f k)"
  using assms(2-)
proof (induction "j - i" arbitrary: i j rule: less_induct)
  case less
  show ?case
  proof (cases "i < j")
    case False
    then have "search_loop f i j = i"
      by (subst search_loop.simps) simp
    then show ?thesis
      using False less.prems by auto
  next
    case True
    let ?h = "(i + j) div 2"
    have h: "i \<le> ?h" "?h < j"
      using True by auto
    show ?thesis
    proof (cases "f ?h")
      case fh: True
      have "search_loop f i j = search_loop f i ?h"
        using True fh by (subst search_loop.simps) (simp add: Let_def)
      then show ?thesis
        using less.hyps [of ?h i] h less.prems assms(1) [of ?h] fh by simp
    next
      case fh: False
      have "search_loop f i j = search_loop f (?h + 1) j"
        using True fh by (subst search_loop.simps) (simp add: Let_def)
      moreover have "\<not> f k" if "k < ?h + 1" for k
        using assms(1) [of k ?h] that fh h less.prems by auto
      ultimately show ?thesis
        using less.hyps [of j "?h + 1"] h less.prems by simp
    qed
  qed
qed

definition wf_vs :: "ValidatorSet \<Rightarrow> bool" where
  "wf_vs S \<longleftrightarrow> sorted_wrt (<) (addresses (vs_Validators S))"

definition vs_abs :: "ValidatorSet \<Rightarrow> bytes \<Rightarrow> validator option" where
  "vs_abs S a = find (\<lambda>v. val_Address v = a) (vs_Validators S)"

lemma vs_search_correct:
  assumes "wf_vs S"
  shows "vs_search S a \<le> length (vs_Validators S)"
    and "k < vs_search S a \<Longrightarrow> val_Address (vs_Validators S ! k) < a"
    and "vs_search S a \<le> k \<Longrightarrow> k < length (vs_Validators S) \<Longrightarrow> a \<le> val_Address (vs_Validators S ! k)"
proof -
  let ?vs = "vs_Validators S"
  let ?f = "\<lambda>i. a \<le> val_Address (?vs ! i)"
  have mono: "?f y" if "x \<le> y" "y < length ?vs" "?f x" for x y
  proof (cases "x = y")
    case False
    then have "val_Address (?vs ! x) < val_Address (?vs ! y)"
      using sorted_wrt_nth_less [of "(<)" "addresses ?vs" x y] assms that by (simp add: wf_vs_def)
    then show ?thesis
      using that(3) by (meson order.strict_implies_order order_trans)
  qed (use that in simp)
  have *: "vs_search S a \<le> length ?vs \<and> (\<forall>k < vs_search S a. \<not> ?f k) \<and> (\<forall>k. vs_search S a \<le> k \<and> k < length ?vs \<longrightarrow> ?f k)"
    unfolding vs_search_def sort_Search_def by (rule search_loop_correct [OF mono]) auto
  show "vs_search S a \<le> length ?vs"
    using * by blast
  show "k < vs_search S a \<Longrightarrow> val_Address (?vs ! k) < a"
    using * by (meson linorder_not_le)
  show "vs_search S a \<le> k \<Longrightarrow> k < length ?vs \<Longrightarrow> a \<le> val_Address (?vs ! k)"
    using * by blast
qed

lemma wf_vs_distinct: "wf_vs S \<Longrightarrow> distinct (addresses (vs_Validators S))"
  by (simp add: wf_vs_def strict_sorted_iff)

lemma find_address:
  "distinct (addresses vs) \<Longrightarrow> find (\<lambda>v. val_Address v = a) vs = Some v \<longleftrightarrow> v \<in> set vs \<and> val_Address v = a"
  by (induction vs) auto

lemma vs_abs_Some:
  "wf_vs S \<Longrightarrow> vs_abs S a = Some v \<longleftrightarrow> v \<in> set (vs_Validators S) \<and> val_Address v = a"
  unfolding vs_abs_def by (rule find_address [OF wf_vs_distinct])

lemma vs_abs_eqI:
  assumes "wf_vs S" and "\<And>a v. v \<in> set (vs_Validators S) \<and> val_Address v = a \<longleftrightarrow> m a = Some v"
  shows "vs_abs S = m"
proof
  fix a
  show "vs_abs S a = m a"
    using vs_abs_Some [OF assms(1), of a] assms(2) [of _ a] by (metis option.exhaust)
qed

lemma vs_found:
  assumes "wf_vs S"
  shows "vs_search S a \<noteq> length (vs_Validators S) \<and> val_Address (vs_Validators S ! vs_search S a) = a \<longleftrightarrow> vs_abs S a \<noteq> None"
    and "vs_abs S a = Some v \<Longrightarrow> vs_search S a < length (vs_Validators S) \<and> vs_Validators S ! vs_search S a = v"
proof -
  let ?vs = "vs_Validators S" and ?i = "vs_search S a"
  note s = vs_search_correct [OF assms]
  have A: "?i < length ?vs \<and> ?vs ! ?i = v" if v: "vs_abs S a = Some v" for v
  proof -
    obtain k where k: "k < length ?vs" "?vs ! k = v" "val_Address v = a"
      using v by (auto simp: vs_abs_Some [OF assms] in_set_conv_nth)
    then have "?i \<le> k"
      using s(2) [of k a] by (meson less_irrefl not_le)
    moreover have "\<not> ?i < k"
    proof
      assume "?i < k"
      then have "val_Address (?vs ! ?i) < a"
        using sorted_wrt_nth_less [of "(<)" "addresses ?vs" ?i k] assms k by (simp add: wf_vs_def)
      moreover have "a \<le> val_Address (?vs ! ?i)"
        using s(3) [of a ?i] \<open>?i < k\<close> k(1) by simp
      ultimately show False
        by (simp add: not_le [symmetric])
    qed
    ultimately show ?thesis
      using k by auto
  qed
  then show "vs_abs S a = Some v \<Longrightarrow> ?i < length ?vs \<and> ?vs ! ?i = v" .
  have "vs_abs S a = Some (?vs ! ?i)" if "?i \<noteq> length ?vs" "val_Address (?vs ! ?i) = a"
    using that s(1) [of a] by (simp add: vs_abs_Some [OF assms])
  moreover have "?i \<noteq> length ?vs \<and> val_Address (?vs ! ?i) = a" if "vs_abs S a = Some v" for v
    using A [OF that] that by (auto simp: vs_abs_Some [OF assms])
  ultimately show "?i \<noteq> length ?vs \<and> val_Address (?vs ! ?i) = a \<longleftrightarrow> vs_abs S a \<noteq> None"
    by (metis option.distinct(1) option.exhaust)
qed

lemma vs_GetByAddress_abs: "wf_vs S \<Longrightarrow> snd (vs_GetByAddress S a) = vs_abs S a"
  using vs_found(1) [of S a] vs_found(2) [of S a]
  by (cases "vs_abs S a") (auto simp: vs_GetByAddress_def Let_def)

lemma vs_HasAddress_abs: "wf_vs S \<Longrightarrow> vs_HasAddress S a \<longleftrightarrow> vs_abs S a \<noteq> None"
  using vs_found(1) [of S a] by (simp add: vs_HasAddress_def Let_def)

lemma vs_Add_list:
  assumes "wf_vs S" and "vs_abs S (val_Address v) = None"
  shows "vs_Add S v = (True, S\<lparr>vs_Validators := take (vs_search S (val_Address v)) (vs_Validators S) @ [v] @ drop (vs_search S (val_Address v)) (vs_Validators S),
    vs_Proposer := None, vs_totalVotingPower := 0\<rparr>)"
  using vs_found(1) [OF assms(1), of "val_Address v"] assms(2) by (auto simp: vs_Add_def Let_def)

lemma vs_Add_wf:
  assumes "wf_vs S" and "vs_abs S (val_Address v) = None"
  shows "wf_vs (snd (vs_Add S v))"
proof -
  let ?vs = "vs_Validators S" and ?i = "vs_search S (val_Address v)"
  note s = vs_search_correct [OF assms(1), where a = "val_Address v"]
  have srt: "sorted_wrt (<) (addresses (take ?i ?vs @ drop ?i ?vs))"
    using assms(1) by (simp add: wf_vs_def)
  have lo: "val_Address w < val_Address v" if "w \<in> set (take ?i ?vs)" for w
    using that s(2) by (auto simp: in_set_conv_nth)
  have hi: "val_Address v < val_Address w" if w: "w \<in> set (drop ?i ?vs)" for w
  proof -
    obtain k where k: "?i + k < length ?vs" "w = ?vs ! (?i + k)"
      using w by (auto simp: in_set_conv_nth less_diff_conv add.commute)
    have "val_Address v \<le> val_Address w"
      using s(3) [of "?i + k"] k by simp
    moreover have "val_Address w \<noteq> val_Address v"
      using assms(2) k vs_abs_Some [OF assms(1), of "val_Address v" w] by (metis nth_mem option.distinct(1))
    ultimately show ?thesis
      by (simp add: order.not_eq_order_implies_strict)
  qed
  have "sorted_wrt (<) (addresses (take ?i ?vs @ [v] @ drop ?i ?vs))"
    using srt lo hi unfolding map_append sorted_wrt_append by simp
  then show ?thesis
    by (simp add: vs_Add_list [OF assms] wf_vs_def)
qed

lemma set_take_drop: "set xs = set (take i xs) \<union> set (drop i xs)"
  by (metis append_take_drop_id set_append)

lemma vs_Add_abs:
  assumes "wf_vs S" and "vs_abs S (val_Address v) = None"
  shows "vs_abs (snd (vs_Add S v)) = (vs_abs S)(val_Address v \<mapsto> v)"
proof (rule vs_abs_eqI [OF vs_Add_wf [OF assms]])
  fix a w
  have "set (vs_Validators (snd (vs_Add S v))) = insert v (set (vs_Validators S))"
    unfolding vs_Add_list [OF assms] set_take_drop [of "vs_Validators S" "vs_search S (val_Address v)"] by simp
  moreover have "vs_abs S a = Some w \<Longrightarrow> a \<noteq> val_Address v"
    using assms(2) by auto
  ultimately show "w \<in> set (vs_Validators (snd (vs_Add S v))) \<and> val_Address w = a \<longleftrightarrow> ((vs_abs S)(val_Address v \<mapsto> v)) a = Some w"
    using vs_abs_Some [OF assms(1), of a w] by auto
qed

lemma vs_Remove_list:
  assumes "wf_vs S" and "vs_abs S a = Some v"
  shows "vs_Remove S a = ((Some v, True), S\<lparr>vs_Validators := take (vs_search S a) (vs_Validators S) @ drop (vs_search S a + 1) (vs_Validators S),
    vs_Proposer := None, vs_totalVotingPower := 0\<rparr>)"
  using vs_found(1) [OF assms(1), of a] vs_found(2) [OF assms] assms(2) by (auto simp: vs_Remove_def Let_def)

lemma vs_Remove_correct:
  assumes "wf_vs S" and "vs_abs S a = Some v"
  shows "wf_vs (snd (vs_Remove S a))" and "vs_abs (snd (vs_Remove S a)) = (vs_abs S)(a := None)"
proof -
  let ?vs = "vs_Validators S" and ?i = "vs_search S a"
  have i: "?i < length ?vs" "?vs ! ?i = v"
    using vs_found(2) [OF assms] by simp_all
  have split: "?vs = take ?i ?vs @ v # drop (?i + 1) ?vs"
    unfolding Suc_eq_plus1 [symmetric] i(2) [symmetric] by (rule id_take_nth_drop [OF i(1)])
  have d: "distinct (addresses (take ?i ?vs @ v # drop (?i + 1) ?vs))"
    unfolding split [symmetric] by (rule wf_vs_distinct [OF assms(1)])
  have "sorted_wrt (<) (addresses (take ?i ?vs @ v # drop (?i + 1) ?vs))"
    unfolding split [symmetric] using assms(1) by (simp add: wf_vs_def)
  then show wf: "wf_vs (snd (vs_Remove S a))"
    by (auto simp: vs_Remove_list [OF assms] wf_vs_def sorted_wrt_append)
  show "vs_abs (snd (vs_Remove S a)) = (vs_abs S)(a := None)"
  proof (rule vs_abs_eqI [OF wf])
    fix b w
    let ?rest = "take ?i ?vs @ drop (?i + 1) ?vs"
    have a: "val_Address v = a"
      using assms by (simp add: vs_abs_Some)
    have "w \<in> set ?vs \<longleftrightarrow> w = v \<or> w \<in> set ?rest"
      by (subst split) auto
    moreover have "w \<in> set ?rest \<Longrightarrow> val_Address w \<noteq> a"
      using d a by (auto simp: image_iff)
    moreover have "set (vs_Validators (snd (vs_Remove S a))) = set ?rest"
      by (simp add: vs_Remove_list [OF assms])
    ultimately show "w \<in> set (vs_Validators (snd (vs_Remove S a))) \<and> val_Address w = b \<longleftrightarrow> ((vs_abs S)(a := None)) b = Some w"
      using vs_abs_Some [OF assms(1), of b w] a by (metis fun_upd_apply option.distinct(1))
  qed
qed

lemma set_update_distinct_key:
  assumes "distinct (addresses vs)" and "i < length vs" and "val_Address v = val_Address (vs ! i)"
  shows "x \<in> set (vs[i := v]) \<longleftrightarrow> x = v \<or> (x \<in> set vs \<and> val_Address x \<noteq> val_Address v)"
proof -
  have "distinct vs" and inj: "inj_on val_Address (set vs)"
    using assms(1) by (simp_all add: distinct_map)
  then have "set (vs[i := v]) = insert v (set vs - {vs ! i})"
    using assms(2) by (simp add: set_update_distinct)
  moreover have "x \<in> set vs \<Longrightarrow> val_Address x = val_Address (vs ! i) \<longleftrightarrow> x = vs ! i"
    using inj_on_eq_iff [OF inj] assms(2) by simp
  ultimately show ?thesis
    using assms(3) by auto
qed

lemma vs_Update_correct:
  assumes "wf_vs S" and "vs_abs S (val_Address v) = Some w"
  shows "fst (vs_Update S v)" and "wf_vs (snd (vs_Update S v))"
    and "vs_abs (snd (vs_Update S v)) = (vs_abs S)(val_Address v \<mapsto> v)"
proof -
  let ?vs = "vs_Validators S" and ?i = "vs_search S (val_Address v)"
  have i: "?i < length ?vs" "?vs ! ?i = w"
    using vs_found(2) [OF assms] by simp_all
  have w: "val_Address w = val_Address v"
    using assms by (simp add: vs_abs_Some)
  have g: "vs_GetByAddress S (val_Address v) = (int ?i, Some w)"
    using i w by (simp add: vs_GetByAddress_def Let_def)
  have u: "vs_Update S v = (True, S\<lparr>vs_Validators := ?vs[?i := v], vs_Proposer := None, vs_totalVotingPower := 0\<rparr>)"
    by (simp add: vs_Update_def g)
  then show "fst (vs_Update S v)"
    by simp
  show wf: "wf_vs (snd (vs_Update S v))"
    using assms(1) addresses_update [OF i(1), of v] i(2) w by (simp add: u wf_vs_def)
  show "vs_abs (snd (vs_Update S v)) = (vs_abs S)(val_Address v \<mapsto> v)"
  proof (rule vs_abs_eqI [OF wf])
    fix a x
    have "x \<in> set (?vs[?i := v]) \<longleftrightarrow> x = v \<or> (x \<in> set ?vs \<and> val_Address x \<noteq> val_Address v)"
      using set_update_distinct_key [OF wf_vs_distinct [OF assms(1)] i(1), of v x] i(2) w by simp
    then show "x \<in> set (vs_Validators (snd (vs_Update S v))) \<and> val_Address x = a \<longleftrightarrow> ((vs_abs S)(val_Address v \<mapsto> v)) a = Some x"
      using vs_abs_Some [OF assms(1), of a x] by (auto simp: u)
  qed
qed

section \<open>The contract of a registry\<close>

text \<open>
  What a client of the set relies on: entries under keys, with lookup, insertion of a new entry,
  replacement of an old one and removal. \<open>abs\<close> is the finite map the registry stands for.
\<close>

locale registry =
  fixes inv :: "'s \<Rightarrow> bool" and abs :: "'s \<Rightarrow> 'k \<Rightarrow> 'v option" and key :: "'v \<Rightarrow> 'k"
    and get :: "'s \<Rightarrow> 'k \<Rightarrow> 'v option" and add :: "'s \<Rightarrow> 'v \<Rightarrow> bool \<times> 's"
    and upd :: "'s \<Rightarrow> 'v \<Rightarrow> bool \<times> 's" and rem :: "'s \<Rightarrow> 'k \<Rightarrow> bool \<times> 's"
  assumes get_abs: "inv s \<Longrightarrow> get s k = abs s k"
    and add_abs: "inv s \<Longrightarrow> abs s (key v) = None \<Longrightarrow> fst (add s v) \<and> inv (snd (add s v)) \<and> abs (snd (add s v)) = (abs s)(key v \<mapsto> v)"
    and upd_abs: "inv s \<Longrightarrow> abs s (key v) \<noteq> None \<Longrightarrow> fst (upd s v) \<and> inv (snd (upd s v)) \<and> abs (snd (upd s v)) = (abs s)(key v \<mapsto> v)"
    and rem_abs: "inv s \<Longrightarrow> abs s k \<noteq> None \<Longrightarrow> fst (rem s k) \<and> inv (snd (rem s k)) \<and> abs (snd (rem s k)) = (abs s)(k := None)"
begin

text \<open>Setting an entry, whether it is new or replaces an old one.\<close>

lemma put_abs:
  assumes "inv s" and "r = (if get s (key v) = None then add s v else upd s v)"
  shows "fst r" and "inv (snd r)" and "abs (snd r) = (abs s)(key v \<mapsto> v)"
  using assms(2) get_abs [OF assms(1), of "key v"] add_abs [OF assms(1), of v] upd_abs [OF assms(1), of v] by auto

lemma put_get:
  assumes "inv s"
  shows "get (snd (if get s (key v) = None then add s v else upd s v)) k = (if k = key v then Some v else get s k)"
  using put_abs [OF assms refl, of v] get_abs [OF assms] get_abs by simp

lemma rem_get: "inv s \<Longrightarrow> get s k \<noteq> None \<Longrightarrow> get (snd (rem s k)) k' = (if k' = k then None else get s k')"
  using rem_abs [of s k] get_abs by auto

end

definition vs_get :: "ValidatorSet \<Rightarrow> bytes \<Rightarrow> validator option" where
  "vs_get S a = snd (vs_GetByAddress S a)"

definition vs_rem :: "ValidatorSet \<Rightarrow> bytes \<Rightarrow> bool \<times> ValidatorSet" where
  "vs_rem S a = (case vs_Remove S a of ((_, r), S') \<Rightarrow> (r, S'))"

interpretation vset: registry wf_vs vs_abs val_Address vs_get vs_Add vs_Update vs_rem
proof unfold_locales
  fix S a
  assume "wf_vs S"
  then show "vs_get S a = vs_abs S a"
    by (simp add: vs_get_def vs_GetByAddress_abs)
next
  fix S and v :: validator
  assume a: "wf_vs S" "vs_abs S (val_Address v) = None"
  have "fst (vs_Add S v)"
    by (simp add: vs_Add_list [OF a])
  then show "fst (vs_Add S v) \<and> wf_vs (snd (vs_Add S v)) \<and> vs_abs (snd (vs_Add S v)) = (vs_abs S)(val_Address v \<mapsto> v)"
    using vs_Add_wf [OF a] vs_Add_abs [OF a] by blast
next
  fix S and v :: validator
  assume "wf_vs S" "vs_abs S (val_Address v) \<noteq> None"
  then show "fst (vs_Update S v) \<and> wf_vs (snd (vs_Update S v)) \<and> vs_abs (snd (vs_Update S v)) = (vs_abs S)(val_Address v \<mapsto> v)"
    using vs_Update_correct [of S v] by auto
next
  fix S a
  assume "wf_vs S" "vs_abs S a \<noteq> None"
  then show "fst (vs_rem S a) \<and> wf_vs (snd (vs_rem S a)) \<and> vs_abs (snd (vs_rem S a)) = (vs_abs S)(a := None)"
    using vs_Remove_correct [of S a] by (auto simp: vs_rem_def vs_Remove_list)
qed

section \<open>Properties\<close>

lemma IncrementAccum_ref:
  assumes "distinct (addresses (vs_Validators S))" and "vs_Validators S \<noteq> []" and "tot = fst (TotalVotingPower S)"
  shows "\<exists>S'. IncrementAccum k S = Inr S'
    \<and> vs_Validators S' = (charge tot ^^ k) (map (bump k) (vs_Validators S))
    \<and> (k > 0 \<longrightarrow> (\<exists>p. findProposer_loop None ((charge tot ^^ (k - 1)) (map (bump k) (vs_Validators S))) = Inr (Some p)
         \<and> vs_Proposer S' = Some (charge_one tot p)))"
proof -
  let ?vs = "map (bump k) (vs_Validators S)"
  have "corr [] []"
    by (simp add: corr_def pq_vals_def entries_def idx_ok_def heapy_def)
  then have p: "fst (inc_push k 0 (vs_Validators S) []) = ?vs" "corr (snd (inc_push k 0 (vs_Validators S) [])) ?vs"
    using inc_push_corr [of "[]" "[]" "vs_Validators S" k] assms(1) by simp_all
  have "distinct (addresses ?vs)"
    using assms(1) by (simp add: comp_def)
  moreover have "tot = fst (TotalVotingPower (S\<lparr>vs_Validators := ?vs\<rparr>))"
    using assms(3) by (simp add: TotalVotingPower_def Let_def sum_power_map comp_def)
  ultimately show ?thesis
    using inc_loop_ref [of "snd (inc_push k 0 (vs_Validators S) [])" "S\<lparr>vs_Validators := ?vs\<rparr>" tot k] p assms(2)
    by (simp add: IncrementAccum_def case_prod_beta)
qed

text \<open>
  C28. Choosing the proposer through the heap is the same as scanning: with distinct addresses
  \<open>IncrementAccum\<close> does not panic, every validator first gains its power as often as asked, then as
  often as asked the total power is taken from the validator \<open>findProposer\<close> would choose, and the
  proposer is the last validator so chosen.
\<close>

theorem incrementAccum_scan:
  assumes "distinct (addresses (vs_Validators S))" and "vs_Validators S \<noteq> []" and "0 < k"
    and "tot = fst (TotalVotingPower S)"
  shows "\<exists>S' p. IncrementAccum k S = Inr S'
    \<and> vs_Validators S' = (charge tot ^^ k) (map (bump k) (vs_Validators S))
    \<and> findProposer (S\<lparr>vs_Validators := (charge tot ^^ (k - 1)) (map (bump k) (vs_Validators S))\<rparr>) = Inr (Some p)
    \<and> vs_Proposer S' = Some (charge_one tot p)"
  using IncrementAccum_ref [OF assms(1,2,4), of k] assms(3) by (auto simp: findProposer_def)

definition val_a :: validator where
  "val_a = \<lparr>val_Address = ''a'', val_PubKey = ''ka'', val_VotingPower = 1, val_Accum = 0\<rparr>"

definition val_b :: validator where
  "val_b = \<lparr>val_Address = ''b'', val_PubKey = ''kb'', val_VotingPower = 3, val_Accum = 0\<rparr>"

definition set_ab :: ValidatorSet where
  "set_ab = \<lparr>vs_Validators = [val_a, val_b], vs_Proposer = None, vs_totalVotingPower = 0\<rparr>"

theorem incrementAccum_scan_witness:
  "\<exists>S' p. IncrementAccum 1 set_ab = Inr S' \<and> vs_Proposer S' = Some (charge_one 4 p)
     \<and> findProposer (set_ab\<lparr>vs_Validators := map (bump 1) [val_a, val_b]\<rparr>) = Inr (Some p)
     \<and> p = bump 1 val_b"
proof -
  have "fst (TotalVotingPower set_ab) = 4" "findProposer (set_ab\<lparr>vs_Validators := map (bump 1) [val_a, val_b]\<rparr>) = Inr (Some (bump 1 val_b))"
    by code_simp+
  then show ?thesis
    using incrementAccum_scan [of set_ab 1 4] by (auto simp: set_ab_def val_a_def val_b_def)
qed

text \<open>
  \<open>IncrementAccum\<close> conserves the sum of the accumulated powers modulo \<open>2^64\<close>, whatever
  overflows on the way: what all validators gain is what the chosen ones pay.
\<close>

theorem incrementAccum_conserves:
  assumes "distinct (addresses (vs_Validators S))" and "vs_Validators S \<noteq> []" and "cache_ok S"
    and "IncrementAccum k S = Inr S'"
  shows "wrap64 (accum_sum (vs_Validators S')) = wrap64 (accum_sum (vs_Validators S))"
proof -
  let ?vs = "map (bump k) (vs_Validators S)" and ?t = "fst (TotalVotingPower S)"
  have d: "distinct (addresses ?vs)" "?vs \<noteq> []"
    using assms(1,2) by (simp_all add: comp_def)
  have v: "vs_Validators S' = (charge ?t ^^ k) ?vs"
    using IncrementAccum_ref [OF assms(1,2) refl, of k] assms(4) by auto
  have "wrap64 (accum_sum (vs_Validators S')) = wrap64 (accum_sum ?vs - int k * ?t)"
    using charges_sum [OF d] v by simp
  also have "\<dots> = wrap64 (accum_sum (vs_Validators S) + int k * power_sum (vs_Validators S) - int k * power_sum (vs_Validators S))"
    by (intro wrap64_cong_sub bump_sum wrap64_cong_mul total_power assms(3))
  finally show ?thesis
    by simp
qed

theorem incrementAccum_conserves_witness:
  "\<exists>S'. IncrementAccum 2 set_ab = Inr S' \<and> wrap64 (accum_sum (vs_Validators S')) = wrap64 (accum_sum (vs_Validators set_ab))"
proof -
  have d: "distinct (addresses (vs_Validators set_ab))" "vs_Validators set_ab \<noteq> []" "cache_ok set_ab"
    by (simp_all add: set_ab_def val_a_def val_b_def cache_ok_def)
  obtain S' where "IncrementAccum 2 set_ab = Inr S'"
    using IncrementAccum_ref [OF d(1,2) refl, of 2] by auto
  with incrementAccum_conserves [OF d this] show ?thesis
    by blast
qed

end
