(* ===== verification/TmExecution.thy ===== *)
theory TmExecution
  imports ValidatorSet
begin

text \<open>
  What the Tendermint plugin does with a validator set: changing it from the updates of a block
  (\<open>plugin/consensus/tendermint/execution.go\<close>), through the contract \<open>registry\<close>, and accepting
  commits by their voting power, through the contract \<open>weighted\<close>.
\<close>

section \<open>Definitions\<close>

record valnode =
  vn_PubKey :: bytes
  vn_Power :: int

fun change_loop :: "('pub, 'sig) crypto \<Rightarrow> ValidatorSet \<Rightarrow> int \<Rightarrow> valnode list \<Rightarrow> int \<Rightarrow> tm_err + bool" where
  "change_loop C S threshold [] acc = Inr False"
| "change_loop C S threshold (v # vs) acc =
     (case PubKeyFromBytes C (vn_PubKey v) of
        None \<Rightarrow> Inl ErrPubKeyFromBytes
      | Some pubkey \<Rightarrow>
          if vn_Power v < 0 then Inl Err_NegativePower
          else let acc' = (case vs_GetByAddress S (GenAddressByPubKey C pubkey) of
                             (_, None) \<Rightarrow> add64 acc (vn_Power v)
                           | (_, Some w) \<Rightarrow>
                               let np = sub64 (val_VotingPower w) (vn_Power v)
                               in add64 acc (if np < 0 then sub64 0 np else np))
               in if acc' \<ge> threshold then Inr True else change_loop C S threshold vs acc')"

definition changeInVotingPowerMoreOrEqualToOneThird ::
    "('pub, 'sig) crypto \<Rightarrow> ValidatorSet \<Rightarrow> valnode list \<Rightarrow> (tm_err + bool) \<times> ValidatorSet" where
  "changeInVotingPowerMoreOrEqualToOneThird C S updates =
     (case TotalVotingPower S of (tot, S1) \<Rightarrow> (change_loop C S1 (div64 (mul64 tot 1) 3) updates 0, S1))"

fun update_loop :: "('pub, 'sig) crypto \<Rightarrow> valnode list \<Rightarrow> ValidatorSet \<Rightarrow> (tm_err + unit) \<times> ValidatorSet" where
  "update_loop C [] S = (Inr (), S)"
| "update_loop C (v # vs) S =
     (case PubKeyFromBytes C (vn_PubKey v) of
        None \<Rightarrow> (Inl ErrPubKeyFromBytes, S)
      | Some pubkey \<Rightarrow>
          let address = GenAddressByPubKey C pubkey in
          if vn_Power v < 0 then (Inl Err_NegativePower, S)
          else case vs_GetByAddress S address of
            (_, None) \<Rightarrow>
              (case vs_Add S (NewValidator C pubkey (vn_Power v)) of
                 (added, S') \<Rightarrow> if \<not> added then (Inl Err_AddFailed, S') else update_loop C vs S')
          | (_, Some val) \<Rightarrow>
              if vn_Power v = 0 then
                (case vs_Remove S address of
                   ((_, removed), S') \<Rightarrow> if \<not> removed then (Inl Err_RemoveFailed, S') else update_loop C vs S')
              else
                (case vs_Update S (val\<lparr>val_VotingPower := vn_Power v\<rparr>) of
                   (updated, S') \<Rightarrow> if \<not> updated then (Inl Err_UpdateFailed, S') else update_loop C vs S'))"

definition updateValidators :: "('pub, 'sig) crypto \<Rightarrow> ValidatorSet \<Rightarrow> valnode list \<Rightarrow> (tm_err + unit) \<times> ValidatorSet" where
  "updateValidators C S updates =
     (case changeInVotingPowerMoreOrEqualToOneThird C S updates of
        (Inl e, S1) \<Rightarrow> (Inl e, S1)
      | (Inr vp23, S1) \<Rightarrow> if vp23 then (Inl Err_ThirdChanged, S1) else update_loop C updates S1)"

section \<open>Updates of the set\<close>

text \<open>The updates on the map from addresses to validators that the set stands for.\<close>

definition apply_update :: "('pub, 'sig) crypto \<Rightarrow> (bytes \<Rightarrow> validator option) \<Rightarrow> valnode \<Rightarrow> bytes \<Rightarrow> validator option" where
  "apply_update C m v =
     (case PubKeyFromBytes C (vn_PubKey v) of
        None \<Rightarrow> m
      | Some pubkey \<Rightarrow>
          let a = GenAddressByPubKey C pubkey in
          (case m a of
             None \<Rightarrow> m(a \<mapsto> NewValidator C pubkey (vn_Power v))
           | Some w \<Rightarrow> if vn_Power v = 0 then m(a := None) else m(a \<mapsto> w\<lparr>val_VotingPower := vn_Power v\<rparr>)))"

definition update_valid :: "('pub, 'sig) crypto \<Rightarrow> valnode \<Rightarrow> bool" where
  "update_valid C v \<longleftrightarrow> PubKeyFromBytes C (vn_PubKey v) \<noteq> None \<and> 0 \<le> vn_Power v"

lemma change_loop_valid: "change_loop C S t vs acc = Inr False \<Longrightarrow> \<forall>v \<in> set vs. update_valid C v"
  by (induction vs arbitrary: acc) (auto simp: update_valid_def Let_def split: option.splits if_splits)

lemma NewValidator_Address [simp]: "val_Address (NewValidator C k p) = GenAddressByPubKey C k"
  by (simp add: NewValidator_def)

lemma update_loop_correct:
  assumes "wf_vs S" and "\<forall>v \<in> set vs. update_valid C v"
  shows "fst (update_loop C vs S) = Inr () \<and> wf_vs (snd (update_loop C vs S))
    \<and> vs_abs (snd (update_loop C vs S)) = foldl (apply_update C) (vs_abs S) vs"
  using assms
proof (induction vs arbitrary: S)
  case (Cons v vs)
  obtain k where k: "PubKeyFromBytes C (vn_PubKey v) = Some k" "\<not> vn_Power v < 0"
    using Cons.prems(2) by (auto simp: update_valid_def)
  let ?a = "GenAddressByPubKey C k"
  obtain i where g: "vs_GetByAddress S ?a = (i, vs_abs S ?a)"
    using vset.get_abs [OF Cons.prems(1), of ?a] by (cases "vs_GetByAddress S ?a") (simp add: vs_get_def)
  obtain S' where S': "update_loop C (v # vs) S = update_loop C vs S'" "wf_vs S'" "vs_abs S' = apply_update C (vs_abs S) v"
  proof (cases "vs_abs S ?a")
    case None
    then show thesis
      using vset.add_abs [OF Cons.prems(1), of "NewValidator C k (vn_Power v)"] g k
        that [of "snd (vs_Add S (NewValidator C k (vn_Power v)))"]
      by (simp add: apply_update_def Let_def case_prod_beta)
  next
    case (Some w)
    then have w: "val_Address w = ?a"
      using Cons.prems(1) by (simp add: vs_abs_Some)
    show thesis
    proof (cases "vn_Power v = 0")
      case True
      then show thesis
        using vset.rem_abs [OF Cons.prems(1), of ?a] g k Some that [of "snd (vs_Remove S ?a)"]
        by (auto simp: apply_update_def Let_def vs_rem_def split: prod.splits)
    next
      case False
      then show thesis
        using vset.upd_abs [OF Cons.prems(1), of "w\<lparr>val_VotingPower := vn_Power v\<rparr>"] g k w Some
          that [of "snd (vs_Update S (w\<lparr>val_VotingPower := vn_Power v\<rparr>))"]
        by (simp add: apply_update_def Let_def case_prod_beta)
    qed
  qed
  show ?case
    using Cons.IH [OF S'(2)] Cons.prems(2) S'(1,3) by simp
qed simp

section \<open>Voting power of a commit\<close>

text \<open>
  The contract of weighted voting: members with weights that are not negative. Two sets of more
  than two thirds of the weight share more than one third of it.
\<close>

locale weighted =
  fixes U :: "'a set" and w :: "'a \<Rightarrow> int"
  assumes members: "finite U" and weights: "\<And>x. x \<in> U \<Longrightarrow> 0 \<le> w x"
begin

lemma weight_mono: "A \<subseteq> B \<Longrightarrow> B \<subseteq> U \<Longrightarrow> sum w A \<le> sum w B"
  using members weights by (intro sum_mono2) (auto intro: finite_subset)

lemma quorums_meet:
  assumes "A \<subseteq> U" and "B \<subseteq> U" and "3 * sum w A > 2 * sum w U" and "3 * sum w B > 2 * sum w U"
  shows "3 * sum w (A \<inter> B) > sum w U"
proof -
  have "finite A" "finite B"
    using assms(1,2) members finite_subset by blast+
  then have "sum w A + sum w B = sum w (A \<union> B) + sum w (A \<inter> B)"
    by (rule sum.union_inter [symmetric])
  moreover have "sum w (A \<union> B) \<le> sum w U"
    using assms(1,2) by (intro weight_mono) auto
  ultimately show ?thesis
    using assms(3,4) by linarith
qed

end

definition power_at :: "ValidatorSet \<Rightarrow> nat \<Rightarrow> int" where
  "power_at S i = (if i < length (vs_Validators S) then max 0 (val_VotingPower (vs_Validators S ! i)) else 0)"

definition members :: "ValidatorSet \<Rightarrow> nat set" where
  "members S = {..<length (vs_Validators S)}"

interpretation vpow: weighted "members S" "power_at S" for S
  by unfold_locales (auto simp: members_def power_at_def)

text \<open>The signature of validator \<open>i\<close> for the block is in the commit and verifies.\<close>

definition signed_by :: "('pub, 'sig) crypto \<Rightarrow> ValidatorSet \<Rightarrow> string \<Rightarrow> blockID \<Rightarrow> int \<Rightarrow> int \<Rightarrow> nat \<Rightarrow> vote option \<Rightarrow> bool" where
  "signed_by C S chainID b h r i item \<longleftrightarrow>
     has_sig item \<and> v_Height (the item) = h \<and> v_Round (the item) = r \<and> v_Type (the item) = VoteTypePrecommit
     \<and> v_BlockID (the item) = b
     \<and> (\<exists>pub sig. PubKeyFromBytes C (val_PubKey (vs_Validators S ! i)) = Some pub
          \<and> SignatureFromBytes C (v_Signature (the item)) = Some sig
          \<and> VerifyBytes C pub (SignBytes_vote chainID (the item)) sig)"

definition signers :: "('pub, 'sig) crypto \<Rightarrow> ValidatorSet \<Rightarrow> string \<Rightarrow> blockID \<Rightarrow> int \<Rightarrow> int \<Rightarrow> commit \<Rightarrow> nat set" where
  "signers C S chainID b h r c = {i \<in> members S. i < length (c_Precommits c) \<and> signed_by C S chainID b h r i (c_Precommits c ! i)}"

text \<open>Powers that are not negative and whose double sum fits the integers of the code.\<close>

definition powers_ok :: "ValidatorSet \<Rightarrow> bool" where
  "powers_ok S \<longleftrightarrow> cache_ok S \<and> (\<forall>v \<in> set (vs_Validators S). 0 \<le> val_VotingPower v) \<and> 2 * power_sum (vs_Validators S) \<le> MaxInt64"

lemma power_at_nth: "powers_ok S \<Longrightarrow> i < length (vs_Validators S) \<Longrightarrow> power_at S i = val_VotingPower (vs_Validators S ! i)"
  by (simp add: power_at_def powers_ok_def)

lemma members_power: "powers_ok S \<Longrightarrow> sum (power_at S) (members S) = power_sum (vs_Validators S)"
  by (simp add: members_def power_sum_def sum_list_sum_nth atLeast0LessThan power_at_nth)

lemma in64_zero: "in64 0"
  by (simp add: in64_def)

lemma in64_foldl: "in64 t \<Longrightarrow> in64 (foldl add64 t xs)"
  by (induction xs arbitrary: t) auto

lemma total_exact:
  assumes "powers_ok S"
  shows "fst (TotalVotingPower S) = power_sum (vs_Validators S)" and "0 \<le> power_sum (vs_Validators S)"
    and "power_sum (vs_Validators S) \<le> MaxInt64"
proof -
  show n: "0 \<le> power_sum (vs_Validators S)"
    using assms unfolding members_power [OF assms, symmetric] by (intro sum_nonneg) (simp add: power_at_def)
  then show m: "power_sum (vs_Validators S) \<le> MaxInt64"
    using assms by (simp add: powers_ok_def)
  have "in64 (fst (TotalVotingPower S))"
    using assms in64_foldl [OF in64_zero] by (auto simp: TotalVotingPower_def sum_power_map powers_ok_def cache_ok_def Let_def)
  then show "fst (TotalVotingPower S) = power_sum (vs_Validators S)"
    using total_power [of S] assms n m by (simp add: powers_ok_def wrap64_id in64_nonneg)
qed

lemma two_thirds:
  assumes "powers_ok S"
  shows "t > div64 (mul64 (fst (TotalVotingPower S)) 2) 3 \<longleftrightarrow> 3 * t > 2 * power_sum (vs_Validators S)"
proof -
  let ?p = "power_sum (vs_Validators S)"
  have "mul64 ?p 2 = 2 * ?p"
    using assms total_exact(2) [OF assms] by (simp add: mul64_exact in64_nonneg powers_ok_def mult.commute)
  then have "div64 (mul64 (fst (TotalVotingPower S)) 2) 3 = (2 * ?p) div 3"
    using assms total_exact [OF assms] by (simp add: div64_nonneg powers_ok_def)
  then show ?thesis
    by auto
qed

lemma verify_loop_step:
  assumes "verify_loop C S chainID b h r idx (item # items) tally = Inr t" and "idx < length (vs_Validators S)"
  shows "verify_loop C S chainID b h r (Suc idx) items
    (if signed_by C S chainID b h r idx item then add64 tally (val_VotingPower (vs_Validators S ! idx)) else tally) = Inr t"
  using assms by (auto simp: signed_by_def vs_GetByIndex_def Let_def split: if_splits option.splits)

lemma verify_loop_sum:
  assumes "verify_loop C S chainID b h r idx items tally = Inr t" and "powers_ok S"
    and "idx + length items \<le> length (vs_Validators S)" and "0 \<le> tally"
    and "tally + (\<Sum>j < length items. power_at S (idx + j)) \<le> MaxInt64"
  shows "t = tally + (\<Sum>j < length items. if signed_by C S chainID b h r (idx + j) (items ! j) then power_at S (idx + j) else 0)"
  using assms
proof (induction items arbitrary: idx tally)
  case (Cons item items)
  let ?s = "\<lambda>j. signed_by C S chainID b h r (idx + j) ((item # items) ! j)"
  let ?tally = "if ?s 0 then tally + power_at S idx else tally"
  have idx: "idx < length (vs_Validators S)"
    using Cons.prems(3) by simp
  have nonneg: "0 \<le> (\<Sum>j < length items. power_at S (Suc idx + j))" "0 \<le> power_at S idx"
    by (intro sum_nonneg) (auto simp: power_at_def)
  have split: "(\<Sum>j < length (item # items). power_at S (idx + j)) = power_at S idx + (\<Sum>j < length items. power_at S (Suc idx + j))"
    by (simp add: sum.lessThan_Suc_shift del: sum.lessThan_Suc)
  have "verify_loop C S chainID b h r (Suc idx) items ?tally = Inr t"
    using verify_loop_step [OF Cons.prems(1) idx] Cons.prems(4,5) nonneg split power_at_nth [OF Cons.prems(2) idx]
    by (auto simp: add64_nonneg split: if_splits)
  then have "t = ?tally + (\<Sum>j < length items. if signed_by C S chainID b h r (Suc idx + j) (items ! j) then power_at S (Suc idx + j) else 0)"
    by (rule Cons.IH) (use Cons.prems nonneg split in auto)
  then show ?case
    by (simp add: sum.lessThan_Suc_shift del: sum.lessThan_Suc cong: if_cong)
qed simp

lemma VerifyCommit_power:
  assumes "VerifyCommit C S chainID b h c = Inr ()" and "powers_ok S"
  shows "\<exists>r. commit_Round c = Inr r \<and> 3 * sum (power_at S) (signers C S chainID b h r c) > 2 * sum (power_at S) (members S)"
proof -
  obtain r t where r: "commit_Round c = Inr r" "vs_Size S = length (c_Precommits c)"
      "verify_loop C S chainID b h r 0 (c_Precommits c) 0 = Inr t" "t > div64 (mul64 (fst (TotalVotingPower S)) 2) 3"
    using assms(1) by (auto simp: VerifyCommit_def split: if_splits sum.splits)
  let ?n = "length (c_Precommits c)" and ?s = "\<lambda>j. signed_by C S chainID b h r j (c_Precommits c ! j)"
  have n: "?n = length (vs_Validators S)" "members S = {..<?n}"
    using r(2) by (simp_all add: vs_Size_def members_def)
  have "(\<Sum>j < ?n. power_at S j) \<le> MaxInt64"
    using members_power [OF assms(2)] total_exact(3) [OF assms(2)] n(2) by simp
  then have "t = (\<Sum>j < ?n. if ?s j then power_at S j else 0)"
    using verify_loop_sum [OF r(3) assms(2)] n(1) by (simp cong: if_cong)
  also have "\<dots> = sum (power_at S) (signers C S chainID b h r c)"
    by (simp add: signers_def n(2) sum.inter_filter [symmetric])
  finally show ?thesis
    using r(1,4) two_thirds [OF assms(2)] members_power [OF assms(2)] by auto
qed

section \<open>Properties\<close>

text \<open>
  C29. When the change of voting power is below a third, applying the updates cannot fail, keeps the
  set sorted by distinct addresses, and the set then stands for the map in which every update has
  set, replaced or removed the validator of its key. An update with power zero for an address that
  is not in the set adds a validator without power.
\<close>

theorem updateValidators_refines:
  assumes "wf_vs S" and "fst (changeInVotingPowerMoreOrEqualToOneThird C S updates) = Inr False"
  shows "\<exists>S'. updateValidators C S updates = (Inr (), S') \<and> wf_vs S'
    \<and> vs_abs S' = foldl (apply_update C) (vs_abs S) updates"
proof -
  obtain tot S1 where t: "TotalVotingPower S = (tot, S1)"
    by (cases "TotalVotingPower S")
  have same: "wf_vs S1" "vs_abs S1 = vs_abs S"
    using total_keeps(2) [OF t refl] assms(1) by (simp_all add: wf_vs_def vs_abs_def fun_eq_iff)
  have "\<forall>v \<in> set updates. update_valid C v"
    using assms(2) t change_loop_valid [of C S1 "div64 (mul64 tot 1) 3" updates 0]
    by (simp add: changeInVotingPowerMoreOrEqualToOneThird_def)
  from update_loop_correct [OF same(1) this] show ?thesis
    using assms(2) t same(2)
    by (cases "update_loop C updates S1") (auto simp: updateValidators_def changeInVotingPowerMoreOrEqualToOneThird_def)
qed

text \<open>A scheme for concrete runs: keys and signatures are their bytes, everything verifies.\<close>

definition toy_crypto :: "(bytes, bytes) crypto" where
  "toy_crypto = \<lparr>PubKeyFromBytes = (\<lambda>b. if b = [] then None else Some b), SignatureFromBytes = (\<lambda>b. if b = [] then None else Some b),
     pub_Bytes = (\<lambda>k. k), sig_Bytes = (\<lambda>s. s), VerifyBytes = (\<lambda>k m s. s = k), pub_Equals = (=), Ripemd160 = (\<lambda>b. drop 3 b)\<rparr>"

definition set_abc :: ValidatorSet where
  "set_abc = \<lparr>vs_Validators = [\<lparr>val_Address = ''a'', val_PubKey = ''a'', val_VotingPower = 10, val_Accum = 0\<rparr>,
     \<lparr>val_Address = ''b'', val_PubKey = ''b'', val_VotingPower = 10, val_Accum = 0\<rparr>,
     \<lparr>val_Address = ''c'', val_PubKey = ''c'', val_VotingPower = 10, val_Accum = 0\<rparr>], vs_Proposer = None, vs_totalVotingPower = 0\<rparr>"

theorem updateValidators_refines_witness:
  "\<exists>S'. updateValidators toy_crypto set_abc [\<lparr>vn_PubKey = ''d'', vn_Power = 0\<rparr>] = (Inr (), S')
     \<and> vs_abs S' ''d'' = Some \<lparr>val_Address = ''d'', val_PubKey = ''d'', val_VotingPower = 0, val_Accum = 0\<rparr>"
proof -
  let ?u = "[\<lparr>vn_PubKey = ''d'', vn_Power = 0\<rparr>]"
  have wf: "wf_vs set_abc"
    by (simp add: wf_vs_def set_abc_def)
  have ch: "fst (changeInVotingPowerMoreOrEqualToOneThird toy_crypto set_abc ?u) = Inr False"
    by code_simp
  obtain S' where S': "updateValidators toy_crypto set_abc ?u = (Inr (), S')"
      "vs_abs S' = foldl (apply_update toy_crypto) (vs_abs set_abc) ?u"
    using updateValidators_refines [OF wf ch] by blast
  have "vs_abs S' ''d'' = Some \<lparr>val_Address = ''d'', val_PubKey = ''d'', val_VotingPower = 0, val_Accum = 0\<rparr>"
    unfolding S'(2) by code_simp
  then show ?thesis
    using S'(1) by blast
qed

text \<open>
  C19. A commit that \<open>VerifyCommit\<close> accepts carries valid precommit signatures for the block, at the
  given height and one round, of validators that hold more than two thirds of the voting power,
  provided no power is negative and twice their sum fits an \<open>int64\<close>.
\<close>

theorem verifyCommit_sound:
  assumes "VerifyCommit C S chainID b h c = Inr ()" and "powers_ok S"
  shows "\<exists>r. 3 * sum (power_at S) (signers C S chainID b h r c) > 2 * sum (power_at S) (members S)"
  using VerifyCommit_power [OF assms] by blast

definition pre_a :: "bytes \<Rightarrow> bytes \<Rightarrow> vote option" where
  "pre_a who b = Some \<lparr>v_ValidatorAddress = who, v_ValidatorIndex = 0, v_Height = 5, v_Round = 0, v_Timestamp = 0,
     v_Type = 2, v_BlockID = b, v_Signature = who\<rparr>"

definition commit_B :: "bytes \<Rightarrow> commit" where
  "commit_B b = \<lparr>c_BlockID = b, c_Precommits = [pre_a ''a'' b, pre_a ''b'' b, pre_a ''c'' b]\<rparr>"

lemma set_abc_powers: "powers_ok set_abc"
  by code_simp

lemma set_abc_commit: "VerifyCommit toy_crypto set_abc ''chain'' ''B'' 5 (commit_B ''B'') = Inr ()"
  "VerifyCommit toy_crypto set_abc ''chain'' ''D'' 5 (commit_B ''D'') = Inr ()"
  by code_simp+

theorem verifyCommit_sound_witness:
  "\<exists>r. 3 * sum (power_at set_abc) (signers toy_crypto set_abc ''chain'' ''B'' 5 r (commit_B ''B'')) > 2 * sum (power_at set_abc) (members set_abc)"
  by (rule verifyCommit_sound [OF set_abc_commit(1) set_abc_powers])



end
