(* ===== verification/BitArray.thy ===== *)
theory BitArray
  imports Prelude "HOL-Library.Word"
begin

text \<open>
  The bit arrays of the Tendermint plugin: \<open>plugin/consensus/tendermint/types/util.go\<close>. A bit
  array is a number of bits and the 64-bit words that hold them; the bits beyond the number are
  not cleared by \<open>Not\<close>. A nil pointer is \<open>None\<close>, a Go panic (a nil pointer or an index out of
  range) is \<open>Inl Panic\<close>. Indices and sizes are those of validators, so they are natural numbers.
\<close>

unbundle bit_operations_syntax

section \<open>Definitions\<close>

record TendermintBitArray =
  ba_Bits :: nat
  ba_Elems :: "64 word list"

type_synonym bitarray = "TendermintBitArray option"

text \<open>
  An argument \<open>o\<close> may also be a nil pointer or a pointer to a struct whose embedded pointer is
  nil, as one decoded from a message is.
\<close>

datatype bitarg = NilPtr | NilInner | Inner TendermintBitArray

definition NewBitArray :: "nat \<Rightarrow> bitarray" where
  "NewBitArray bits =
     (if bits = 0 then None
      else Some \<lparr>ba_Bits = bits, ba_Elems = replicate ((bits + 63) div 64) 0\<rparr>)"

definition ba_Size :: "bitarray \<Rightarrow> nat" where
  "ba_Size bA = (case bA of None \<Rightarrow> 0 | Some b \<Rightarrow> ba_Bits b)"

definition ba_getIndex :: "TendermintBitArray \<Rightarrow> nat \<Rightarrow> bool" where
  "ba_getIndex b i = (if i \<ge> ba_Bits b then False else ba_Elems b ! (i div 64) AND push_bit (i mod 64) 1 > 0)"

definition ba_GetIndex :: "bitarray \<Rightarrow> nat \<Rightarrow> bool" where
  "ba_GetIndex bA i = (case bA of None \<Rightarrow> False | Some b \<Rightarrow> ba_getIndex b i)"

definition ba_setIndex :: "TendermintBitArray \<Rightarrow> nat \<Rightarrow> bool \<Rightarrow> bool \<times> TendermintBitArray" where
  "ba_setIndex b i v =
     (if i \<ge> ba_Bits b then (False, b)
      else (True, b\<lparr>ba_Elems := (ba_Elems b)[i div 64 :=
        (if v then ba_Elems b ! (i div 64) OR push_bit (i mod 64) 1
         else ba_Elems b ! (i div 64) AND NOT (push_bit (i mod 64) 1))]\<rparr>))"

definition ba_SetIndex :: "bitarray \<Rightarrow> nat \<Rightarrow> bool \<Rightarrow> bool \<times> bitarray" where
  "ba_SetIndex bA i v =
     (case bA of None \<Rightarrow> (False, None) | Some b \<Rightarrow> let (r, b') = ba_setIndex b i v in (r, Some b'))"

text \<open>\<open>copy\<close> of Go copies as many words as fit; the rest of a longer target stays zero.\<close>

definition go_copy :: "64 word list \<Rightarrow> 64 word list \<Rightarrow> 64 word list" where
  "go_copy dst src = take (length dst) src @ drop (length src) dst"

definition ba_copyBits :: "TendermintBitArray \<Rightarrow> nat \<Rightarrow> TendermintBitArray" where
  "ba_copyBits b bits =
     \<lparr>ba_Bits = bits, ba_Elems = go_copy (replicate ((bits + 63) div 64) 0) (ba_Elems b)\<rparr>"

text \<open>The loop of \<open>Or\<close> and \<open>and\<close> over the words of the result.\<close>

definition zip_words :: "(64 word \<Rightarrow> 64 word \<Rightarrow> 64 word) \<Rightarrow> 64 word list \<Rightarrow> 64 word list \<Rightarrow> err + 64 word list" where
  "zip_words f c o' = (if length c \<le> length o' then Inr (map2 f c (take (length c) o')) else Inl Panic)"

definition ba_Or :: "bitarray \<Rightarrow> bitarg \<Rightarrow> err + bitarray" where
  "ba_Or bA other =
     (case other of
        NilPtr \<Rightarrow> Inl Panic
      | NilInner \<Rightarrow> Inr bA
      | Inner ob \<Rightarrow>
          (case bA of
             None \<Rightarrow> Inl Panic
           | Some b \<Rightarrow>
               let c = ba_copyBits b (max (ba_Bits b) (ba_Bits ob)) in
               (case zip_words (OR) (ba_Elems c) (ba_Elems ob) of
                  Inl e \<Rightarrow> Inl e
                | Inr ws \<Rightarrow> Inr (Some (c\<lparr>ba_Elems := ws\<rparr>)))))"

definition ba_and :: "TendermintBitArray \<Rightarrow> TendermintBitArray \<Rightarrow> err + bitarray" where
  "ba_and b ob =
     (let c = ba_copyBits b (min (ba_Bits b) (ba_Bits ob)) in
      case zip_words (AND) (ba_Elems c) (ba_Elems ob) of
        Inl e \<Rightarrow> Inl e
      | Inr ws \<Rightarrow> Inr (Some (c\<lparr>ba_Elems := ws\<rparr>)))"

definition ba_And :: "bitarray \<Rightarrow> bitarg \<Rightarrow> err + bitarray" where
  "ba_And bA other =
     (case bA of
        None \<Rightarrow> Inr None
      | Some b \<Rightarrow> (case other of NilPtr \<Rightarrow> Inl Panic | NilInner \<Rightarrow> Inr None | Inner ob \<Rightarrow> ba_and b ob))"

definition ba_not :: "TendermintBitArray \<Rightarrow> TendermintBitArray" where
  "ba_not b = b\<lparr>ba_Elems := map NOT (ba_Elems b)\<rparr>"

definition ba_Not :: "bitarray \<Rightarrow> bitarray" where
  "ba_Not bA = map_option ba_not bA"

definition ba_Sub :: "bitarray \<Rightarrow> bitarg \<Rightarrow> err + bitarray" where
  "ba_Sub bA other =
     (case bA of
        None \<Rightarrow> Inr None
      | Some b \<Rightarrow>
          (case other of
             NilPtr \<Rightarrow> Inl Panic
           | NilInner \<Rightarrow> Inr None
           | Inner ob \<Rightarrow>
               if ba_Bits b > ba_Bits ob then
                 let i = length (ba_Elems ob) - 1;
                     c = b\<lparr>ba_Elems := map (\<lambda>e. e AND NOT e) (take i (ba_Elems b)) @ drop i (ba_Elems b)\<rparr>;
                     idxs = (if ba_Elems ob = [] then [] else [i * 64 ..< ba_Bits ob])
                 in Inr (Some (fold (\<lambda>idx c. snd (ba_setIndex c idx (ba_getIndex c idx \<and> \<not> ba_getIndex ob idx))) idxs c))
               else ba_and b (ba_not ob)))"

definition ba_IsEmpty :: "bitarray \<Rightarrow> bool" where
  "ba_IsEmpty bA = (case bA of None \<Rightarrow> True | Some b \<Rightarrow> \<not> (\<exists>e \<in> set (ba_Elems b). e > 0))"

definition ba_IsFull :: "bitarray \<Rightarrow> bool" where
  "ba_IsFull bA =
     (case bA of
        None \<Rightarrow> True
      | Some b \<Rightarrow>
          (\<forall>elem \<in> set (butlast (ba_Elems b)). NOT elem = 0) \<and>
          (let lastElemBits = (ba_Bits b + 63) mod 64 + 1; lastElem = last (ba_Elems b)
           in (lastElem + 1) AND (push_bit lastElemBits 1 - 1) = 0))"

text \<open>\<open>rnd n k\<close> is the result of the \<open>n\<close>-th call of \<open>RandIntn\<close>, with bound \<open>k\<close>.\<close>

fun ba_pickBit :: "64 word \<Rightarrow> nat \<Rightarrow> nat \<Rightarrow> nat list \<Rightarrow> nat option" where
  "ba_pickBit e start bits [] = None"
| "ba_pickBit e start bits (j # js) =
     (let bitIdx = (j + start) mod bits in
      if e AND push_bit bitIdx 1 > 0 then Some bitIdx else ba_pickBit e start bits js)"

fun ba_pickElem :: "(nat \<Rightarrow> nat \<Rightarrow> nat) \<Rightarrow> TendermintBitArray \<Rightarrow> nat \<Rightarrow> nat \<Rightarrow> nat list \<Rightarrow> err + (nat \<times> bool)" where
  "ba_pickElem rnd b start n [] = Inr (0, False)"
| "ba_pickElem rnd b start n (i # is) =
     (let len = length (ba_Elems b); elemIdx = (i + start) mod len; e = ba_Elems b ! elemIdx in
      if elemIdx < len - 1 then
        if e > 0 then
          (case ba_pickBit e (rnd n 64) 64 [0..<64] of
             Some bitIdx \<Rightarrow> Inr (64 * elemIdx + bitIdx, True)
           | None \<Rightarrow> Inl Panic)
        else ba_pickElem rnd b start n is
      else
        (let elemBits = (if ba_Bits b mod 64 = 0 then 64 else ba_Bits b mod 64) in
         case ba_pickBit e (rnd n elemBits) elemBits [0..<elemBits] of
           Some bitIdx \<Rightarrow> Inr (64 * elemIdx + bitIdx, True)
         | None \<Rightarrow> ba_pickElem rnd b start (n + 1) is))"

definition ba_PickRandom :: "(nat \<Rightarrow> nat \<Rightarrow> nat) \<Rightarrow> bitarray \<Rightarrow> err + (nat \<times> bool)" where
  "ba_PickRandom rnd bA =
     (case bA of
        None \<Rightarrow> Inr (0, False)
      | Some b \<Rightarrow>
          let len = length (ba_Elems b) in
          if len = 0 then Inr (0, False) else ba_pickElem rnd b (rnd 0 len) 1 [0..<len])"

definition ba_Update :: "bitarray \<Rightarrow> bitarg \<Rightarrow> err + bitarray" where
  "ba_Update bA other =
     (case bA of
        None \<Rightarrow> Inr None
      | Some b \<Rightarrow>
          (case other of
             NilPtr \<Rightarrow> Inl Panic
           | NilInner \<Rightarrow> Inr (Some b)
           | Inner ob \<Rightarrow> Inr (Some (b\<lparr>ba_Elems := go_copy (ba_Elems b) (ba_Elems ob)\<rparr>))))"

section \<open>Bits\<close>

definition wf_ba :: "TendermintBitArray \<Rightarrow> bool" where
  "wf_ba b \<longleftrightarrow> 0 < ba_Bits b \<and> length (ba_Elems b) = (ba_Bits b + 63) div 64"

lemma word_pos: "(w :: 64 word) > 0 \<longleftrightarrow> w \<noteq> 0"
  by (simp add: word_gt_0)

lemma and_bit_pos: "n < 64 \<Longrightarrow> (w :: 64 word) AND push_bit n 1 > 0 \<longleftrightarrow> bit w n"
  unfolding word_pos push_bit_eq_mult mult_1 and_exp_eq_0_iff_not_bit by simp

lemma word_index: "wf_ba b \<Longrightarrow> i < ba_Bits b \<Longrightarrow> i div 64 < length (ba_Elems b)"
  by (simp add: wf_ba_def div_less_iff_less_mult)

lemma ba_get_bit: "ba_getIndex b i \<longleftrightarrow> i < ba_Bits b \<and> bit (ba_Elems b ! (i div 64)) (i mod 64)"
  unfolding ba_getIndex_def by (subst and_bit_pos) auto

lemma ba_eq_index: "i div 64 = j div 64 \<Longrightarrow> i mod 64 = j mod (64 :: nat) \<Longrightarrow> i = j"
  by (metis div_mult_mod_eq)

lemma ba_set_wf [simp]: "wf_ba b \<Longrightarrow> wf_ba (snd (ba_setIndex b i v))"
  by (simp add: ba_setIndex_def wf_ba_def)

lemma ba_set_Bits [simp]: "ba_Bits (snd (ba_setIndex b i v)) = ba_Bits b"
  by (simp add: ba_setIndex_def)

lemma ba_set_get:
  assumes "wf_ba b" and "i < ba_Bits b"
  shows "ba_getIndex (snd (ba_setIndex b i v)) j = (if j = i then v else ba_getIndex b j)"
proof (cases "j div 64 = i div 64")
  case True
  then show ?thesis
    using assms word_index [OF assms] ba_eq_index [of j i]
    by (auto simp: ba_get_bit ba_setIndex_def bit_simps)
next
  case False
  then show ?thesis
    using assms by (auto simp: ba_get_bit ba_setIndex_def)
qed

section \<open>Operations bit by bit\<close>

lemma go_copy_length [simp]: "length (go_copy d s) = length d"
  by (simp add: go_copy_def)

lemma go_copy_nth: "i < length d \<Longrightarrow> go_copy d s ! i = (if i < length s then s ! i else d ! i)"
  by (auto simp: go_copy_def nth_append)

lemma ba_new: "bits > 0 \<Longrightarrow> \<exists>b. NewBitArray bits = Some b \<and> wf_ba b \<and> ba_Bits b = bits \<and> (\<forall>i. \<not> ba_getIndex b i)"
  by (auto simp: NewBitArray_def wf_ba_def ba_get_bit div_less_iff_less_mult)

lemma ba_copyBits_wf [simp]: "bits > 0 \<Longrightarrow> wf_ba (ba_copyBits b bits)"
  by (simp add: ba_copyBits_def wf_ba_def)

lemma zip_words_ok:
  assumes "zip_words f c w = Inr ws"
  shows "length ws = length c" and "i < length c \<Longrightarrow> ws ! i = f (c ! i) (w ! i)"
  using assms by (auto simp: zip_words_def split: if_splits)

lemma ba_words_mono: "m \<le> n \<Longrightarrow> (m + 63) div 64 \<le> (n + 63) div (64 :: nat)"
  by (simp add: div_le_mono)

lemma ba_copy_nth:
  assumes "wf_ba b" and "i < n" and "i < ba_Bits b"
  shows "ba_Elems (ba_copyBits b n) ! (i div 64) = ba_Elems b ! (i div 64)"
proof -
  have "i div 64 < (n + 63) div 64"
    using assms(2) by (simp add: div_less_iff_less_mult)
  then show ?thesis
    using word_index [OF assms(1,3)] by (simp add: ba_copyBits_def go_copy_nth)
qed

lemma ba_and_bits:
  assumes "wf_ba b" and "wf_ba d"
  shows "\<exists>c. ba_and b d = Inr (Some c) \<and> wf_ba c \<and> ba_Bits c = min (ba_Bits b) (ba_Bits d)
    \<and> (\<forall>i. ba_getIndex c i \<longleftrightarrow> ba_getIndex b i \<and> ba_getIndex d i)"
proof -
  let ?n = "min (ba_Bits b) (ba_Bits d)"
  let ?c = "ba_copyBits b ?n"
  have n: "?n > 0"
    using assms by (simp add: wf_ba_def)
  then have "wf_ba ?c"
    by simp
  have "length (ba_Elems ?c) \<le> length (ba_Elems d)"
    using assms by (simp add: ba_copyBits_def wf_ba_def ba_words_mono)
  then obtain ws where ws: "zip_words (AND) (ba_Elems ?c) (ba_Elems d) = Inr ws"
    by (simp add: zip_words_def)
  have "ba_getIndex (?c\<lparr>ba_Elems := ws\<rparr>) i \<longleftrightarrow> ba_getIndex b i \<and> ba_getIndex d i" for i
    using word_index [OF \<open>wf_ba ?c\<close>, of i] zip_words_ok [OF ws] ba_copy_nth [OF assms(1), of i ?n]
    by (auto simp: ba_get_bit ba_copyBits_def bit_and_iff)
  then show ?thesis
    using \<open>wf_ba ?c\<close> zip_words_ok(1) [OF ws]
    by (intro exI [of _ "?c\<lparr>ba_Elems := ws\<rparr>"]) (simp add: ba_and_def Let_def ws wf_ba_def, simp add: ba_copyBits_def)
qed

lemma ba_not_bits:
  assumes "wf_ba b"
  shows "wf_ba (ba_not b) \<and> ba_Bits (ba_not b) = ba_Bits b \<and> (\<forall>i < ba_Bits b. ba_getIndex (ba_not b) i \<longleftrightarrow> \<not> ba_getIndex b i)"
  using assms word_index [OF assms] by (auto simp: ba_not_def wf_ba_def ba_get_bit bit_not_iff)

lemma ba_sub_bits:
  assumes "wf_ba b" and "wf_ba d" and "ba_Bits b \<le> ba_Bits d"
  shows "\<exists>c. ba_Sub (Some b) (Inner d) = Inr (Some c) \<and> wf_ba c \<and> ba_Bits c = ba_Bits b
    \<and> (\<forall>i. ba_getIndex c i \<longleftrightarrow> ba_getIndex b i \<and> \<not> ba_getIndex d i)"
proof -
  have n: "wf_ba (ba_not d)" "ba_Bits (ba_not d) = ba_Bits d"
    and g: "\<And>i. i < ba_Bits d \<Longrightarrow> ba_getIndex (ba_not d) i \<longleftrightarrow> \<not> ba_getIndex d i"
    using ba_not_bits [OF assms(2)] by auto
  obtain c where c: "ba_and b (ba_not d) = Inr (Some c)" "wf_ba c" "ba_Bits c = ba_Bits b"
      "\<And>i. ba_getIndex c i \<longleftrightarrow> ba_getIndex b i \<and> ba_getIndex (ba_not d) i"
    using ba_and_bits [OF assms(1) n(1)] assms(3) n(2) by (auto simp: min_def)
  have "ba_getIndex b i \<Longrightarrow> i < ba_Bits d" for i
    using assms(3) by (simp add: ba_get_bit)
  then show ?thesis
    using c g assms(3) by (intro exI [of _ c]) (auto simp: ba_Sub_def)
qed

lemma ba_or_bits:
  assumes "wf_ba b" and "wf_ba d" and "(ba_Bits b + 63) div 64 \<le> (ba_Bits d + 63) div 64"
  shows "\<exists>c. ba_Or (Some b) (Inner d) = Inr (Some c) \<and> wf_ba c \<and> ba_Bits c = max (ba_Bits b) (ba_Bits d)"
proof -
  let ?c = "ba_copyBits b (max (ba_Bits b) (ba_Bits d))"
  have "wf_ba ?c"
    using assms by (auto simp: wf_ba_def ba_copyBits_def max_def)
  have "length (ba_Elems ?c) \<le> length (ba_Elems d)"
    using assms by (simp add: ba_copyBits_def wf_ba_def max_def)
  then obtain ws where ws: "zip_words (OR) (ba_Elems ?c) (ba_Elems d) = Inr ws"
    by (simp add: zip_words_def)
  then show ?thesis
    using \<open>wf_ba ?c\<close> zip_words_ok(1) [OF ws]
    by (intro exI [of _ "?c\<lparr>ba_Elems := ws\<rparr>"]) (simp add: ba_Or_def Let_def ws wf_ba_def, simp add: ba_copyBits_def)
qed

section \<open>Full and empty\<close>

lemma and_mask_unat: "n \<le> 64 \<Longrightarrow> unat ((x :: 64 word) AND (push_bit n 1 - 1)) = unat x mod 2 ^ n"
proof -
  assume "n \<le> 64"
  have "x AND (push_bit n 1 - 1) = take_bit n x"
    by (simp add: push_bit_eq_mult mask_eq_exp_minus_1 [symmetric] take_bit_eq_mask)
  then have "unat (x AND (push_bit n 1 - 1)) = take_bit n (unat x)"
    by (simp add: unsigned_take_bit_eq)
  then show ?thesis
    by (simp add: take_bit_eq_mod)
qed

lemma succ_mod_zero: "0 < m \<Longrightarrow> Suc x mod m = 0 \<longleftrightarrow> x mod m = m - 1"
  by (auto simp: mod_Suc)

lemma low_bits_ones:
  assumes "n \<le> 64"
  shows "unat (w :: 64 word) mod 2 ^ n = 2 ^ n - 1 \<longleftrightarrow> (\<forall>i < n. bit w i)"
proof -
  have "unat w mod 2 ^ n = 2 ^ n - 1 \<longleftrightarrow> take_bit n (unat w) = mask n"
    by (simp add: take_bit_eq_mod mask_eq_exp_minus_1)
  also have "\<dots> \<longleftrightarrow> (\<forall>i < n. bit (unat w) i)"
    by (auto simp: bit_eq_iff bit_simps)
  also have "\<dots> \<longleftrightarrow> (\<forall>i < n. bit w i)"
    using assms by (auto simp: bit_unsigned_iff)
  finally show ?thesis .
qed

lemma last_word_full:
  assumes "n \<le> 64"
  shows "((w :: 64 word) + 1) AND (push_bit n 1 - 1) = 0 \<longleftrightarrow> (\<forall>i < n. bit w i)"
proof -
  have "unat (w + 1) mod 2 ^ n = Suc (unat w) mod 2 ^ n"
    using mod_mod_cancel [OF le_imp_power_dvd [OF assms], of "Suc (unat w)" 2] by (simp add: unat_word_ariths)
  then have "unat ((w + 1) AND (push_bit n 1 - 1)) = 0 \<longleftrightarrow> (\<forall>i < n. bit w i)"
    unfolding and_mask_unat [OF assms] low_bits_ones [OF assms, symmetric]
    using succ_mod_zero [of "2 ^ n" "unat w"] by simp
  then show ?thesis
    unfolding unat_eq_0 .
qed

lemma full_word: "NOT (e :: 64 word) = 0 \<longleftrightarrow> (\<forall>i < 64. bit e i)"
  by (auto simp: bit_eq_iff bit_simps)

lemma ba_shape:
  assumes "wf_ba b"
  obtains k m where "length (ba_Elems b) = Suc k" "(ba_Bits b + 63) mod 64 + 1 = m" "m \<le> 64" "0 < m" "ba_Bits b = 64 * k + m"
proof -
  let ?q = "(ba_Bits b + 63) div 64" and ?r = "(ba_Bits b + 63) mod 64"
  have q: "?q > 0"
    using assms by (simp add: wf_ba_def div_greater_zero_iff)
  then obtain k where k: "?q = Suc k"
    using gr0_implies_Suc by blast
  have "ba_Bits b + 63 = 64 * ?q + ?r"
    by simp
  then have "ba_Bits b = 64 * k + (?r + 1)"
    using k by simp
  moreover have "?r + 1 \<le> 64"
    by (simp add: Suc_leI)
  ultimately show ?thesis
    using that [of k "?r + 1"] assms k by (simp add: wf_ba_def)
qed

lemma below_shape:
  assumes "m \<le> 64"
  shows "i < 64 * k + m \<longleftrightarrow> i div 64 < k \<or> (i div 64 = k \<and> i mod 64 < (m :: nat))"
proof -
  have "i = 64 * (i div 64) + i mod 64" "i mod 64 < 64"
    by simp_all
  then show ?thesis
    using assms by linarith
qed

lemma all_below_shape:
  assumes "m \<le> 64"
  shows "(\<forall>i < 64 * k + m. P (i div 64) (i mod 64)) \<longleftrightarrow> (\<forall>j < k. \<forall>i < 64. P j i) \<and> (\<forall>i < (m :: nat). P k i)"
proof (intro iffI conjI allI impI)
  fix j i :: nat
  assume *: "\<forall>i < 64 * k + m. P (i div 64) (i mod 64)"
  {
    assume "j < k" "i < 64"
    then show "P j i"
      using *[rule_format, of "64 * j + i"] by (simp add: div_mult_self3 below_shape [OF assms])
  next
    assume "i < m"
    then show "P k i"
      using *[rule_format, of "64 * k + i"] assms by simp
  }
next
  fix i
  assume "(\<forall>j < k. \<forall>i < 64. P j i) \<and> (\<forall>i < m. P k i)" "i < 64 * k + m"
  then show "P (i div 64) (i mod 64)"
    by (auto simp: below_shape [OF assms])
qed

lemma ba_full_bits:
  assumes "wf_ba b"
  shows "ba_IsFull (Some b) \<longleftrightarrow> (\<forall>i < ba_Bits b. ba_getIndex b i)"
proof -
  obtain k m where s: "length (ba_Elems b) = Suc k" "(ba_Bits b + 63) mod 64 + 1 = m" "m \<le> 64"
      "0 < m" "ba_Bits b = 64 * k + m"
    using ba_shape [OF assms] .
  have "(\<forall>e \<in> set (butlast (ba_Elems b)). NOT e = 0) \<longleftrightarrow> (\<forall>j < k. \<forall>i < 64. bit (ba_Elems b ! j) i)"
    using s(1) by (auto simp: all_set_conv_all_nth full_word nth_butlast)
  moreover have "last (ba_Elems b) = ba_Elems b ! k"
    using s(1) by (subst last_conv_nth) auto
  ultimately have "ba_IsFull (Some b) \<longleftrightarrow> (\<forall>j < k. \<forall>i < 64. bit (ba_Elems b ! j) i) \<and> (\<forall>i < m. bit (ba_Elems b ! k) i)"
    unfolding ba_IsFull_def option.case Let_def s(2) using last_word_full [OF s(3)] by simp
  also have "\<dots> \<longleftrightarrow> (\<forall>i < ba_Bits b. ba_getIndex b i)"
    using all_below_shape [OF s(3), of k "\<lambda>j i. bit (ba_Elems b ! j) i"] s(5) by (simp add: ba_get_bit)
  finally show ?thesis .
qed

lemma ba_empty_bits:
  assumes "wf_ba b" and "ba_IsEmpty (Some b)"
  shows "\<not> ba_getIndex b i"
  using assms word_index [OF assms(1), of i]
  by (auto simp: ba_IsEmpty_def ba_get_bit word_pos all_set_conv_all_nth)

section \<open>Random choice of a set bit\<close>

lemma rotation_onto:
  assumes "x < n"
  shows "\<exists>j < n. (j + s) mod n = (x :: nat)"
proof -
  let ?j = "(x + (n - s mod n)) mod n"
  have "(?j + s) mod n = (x + (n - s mod n) + s mod n) mod n"
    by (simp add: mod_simps)
  also have "x + (n - s mod n) + s mod n = x + n"
    using assms mod_less_divisor [of n s] by linarith
  also have "(x + n) mod n = x"
    using assms by simp
  finally show ?thesis
    using assms by (intro exI [of _ ?j]) simp
qed

lemma pickBit_some:
  assumes "ba_pickBit e s n js = Some x" and "0 < n" and "n \<le> 64"
  shows "x < n \<and> bit e x"
  using assms
proof (induction js)
  case (Cons j js)
  then show ?case
    using and_bit_pos [of "(j + s) mod n" e] mod_less_divisor [OF assms(2), of "j + s"]
    by (auto simp: Let_def split: if_splits)
qed simp

lemma pickBit_none:
  assumes "ba_pickBit e s n [0..<n] = None" and "0 < n" and "n \<le> 64" and "x < n"
  shows "\<not> bit e x"
proof -
  have *: "ba_pickBit e s n js = None \<Longrightarrow> j \<in> set js \<Longrightarrow> \<not> bit e ((j + s) mod n)" for js j
  proof (induction js)
    case (Cons a js)
    then show ?case
      using and_bit_pos [of "(a + s) mod n" e] mod_less_divisor [OF assms(2), of "a + s"] assms(3)
      by (auto simp: Let_def split: if_splits)
  qed simp
  show ?thesis
    using rotation_onto [OF assms(4), of s] * [OF assms(1)] by auto
qed

lemma elemBits_shape:
  assumes "wf_ba b" and "length (ba_Elems b) = Suc k"
  defines "m \<equiv> (if ba_Bits b mod 64 = 0 then 64 else ba_Bits b mod 64)"
  shows "0 < m" and "m \<le> 64" and "ba_Bits b = 64 * k + m"
proof -
  obtain k' m' where s: "length (ba_Elems b) = Suc k'" "m' \<le> 64" "0 < m'" "ba_Bits b = 64 * k' + m'"
    using ba_shape [OF assms(1)] by metis
  then have "m = m'"
    by (auto simp: m_def le_less)
  then show "0 < m" "m \<le> 64" "ba_Bits b = 64 * k + m"
    using s assms(2) by simp_all
qed

lemma word_some_bit:
  assumes "(e :: 64 word) > 0"
  shows "\<exists>x < 64. bit e x"
proof (rule ccontr)
  assume "\<not> ?thesis"
  then have "e = 0"
    by (intro bit_word_eqI) auto
  then show False
    using assms by simp
qed

lemma ba_pickElem_correct:
  assumes wf: "wf_ba b"
  shows "\<exists>i f. ba_pickElem rnd b s n is = Inr (i, f) \<and> (f \<longrightarrow> ba_getIndex b i)
    \<and> (\<not> f \<longrightarrow> i = 0 \<and> (\<forall>j \<in> set is. \<forall>x. x div 64 = (j + s) mod length (ba_Elems b) \<longrightarrow> \<not> ba_getIndex b x))"
proof (induction "is" arbitrary: n)
  case (Cons j "is")
  let ?len = "length (ba_Elems b)"
  let ?d = "(j + s) mod ?len" and ?m = "if ba_Bits b mod 64 = 0 then 64 else ba_Bits b mod 64"
  let ?e = "ba_Elems b ! ?d"
  obtain k where k: "?len = Suc k"
    using ba_shape [OF wf] by metis
  note m = elemBits_shape [OF wf k]
  show ?case
  proof (cases "?d < k")
    case True
    show ?thesis
    proof (cases "?e > 0")
      case pos: True
      obtain x where x: "ba_pickBit ?e (rnd n 64) 64 [0..<64] = Some x"
        using pickBit_none [of ?e "rnd n 64" 64] word_some_bit [OF pos] by fastforce
      then have "ba_getIndex b (64 * ?d + x)"
        using pickBit_some [OF x] True m(1,3) by (simp add: ba_get_bit)
      then show ?thesis
        using True pos x k by (auto simp: Let_def)
    next
      case False
      then have "?e = 0"
        by (simp add: word_pos)
      then have "x div 64 = ?d \<Longrightarrow> \<not> ba_getIndex b x" for x
        by (simp add: ba_get_bit)
      then show ?thesis
        using Cons.IH [of n] True False k by (auto simp: Let_def)
    qed
  next
    case False
    have "?d < Suc k"
      unfolding k by (rule mod_less_divisor) simp
    with False have d: "?d = k"
      by linarith
    show ?thesis
    proof (cases "ba_pickBit ?e (rnd n ?m) ?m [0..<?m]")
      case None
      have "x div 64 = ?d \<Longrightarrow> \<not> ba_getIndex b x" for x
        using pickBit_none [OF None m(1,2), of "x mod 64"] below_shape [OF m(2), of x k] d m(3)
        by (auto simp: ba_get_bit)
      then show ?thesis
        using Cons.IH [of "n + 1"] False None k unfolding ba_pickElem.simps Let_def by auto
    next
      case (Some x)
      then have "ba_getIndex b (64 * ?d + x)"
        using pickBit_some [OF Some m(1,2)] d m by (simp add: ba_get_bit)
      then show ?thesis
        using False Some k unfolding ba_pickElem.simps Let_def by auto
    qed
  qed
qed auto

lemma ba_PickRandom_correct:
  assumes wf: "wf_ba b"
  shows "\<exists>i f. ba_PickRandom rnd (Some b) = Inr (i, f) \<and> (f \<longrightarrow> ba_getIndex b i) \<and> (\<not> f \<longrightarrow> (\<forall>x. \<not> ba_getIndex b x))"
proof -
  let ?len = "length (ba_Elems b)"
  have len: "0 < ?len"
    using ba_shape [OF wf] by (metis zero_less_Suc)
  obtain i f where r: "ba_pickElem rnd b (rnd 0 ?len) 1 [0..<?len] = Inr (i, f)" "f \<Longrightarrow> ba_getIndex b i"
      "\<not> f \<Longrightarrow> \<forall>j \<in> set [0..<?len]. \<forall>x. x div 64 = (j + rnd 0 ?len) mod ?len \<longrightarrow> \<not> ba_getIndex b x"
    using ba_pickElem_correct [OF wf] by blast
  have "\<not> ba_getIndex b x" if "\<not> f" for x
  proof (cases "x < ba_Bits b")
    case True
    then obtain j where "j < ?len" "(j + rnd 0 ?len) mod ?len = x div 64"
      using rotation_onto [OF word_index [OF wf]] by blast
    then show ?thesis
      using r(3) [OF that] by auto
  qed (simp add: ba_get_bit)
  then show ?thesis
    using len r(1,2) by (auto simp: ba_PickRandom_def)
qed

section \<open>Difference with a shorter array\<close>

lemma fold_clear:
  assumes "wf_ba c" and "distinct js" and "\<forall>j \<in> set js. j < ba_Bits c"
  shows "wf_ba (fold (\<lambda>j c. snd (ba_setIndex c j (ba_getIndex c j \<and> \<not> P j))) js c)
    \<and> ba_Bits (fold (\<lambda>j c. snd (ba_setIndex c j (ba_getIndex c j \<and> \<not> P j))) js c) = ba_Bits c
    \<and> (\<forall>i. ba_getIndex (fold (\<lambda>j c. snd (ba_setIndex c j (ba_getIndex c j \<and> \<not> P j))) js c) i
         \<longleftrightarrow> ba_getIndex c i \<and> \<not> (i \<in> set js \<and> P i))"
  using assms
proof (induction js arbitrary: c)
  case (Cons j js)
  let ?c = "snd (ba_setIndex c j (ba_getIndex c j \<and> \<not> P j))"
  have "\<And>i. ba_getIndex ?c i = (if i = j then ba_getIndex c j \<and> \<not> P j else ba_getIndex c i)"
    using Cons.prems by (intro ba_set_get) simp_all
  then show ?case
    using Cons.IH [of ?c] Cons.prems by auto
qed simp

lemma ba_sub_longer:
  assumes b: "wf_ba b" and d: "wf_ba d" and gt: "ba_Bits d < ba_Bits b"
  shows "\<exists>c. ba_Sub (Some b) (Inner d) = Inr (Some c) \<and> wf_ba c \<and> ba_Bits c = ba_Bits b
    \<and> (\<forall>i. ba_getIndex c i \<longleftrightarrow> ba_getIndex b i \<and> \<not> ba_getIndex d i \<and> 64 * (length (ba_Elems d) - 1) \<le> i)"
proof -
  obtain k m where s: "length (ba_Elems d) = Suc k" "m \<le> 64" "0 < m" "ba_Bits d = 64 * k + m"
    using ba_shape [OF d] by metis
  let ?c = "b\<lparr>ba_Elems := map (\<lambda>e. e AND NOT e) (take k (ba_Elems b)) @ drop k (ba_Elems b)\<rparr>"
  let ?f = "fold (\<lambda>j c. snd (ba_setIndex c j (ba_getIndex c j \<and> \<not> ba_getIndex d j))) [k * 64 ..< ba_Bits d] ?c"
  have len: "Suc k \<le> length (ba_Elems b)"
    using b d gt s(1) ba_words_mono [of "ba_Bits d" "ba_Bits b"] by (simp add: wf_ba_def)
  have wf: "wf_ba ?c"
    using b len by (simp add: wf_ba_def)
  have c: "ba_getIndex ?c i \<longleftrightarrow> ba_getIndex b i \<and> 64 * k \<le> i" for i
  proof (cases "i div 64 < k")
    case True
    then show ?thesis
      using len below_shape [of 0 i k] by (auto simp: ba_get_bit nth_append bit_simps)
  next
    case False
    then show ?thesis
      using len below_shape [of 0 i k] by (auto simp: ba_get_bit nth_append)
  qed
  have "ba_getIndex ?f i \<longleftrightarrow> ba_getIndex b i \<and> \<not> ba_getIndex d i \<and> 64 * k \<le> i" for i
    using fold_clear [OF wf, of "[k * 64 ..< ba_Bits d]" "ba_getIndex d"] c gt
    by (auto simp: ba_get_bit [of d])
  moreover have "ba_Sub (Some b) (Inner d) = Inr (Some ?f)"
    using gt s(1) by (auto simp: ba_Sub_def Let_def)
  ultimately show ?thesis
    using fold_clear [OF wf, of "[k * 64 ..< ba_Bits d]" "ba_getIndex d"] gt s(1) by auto
qed

section \<open>Properties\<close>

text \<open>
  C27. The difference of two bit arrays never panics and keeps the size of the first. Where the
  second array is at least as long it has exactly the bits of the first that are not in the second.
  Where the second array is shorter, every bit below the last word of the second is lost as well,
  also those the second array does not have: the loop clears the words of the copy
  (\<open>c.Elems[i] &= ^c.Elems[i]\<close>) instead of removing the bits of the argument.
\<close>

theorem ba_sub_spec:
  assumes "wf_ba b" and "wf_ba d"
  shows "\<exists>c. ba_Sub (Some b) (Inner d) = Inr (Some c) \<and> ba_Size (Some c) = ba_Size (Some b)
    \<and> (\<forall>i. ba_GetIndex (Some c) i \<longleftrightarrow> ba_GetIndex (Some b) i \<and> \<not> ba_GetIndex (Some d) i
         \<and> (ba_Size (Some b) \<le> ba_Size (Some d) \<or> 64 * (length (ba_Elems d) - 1) \<le> i))"
proof (cases "ba_Bits b \<le> ba_Bits d")
  case True
  then show ?thesis
    using ba_sub_bits [OF assms] by (auto simp: ba_Size_def ba_GetIndex_def)
next
  case False
  then show ?thesis
    using ba_sub_longer [OF assms] by (auto simp: ba_Size_def ba_GetIndex_def)
qed

theorem ba_sub_spec_witness:
  "\<exists>c. ba_Sub (Some \<lparr>ba_Bits = 130, ba_Elems = [5, 0, 0]\<rparr>) (Inner \<lparr>ba_Bits = 128, ba_Elems = [4, 0]\<rparr>) = Inr (Some c)
     \<and> \<not> ba_GetIndex (Some c) 0
     \<and> ba_GetIndex (Some \<lparr>ba_Bits = 130, ba_Elems = [5, 0, 0]\<rparr>) 0
     \<and> \<not> ba_GetIndex (Some \<lparr>ba_Bits = 128, ba_Elems = [4, 0]\<rparr>) 0"
proof -
  let ?b = "\<lparr>ba_Bits = 130, ba_Elems = [5, 0, 0]\<rparr>" and ?d = "\<lparr>ba_Bits = 128, ba_Elems = [4, 0]\<rparr>"
  obtain c where c: "ba_Sub (Some ?b) (Inner ?d) = Inr (Some c)"
      "\<forall>i. ba_GetIndex (Some c) i \<longleftrightarrow> ba_GetIndex (Some ?b) i \<and> \<not> ba_GetIndex (Some ?d) i
         \<and> (ba_Size (Some ?b) \<le> ba_Size (Some ?d) \<or> 64 * (length (ba_Elems ?d) - 1) \<le> i)"
    using ba_sub_spec [of ?b ?d] by (auto simp: wf_ba_def)
  have "\<not> ba_GetIndex (Some c) 0"
    using c(2) [rule_format, of 0] by (simp add: ba_Size_def)
  moreover have "ba_GetIndex (Some ?b) 0" "\<not> ba_GetIndex (Some ?d) 0"
    by code_simp+
  ultimately show ?thesis
    using c(1) by blast
qed

text \<open>
  \<open>IsFull\<close>, which tests the last word by adding one and masking, is true exactly when every
  bit of the array is set, whatever the unused bits of the last word hold.
\<close>

theorem ba_isFull_spec:
  assumes "wf_ba b"
  shows "ba_IsFull (Some b) \<longleftrightarrow> (\<forall>i < ba_Size (Some b). ba_GetIndex (Some b) i)"
  using ba_full_bits [OF assms] by (simp add: ba_Size_def ba_GetIndex_def)

theorem ba_isFull_spec_witness:
  "ba_IsFull (Some \<lparr>ba_Bits = 2, ba_Elems = [7]\<rparr>)
   \<and> ba_GetIndex (Some \<lparr>ba_Bits = 2, ba_Elems = [7]\<rparr>) 1"
proof -
  have "ba_IsFull (Some \<lparr>ba_Bits = 2, ba_Elems = [7]\<rparr>)"
    by code_simp
  then show ?thesis
    using ba_isFull_spec [of "\<lparr>ba_Bits = 2, ba_Elems = [7]\<rparr>"] by (simp add: wf_ba_def ba_Size_def)
qed

text \<open>
  Whatever the random generator returns, \<open>PickRandom\<close> never panics, an index it returns with
  true is a set bit, and it returns false only when no bit is set.
\<close>

theorem ba_pickRandom_spec:
  assumes "wf_ba b"
  shows "\<exists>i f. ba_PickRandom rnd (Some b) = Inr (i, f) \<and> (f \<longrightarrow> ba_GetIndex (Some b) i)
    \<and> (\<not> f \<longrightarrow> (\<forall>x. \<not> ba_GetIndex (Some b) x))"
  using ba_PickRandom_correct [OF assms] by (simp add: ba_GetIndex_def)

theorem ba_pickRandom_spec_witness:
  "ba_PickRandom (\<lambda>n k. 0) (Some \<lparr>ba_Bits = 2, ba_Elems = [2]\<rparr>) = Inr (1, True)
   \<and> ba_GetIndex (Some \<lparr>ba_Bits = 2, ba_Elems = [2]\<rparr>) 1"
proof -
  have "ba_PickRandom (\<lambda>n k. 0) (Some \<lparr>ba_Bits = 2, ba_Elems = [2]\<rparr>) = Inr (1, True)"
    by code_simp
  then show ?thesis
    using ba_pickRandom_spec [of "\<lparr>ba_Bits = 2, ba_Elems = [2]\<rparr>" "\<lambda>n k. 0"] by (auto simp: wf_ba_def)
qed

text \<open>
  \<open>Or\<close> announces an array of the larger size, but it indexes the words of the argument with
  the words of the result: it panics exactly when the argument has fewer words than the receiver.
\<close>

theorem ba_or_panics:
  assumes "wf_ba b" and "wf_ba d"
  shows "ba_Or (Some b) (Inner d) = Inl Panic \<longleftrightarrow> length (ba_Elems d) < length (ba_Elems b)"
proof (cases "length (ba_Elems d) < length (ba_Elems b)")
  case True
  have "length (ba_Elems (ba_copyBits b (max (ba_Bits b) (ba_Bits d)))) \<ge> length (ba_Elems b)"
    using assms ba_words_mono [of "ba_Bits b" "max (ba_Bits b) (ba_Bits d)"]
    by (simp add: ba_copyBits_def wf_ba_def)
  then show ?thesis
    using True by (simp add: ba_Or_def Let_def zip_words_def)
next
  case False
  then show ?thesis
    using ba_or_bits [OF assms] assms by (auto simp: wf_ba_def)
qed

theorem ba_or_panics_witness:
  "ba_Or (Some \<lparr>ba_Bits = 65, ba_Elems = [0, 1]\<rparr>) (Inner \<lparr>ba_Bits = 64, ba_Elems = [1]\<rparr>) = Inl Panic"
  using ba_or_panics [of "\<lparr>ba_Bits = 65, ba_Elems = [0, 1]\<rparr>" "\<lparr>ba_Bits = 64, ba_Elems = [1]\<rparr>"]
  by (simp add: wf_ba_def)

end
