(* ===== verification/VoteSet.thy ===== *)
theory VoteSet
  imports TmExecution BitArray
begin

text \<open>
  The vote sets of the Tendermint plugin: \<open>plugin/consensus/tendermint/types/vote_set.go\<close>. A vote set
  collects the votes of one height, round and type; it keeps one vote per validator, the votes per
  block, and the first block that more than two thirds of the power voted for. Votes carry a block
  id (the pointer is not nil). \<open>TmPanic\<close> is a panic.
\<close>

section \<open>Definitions\<close>

record blockVotes =
  bv_peerMaj23 :: bool
  bv_bitArray :: bitarray
  bv_votes :: "vote option list"
  bv_sum :: int

definition newBlockVotes :: "bool \<Rightarrow> nat \<Rightarrow> blockVotes" where
  "newBlockVotes peerMaj23 numValidators =
     \<lparr>bv_peerMaj23 = peerMaj23, bv_bitArray = NewBitArray numValidators,
      bv_votes = replicate numValidators None, bv_sum = 0\<rparr>"

definition bv_addVerifiedVote :: "blockVotes \<Rightarrow> vote \<Rightarrow> int \<Rightarrow> blockVotes" where
  "bv_addVerifiedVote bv v votingPower =
     (let valIndex = nat (v_ValidatorIndex v) in
      if bv_votes bv ! valIndex = None then
        bv\<lparr>bv_bitArray := snd (ba_SetIndex (bv_bitArray bv) valIndex True),
           bv_votes := (bv_votes bv)[valIndex := Some v],
           bv_sum := add64 (bv_sum bv) votingPower\<rparr>
      else bv)"

definition bv_getByIndex :: "blockVotes option \<Rightarrow> nat \<Rightarrow> vote option" where
  "bv_getByIndex bv i = (case bv of None \<Rightarrow> None | Some bv \<Rightarrow> bv_votes bv ! i)"

record VoteSet =
  vt_chainID :: string
  vt_height :: int
  vt_round :: int
  vt_type :: nat
  vt_valSet :: ValidatorSet
  vt_votesBitArray :: bitarray
  vt_votes :: "vote option list"
  vt_sum :: int
  vt_maj23 :: "blockID option"
  vt_votesByBlock :: "string \<Rightarrow> blockVotes option"
  vt_peerMaj23s :: "string \<Rightarrow> blockID option"

definition NewVoteSet :: "string \<Rightarrow> int \<Rightarrow> int \<Rightarrow> nat \<Rightarrow> ValidatorSet \<Rightarrow> tm_err + VoteSet" where
  "NewVoteSet chainID h r t valSet =
     (if h = 0 then Inl TmPanic
      else Inr \<lparr>vt_chainID = chainID, vt_height = h, vt_round = r, vt_type = t, vt_valSet = valSet,
        vt_votesBitArray = NewBitArray (vs_Size valSet), vt_votes = replicate (vs_Size valSet) None,
        vt_sum = 0, vt_maj23 = None, vt_votesByBlock = (\<lambda>_. None), vt_peerMaj23s = (\<lambda>_. None)\<rparr>)"

definition vt_getVote :: "VoteSet \<Rightarrow> nat \<Rightarrow> string \<Rightarrow> vote option" where
  "vt_getVote V valIndex blockKey =
     (case vt_votes V ! valIndex of
        Some existing \<Rightarrow>
          if v_BlockID existing = blockKey then Some existing
          else bv_getByIndex (vt_votesByBlock V blockKey) valIndex
      | None \<Rightarrow> bv_getByIndex (vt_votesByBlock V blockKey) valIndex)"

text \<open>
  \<open>addVerifiedVote\<close> in its three parts: the canonical vote, the entry of the block, the quorum. The
  result is whether the vote was added, and a conflicting vote.
\<close>

definition add_canonical :: "VoteSet \<Rightarrow> vote \<Rightarrow> string \<Rightarrow> int \<Rightarrow> tm_err + vote option \<times> VoteSet" where
  "add_canonical V v blockKey votingPower =
     (let valIndex = nat (v_ValidatorIndex v);
          put = V\<lparr>vt_votes := (vt_votes V)[valIndex := Some v],
                  vt_votesBitArray := snd (ba_SetIndex (vt_votesBitArray V) valIndex True)\<rparr> in
      case vt_votes V ! valIndex of
        Some existing \<Rightarrow>
          if v_BlockID existing = v_BlockID v then Inl TmPanic
          else if vt_maj23 V = Some blockKey then Inr (Some existing, put)
          else Inr (Some existing, V)
      | None \<Rightarrow> Inr (None, put\<lparr>vt_sum := add64 (vt_sum V) votingPower\<rparr>))"

definition copy_votes :: "vote option list \<Rightarrow> vote option list \<Rightarrow> vote option list" where
  "copy_votes src dst = map2 (\<lambda>s d. if s = None then d else s) src dst"

definition add_to_block :: "VoteSet \<Rightarrow> blockVotes \<Rightarrow> vote \<Rightarrow> string \<Rightarrow> int \<Rightarrow> VoteSet" where
  "add_to_block V votesByBlock v blockKey votingPower =
     (let origSum = bv_sum votesByBlock;
          (tot, valSet) = TotalVotingPower (vt_valSet V);
          quorum = add64 (div64 (mul64 tot 2) 3) 1;
          votesByBlock' = bv_addVerifiedVote votesByBlock v votingPower;
          V' = V\<lparr>vt_valSet := valSet, vt_votesByBlock := (vt_votesByBlock V)(blockKey \<mapsto> votesByBlock')\<rparr> in
      if origSum < quorum \<and> quorum \<le> bv_sum votesByBlock' \<and> vt_maj23 V = None
      then V'\<lparr>vt_maj23 := Some (v_BlockID v), vt_votes := copy_votes (bv_votes votesByBlock') (vt_votes V)\<rparr>
      else V')"

definition vt_addVerifiedVote :: "VoteSet \<Rightarrow> vote \<Rightarrow> string \<Rightarrow> int \<Rightarrow> tm_err + (bool \<times> vote option) \<times> VoteSet" where
  "vt_addVerifiedVote V v blockKey votingPower =
     (case add_canonical V v blockKey votingPower of
        Inl e \<Rightarrow> Inl e
      | Inr (conflicting, V1) \<Rightarrow>
          (case vt_votesByBlock V1 blockKey of
             Some votesByBlock \<Rightarrow>
               if conflicting \<noteq> None \<and> \<not> bv_peerMaj23 votesByBlock then Inr ((False, conflicting), V1)
               else Inr ((True, conflicting), add_to_block V1 votesByBlock v blockKey votingPower)
           | None \<Rightarrow>
               if conflicting \<noteq> None then Inr ((False, conflicting), V1)
               else Inr ((True, conflicting), add_to_block V1 (newBlockVotes False (vs_Size (vt_valSet V1))) v blockKey votingPower)))"

datatype add_err = AErr tm_err | AConflict DuplicateVoteEvidence

definition NewConflictingVoteError :: "validator \<Rightarrow> vote \<Rightarrow> vote \<Rightarrow> add_err" where
  "NewConflictingVoteError val voteA voteB =
     AConflict \<lparr>dve_PubKey = hex_encode (val_PubKey val), dve_VoteA = voteA, dve_VoteB = voteB\<rparr>"

text \<open>\<open>addVote\<close> from the point where the signer \<open>val\<close> is known.\<close>

definition addVote_of :: "('pub, 'sig) crypto \<Rightarrow> VoteSet \<Rightarrow> vote \<Rightarrow> validator \<Rightarrow> (bool \<times> add_err option) \<times> VoteSet" where
  "addVote_of C V v val =
     (case vt_getVote V (nat (v_ValidatorIndex v)) (bid_Key (v_BlockID v)) of
        Some existing \<Rightarrow>
          if v_Signature existing = v_Signature v then ((False, None), V)
          else ((False, Some (AErr ErrVoteNonDeterministicSignature)), V)
      | None \<Rightarrow>
          (case PubKeyFromBytes C (val_PubKey val) of
             None \<Rightarrow> ((False, Some (AErr ErrPubKeyFromBytes)), V)
           | Some pubkey \<Rightarrow>
               (case vote_Verify C (vt_chainID V) v pubkey of
                  Inl e \<Rightarrow> ((False, Some (AErr e)), V)
                | Inr _ \<Rightarrow>
                    (case vt_addVerifiedVote V v (bid_Key (v_BlockID v)) (val_VotingPower val) of
                       Inl e \<Rightarrow> ((False, Some (AErr e)), V)
                     | Inr ((added, Some conflicting), V') \<Rightarrow>
                         ((added, Some (NewConflictingVoteError val conflicting v)), V')
                     | Inr ((added, None), V') \<Rightarrow>
                         if \<not> added then ((False, Some (AErr TmPanic)), V') else ((added, None), V')))))"

definition vt_addVote :: "('pub, 'sig) crypto \<Rightarrow> VoteSet \<Rightarrow> vote option \<Rightarrow> (bool \<times> add_err option) \<times> VoteSet" where
  "vt_addVote C V vo =
     (case vo of
        None \<Rightarrow> ((False, Some (AErr ErrVoteNil)), V)
      | Some v \<Rightarrow>
          if v_ValidatorIndex v < 0 then ((False, Some (AErr ErrVoteInvalidValidatorIndex)), V)
          else if length (v_ValidatorAddress v) = 0 then ((False, Some (AErr ErrVoteInvalidValidatorAddress)), V)
          else if v_Height v \<noteq> vt_height V \<or> v_Round v \<noteq> vt_round V \<or> v_Type v \<noteq> vt_type V
            then ((False, Some (AErr ErrVoteUnexpectedStep)), V)
          else case vs_GetByIndex (vt_valSet V) (v_ValidatorIndex v) of
            None \<Rightarrow> ((False, Some (AErr ErrVoteInvalidValidatorIndex)), V)
          | Some (lookupAddr, val) \<Rightarrow>
              if v_ValidatorAddress v \<noteq> lookupAddr then ((False, Some (AErr ErrVoteInvalidValidatorAddress)), V)
              else addVote_of C V v val)"

definition vt_AddVote :: "('pub, 'sig) crypto \<Rightarrow> VoteSet option \<Rightarrow> vote option \<Rightarrow> (bool \<times> add_err option) \<times> VoteSet option" where
  "vt_AddVote C V v =
     (case V of
        None \<Rightarrow> ((False, Some (AErr TmPanic)), None)
      | Some V \<Rightarrow> (case vt_addVote C V v of (r, V') \<Rightarrow> (r, Some V')))"

definition vt_SetPeerMaj23 :: "VoteSet \<Rightarrow> string \<Rightarrow> blockID \<Rightarrow> VoteSet" where
  "vt_SetPeerMaj23 V peerID b =
     (case vt_peerMaj23s V peerID of
        Some _ \<Rightarrow> V
      | None \<Rightarrow>
          let V1 = V\<lparr>vt_peerMaj23s := (vt_peerMaj23s V)(peerID \<mapsto> b)\<rparr> in
          (case vt_votesByBlock V b of
             Some bv \<Rightarrow>
               if bv_peerMaj23 bv then V1
               else V1\<lparr>vt_votesByBlock := (vt_votesByBlock V)(b \<mapsto> bv\<lparr>bv_peerMaj23 := True\<rparr>)\<rparr>
           | None \<Rightarrow> V1\<lparr>vt_votesByBlock := (vt_votesByBlock V)(b \<mapsto> newBlockVotes True (vs_Size (vt_valSet V)))\<rparr>))"

definition vt_BitArrayByBlockID :: "VoteSet \<Rightarrow> blockID \<Rightarrow> bitarray" where
  "vt_BitArrayByBlockID V b = (case vt_votesByBlock V b of Some bv \<Rightarrow> bv_bitArray bv | None \<Rightarrow> None)"

definition vt_GetByAddress :: "VoteSet \<Rightarrow> bytes \<Rightarrow> tm_err + vote option" where
  "vt_GetByAddress V a =
     (case vs_GetByAddress (vt_valSet V) a of
        (_, None) \<Rightarrow> Inl TmPanic
      | (i, Some _) \<Rightarrow> Inr (vt_votes V ! nat i))"

definition vt_HasTwoThirdsMajority :: "VoteSet option \<Rightarrow> bool" where
  "vt_HasTwoThirdsMajority V = (case V of None \<Rightarrow> False | Some V \<Rightarrow> vt_maj23 V \<noteq> None)"

definition vt_IsCommit :: "VoteSet option \<Rightarrow> bool" where
  "vt_IsCommit V = (case V of None \<Rightarrow> False | Some V \<Rightarrow> if vt_type V \<noteq> VoteTypePrecommit then False else vt_maj23 V \<noteq> None)"

definition vt_HasTwoThirdsAny :: "VoteSet option \<Rightarrow> bool" where
  "vt_HasTwoThirdsAny V =
     (case V of None \<Rightarrow> False | Some V \<Rightarrow> vt_sum V > div64 (mul64 (fst (TotalVotingPower (vt_valSet V))) 2) 3)"

definition vt_HasAll :: "VoteSet \<Rightarrow> bool" where
  "vt_HasAll V \<longleftrightarrow> vt_sum V = fst (TotalVotingPower (vt_valSet V))"

definition vt_TwoThirdsMajority :: "VoteSet option \<Rightarrow> blockID \<times> bool" where
  "vt_TwoThirdsMajority V =
     (case V of None \<Rightarrow> ([], False) | Some V \<Rightarrow> (case vt_maj23 V of Some b \<Rightarrow> (b, True) | None \<Rightarrow> ([], False)))"

definition vt_MakeCommit :: "VoteSet \<Rightarrow> tm_err + commit" where
  "vt_MakeCommit V =
     (if vt_type V \<noteq> VoteTypePrecommit then Inl TmPanic
      else case vt_maj23 V of
        None \<Rightarrow> Inl TmPanic
      | Some b \<Rightarrow> Inr \<lparr>c_BlockID = b,
          c_Precommits = map (\<lambda>item. case item of Some v \<Rightarrow> Some v | None \<Rightarrow> Some empty_vote) (vt_votes V)\<rparr>)"

section \<open>Bits that follow a list of votes\<close>

definition bits_of :: "bitarray \<Rightarrow> vote option list \<Rightarrow> bool" where
  "bits_of bA xs \<longleftrightarrow> (case bA of
     None \<Rightarrow> xs = []
   | Some b \<Rightarrow> wf_ba b \<and> ba_Bits b = length xs \<and> (\<forall>i < length xs. ba_getIndex b i \<longleftrightarrow> xs ! i \<noteq> None))"

lemma bits_of_new: "bits_of (NewBitArray n) (replicate n None)"
  using ba_new [of n] by (cases "n = 0") (auto simp: bits_of_def NewBitArray_def)

lemma bits_of_set:
  assumes "bits_of bA xs" and "i < length xs"
  shows "bits_of (snd (ba_SetIndex bA i True)) (xs[i := Some v])"
proof (cases bA)
  case None
  then show ?thesis
    using assms by (simp add: bits_of_def)
next
  case (Some b)
  then have "\<And>j. ba_getIndex (snd (ba_setIndex b i True)) j = (if j = i then True else ba_getIndex b j)"
    using assms by (intro ba_set_get) (auto simp: bits_of_def)
  then show ?thesis
    using assms Some by (auto simp: bits_of_def ba_SetIndex_def case_prod_beta nth_list_update)
qed

lemma bits_of_same: "bits_of bA xs \<Longrightarrow> length ys = length xs \<Longrightarrow> \<forall>i < length xs. ys ! i \<noteq> None \<longleftrightarrow> xs ! i \<noteq> None \<Longrightarrow> bits_of bA ys"
  by (auto simp: bits_of_def split: option.splits)

section \<open>The invariant\<close>

definition psum :: "ValidatorSet \<Rightarrow> vote option list \<Rightarrow> int" where
  "psum S xs = sum (power_at S) {i. i < length xs \<and> xs ! i \<noteq> None}"

definition Q :: "ValidatorSet \<Rightarrow> int" where
  "Q S = (2 * power_sum (vs_Validators S)) div 3 + 1"

text \<open>A vote of validator \<open>i\<close> for this height, round and type, with a valid signature.\<close>

definition ok_vote :: "('pub, 'sig) crypto \<Rightarrow> VoteSet \<Rightarrow> nat \<Rightarrow> vote \<Rightarrow> bool" where
  "ok_vote C V i v \<longleftrightarrow> v_ValidatorIndex v = int i \<and> i < vs_Size (vt_valSet V)
     \<and> v_Height v = vt_height V \<and> v_Round v = vt_round V \<and> v_Type v = vt_type V
     \<and> v_ValidatorAddress v = val_Address (vs_Validators (vt_valSet V) ! i)
     \<and> (\<exists>pub. PubKeyFromBytes C (val_PubKey (vs_Validators (vt_valSet V) ! i)) = Some pub
          \<and> vote_Verify C (vt_chainID V) v pub = Inr ())"

definition bv_ok :: "('pub, 'sig) crypto \<Rightarrow> VoteSet \<Rightarrow> string \<Rightarrow> blockVotes \<Rightarrow> bool" where
  "bv_ok C V k bv \<longleftrightarrow> length (bv_votes bv) = vs_Size (vt_valSet V)
     \<and> bv_sum bv = psum (vt_valSet V) (bv_votes bv) \<and> bits_of (bv_bitArray bv) (bv_votes bv)
     \<and> (\<forall>i v. i < vs_Size (vt_valSet V) \<longrightarrow> bv_votes bv ! i = Some v
          \<longrightarrow> ok_vote C V i v \<and> v_BlockID v = k \<and> vt_votes V ! i \<noteq> None)"

definition maj_ok :: "VoteSet \<Rightarrow> blockID \<Rightarrow> blockVotes \<Rightarrow> bool" where
  "maj_ok V b bv \<longleftrightarrow> Q (vt_valSet V) \<le> bv_sum bv
     \<and> (\<forall>i < vs_Size (vt_valSet V). bv_votes bv ! i \<noteq> None \<longrightarrow> (\<exists>v. vt_votes V ! i = Some v \<and> v_BlockID v = b))"

definition vt_inv :: "('pub, 'sig) crypto \<Rightarrow> VoteSet \<Rightarrow> bool" where
  "vt_inv C V \<longleftrightarrow> powers_ok (vt_valSet V) \<and> length (vt_votes V) = vs_Size (vt_valSet V)
     \<and> (\<forall>i v. i < vs_Size (vt_valSet V) \<longrightarrow> vt_votes V ! i = Some v \<longrightarrow> ok_vote C V i v)
     \<and> vt_sum V = psum (vt_valSet V) (vt_votes V) \<and> bits_of (vt_votesBitArray V) (vt_votes V)
     \<and> (\<forall>k bv. vt_votesByBlock V k = Some bv \<longrightarrow> bv_ok C V k bv)
     \<and> (case vt_maj23 V of
          Some b \<Rightarrow> (\<exists>bv. vt_votesByBlock V b = Some bv \<and> maj_ok V b bv)
        | None \<Rightarrow> (\<forall>k bv. vt_votesByBlock V k = Some bv \<longrightarrow> bv_sum bv < Q (vt_valSet V)))"

text \<open>What never changes in a vote set, up to the cached total power.\<close>

definition same_head :: "VoteSet \<Rightarrow> VoteSet \<Rightarrow> bool" where
  "same_head V V' \<longleftrightarrow> vt_chainID V' = vt_chainID V \<and> vt_height V' = vt_height V \<and> vt_round V' = vt_round V
     \<and> vt_type V' = vt_type V \<and> vs_Validators (vt_valSet V') = vs_Validators (vt_valSet V)"

lemma same_head_simps:
  assumes "same_head V V'"
  shows "ok_vote C V' i v = ok_vote C V i v" and "psum (vt_valSet V') xs = psum (vt_valSet V) xs"
    and "Q (vt_valSet V') = Q (vt_valSet V)" and "vs_Size (vt_valSet V') = vs_Size (vt_valSet V)"
  using assms by (simp_all add: same_head_def ok_vote_def psum_def Q_def vs_Size_def power_at_def cong: if_cong)

lemma psum_set:
  assumes "i < length xs" and "length xs = vs_Size S"
  shows "psum S (xs[i := Some v]) = psum S xs + (if xs ! i = None then power_at S i else 0)"
proof -
  let ?A = "{j. j < length xs \<and> xs ! j \<noteq> None}"
  have "{j. j < length (xs[i := Some v]) \<and> xs[i := Some v] ! j \<noteq> None} = insert i ?A"
    using assms(1) by (auto simp: nth_list_update)
  then show ?thesis
    using assms(1) by (simp add: psum_def insert_absorb)
qed

lemma psum_le: "length xs = vs_Size S \<Longrightarrow> 0 \<le> psum S xs \<and> psum S xs \<le> sum (power_at S) (members S)"
  unfolding psum_def by (intro conjI vpow.weight_mono sum_nonneg) (auto simp: members_def vs_Size_def power_at_def)

lemma power_at_nonneg: "0 \<le> power_at S i"
  by (simp add: power_at_def)

lemma psum_none [simp]: "psum S (replicate n None) = 0"
  by (simp add: psum_def cong: conj_cong)

lemma psum_same: "length ys = length xs \<Longrightarrow> \<forall>i < length xs. ys ! i \<noteq> None \<longleftrightarrow> xs ! i \<noteq> None \<Longrightarrow> psum S ys = psum S xs"
  unfolding psum_def by (rule sum.cong) auto

lemma quorum_Q:
  assumes "powers_ok S"
  shows "add64 (div64 (mul64 (fst (TotalVotingPower S)) 2) 3) 1 = Q S" and "0 < Q S"
proof -
  let ?p = "power_sum (vs_Validators S)"
  have "mul64 ?p 2 = 2 * ?p"
    using assms total_exact(2) [OF assms] by (simp add: mul64_exact in64_nonneg powers_ok_def mult.commute)
  then have d: "div64 (mul64 (fst (TotalVotingPower S)) 2) 3 = (2 * ?p) div 3"
    using assms total_exact [OF assms] by (simp add: div64_nonneg powers_ok_def)
  have "(2 * ?p) div 3 + 1 \<le> MaxInt64" "0 \<le> (2 * ?p) div 3"
    using assms total_exact(2) [OF assms] zdiv_mono1 [of "2 * ?p" MaxInt64 3]
    by (simp_all add: powers_ok_def MaxInt64_def)
  then show "add64 (div64 (mul64 (fst (TotalVotingPower S)) 2) 3) 1 = Q S" "0 < Q S"
    by (simp_all add: d Q_def add64_nonneg)
qed

lemma Q_two_thirds: "Q S \<le> t \<longleftrightarrow> 3 * t > 2 * power_sum (vs_Validators S)"
  unfolding Q_def by auto

section \<open>Every operation keeps the invariant\<close>

lemma vt_invD:
  assumes "vt_inv C V"
  shows "powers_ok (vt_valSet V)" "length (vt_votes V) = vs_Size (vt_valSet V)"
    "\<And>i v. i < vs_Size (vt_valSet V) \<Longrightarrow> vt_votes V ! i = Some v \<Longrightarrow> ok_vote C V i v"
    "vt_sum V = psum (vt_valSet V) (vt_votes V)" "bits_of (vt_votesBitArray V) (vt_votes V)"
    "\<And>k bv. vt_votesByBlock V k = Some bv \<Longrightarrow> bv_ok C V k bv"
    "\<And>b. vt_maj23 V = Some b \<Longrightarrow> \<exists>bv. vt_votesByBlock V b = Some bv \<and> maj_ok V b bv"
    "\<And>k bv. vt_maj23 V = None \<Longrightarrow> vt_votesByBlock V k = Some bv \<Longrightarrow> bv_sum bv < Q (vt_valSet V)"
  using assms by (simp_all add: vt_inv_def)

lemma vt_invI:
  assumes "powers_ok (vt_valSet V)" "length (vt_votes V) = vs_Size (vt_valSet V)"
    "\<And>i v. i < vs_Size (vt_valSet V) \<Longrightarrow> vt_votes V ! i = Some v \<Longrightarrow> ok_vote C V i v"
    "vt_sum V = psum (vt_valSet V) (vt_votes V)" "bits_of (vt_votesBitArray V) (vt_votes V)"
    "\<And>k bv. vt_votesByBlock V k = Some bv \<Longrightarrow> bv_ok C V k bv"
    "\<And>b. vt_maj23 V = Some b \<Longrightarrow> \<exists>bv. vt_votesByBlock V b = Some bv \<and> maj_ok V b bv"
    "\<And>k bv. vt_maj23 V = None \<Longrightarrow> vt_votesByBlock V k = Some bv \<Longrightarrow> bv_sum bv < Q (vt_valSet V)"
  shows "vt_inv C V"
  using assms unfolding vt_inv_def by (auto split: option.split)

text \<open>Setting the canonical vote of validator \<open>i\<close>.\<close>

definition put_vote :: "VoteSet \<Rightarrow> nat \<Rightarrow> vote \<Rightarrow> VoteSet" where
  "put_vote V i v = V\<lparr>vt_votes := (vt_votes V)[i := Some v],
     vt_votesBitArray := snd (ba_SetIndex (vt_votesBitArray V) i True),
     vt_sum := (if vt_votes V ! i = None then add64 (vt_sum V) (val_VotingPower (vs_Validators (vt_valSet V) ! i)) else vt_sum V)\<rparr>"

lemma put_vote_inv:
  assumes inv: "vt_inv C V" and v: "ok_vote C V i v"
    and maj: "vt_votes V ! i \<noteq> None \<Longrightarrow> vt_maj23 V = Some (v_BlockID v)"
  shows "vt_inv C (put_vote V i v)"
proof -
  note d = vt_invD [OF inv]
  let ?V = "put_vote V i v" and ?S = "vt_valSet V"
  have i: "i < vs_Size ?S" "i < length (vt_votes V)"
    using v d(2) by (simp_all add: ok_vote_def)
  have head: "same_head V ?V"
    by (simp add: same_head_def put_vote_def)
  note [simp] = same_head_simps [OF head]
  have at: "vt_votes ?V ! j = (if j = i then Some v else vt_votes V ! j)" for j
    using i(2) by (simp add: put_vote_def nth_list_update)
  have pw: "power_at ?S i = val_VotingPower (vs_Validators ?S ! i)"
    using power_at_nth [OF d(1)] i(1) by (simp add: vs_Size_def)
  have psum: "psum ?S (vt_votes ?V) = vt_sum ?V"
    using psum_set [OF i(2) d(2), of v] psum_le [of "vt_votes ?V" ?S] psum_le [OF d(2)] members_power [OF d(1)]
      total_exact(3) [OF d(1)] d(2,4) pw
    by (auto simp: put_vote_def add64_nonneg power_at_def split: if_splits)
  have bv: "bv_ok C ?V k bv" if "vt_votesByBlock V k = Some bv" for k bv
    using d(6) [OF that] by (auto simp: bv_ok_def at)
  have mj: "maj_ok ?V b bv" if "vt_votesByBlock V b = Some bv" "maj_ok V b bv" "vt_maj23 V = Some b" for b bv
  proof -
    have "bv_votes bv ! i \<noteq> None \<Longrightarrow> v_BlockID v = b"
      using d(6) [OF that(1)] maj that(3) i(1) by (auto simp: bv_ok_def)
    then show ?thesis
      using that(2) by (auto simp: maj_ok_def at)
  qed
  show ?thesis
  proof (rule vt_invI)
    show "bits_of (vt_votesBitArray ?V) (vt_votes ?V)"
      using bits_of_set [OF d(5) i(2)] by (simp add: put_vote_def)
    show "\<And>j w. j < vs_Size (vt_valSet ?V) \<Longrightarrow> vt_votes ?V ! j = Some w \<Longrightarrow> ok_vote C ?V j w"
      using d(3) v by (auto simp: at split: if_splits)
    show "\<And>b. vt_maj23 ?V = Some b \<Longrightarrow> \<exists>bv. vt_votesByBlock ?V b = Some bv \<and> maj_ok ?V b bv"
      using d(7) mj by (auto simp: put_vote_def)
  qed (use d bv psum in \<open>auto simp: put_vote_def\<close>)
qed

lemma TotalVotingPower_same:
  "vs_Validators (snd (TotalVotingPower S)) = vs_Validators S"
  by (simp add: TotalVotingPower_def Let_def)

lemma TotalVotingPower_powers_ok:
  assumes "powers_ok S"
  shows "powers_ok (snd (TotalVotingPower S))"
  using assms total_exact [OF assms] in64_nonneg [of "power_sum (vs_Validators S)"]
  by (auto simp: powers_ok_def TotalVotingPower_def Let_def cache_ok_def wrap64_id)

text \<open>Adding the vote of validator \<open>i\<close> to the votes of its block.\<close>

lemma bv_add_ok:
  assumes "bv_ok C V k bv" and "ok_vote C V i v" and "v_BlockID v = k" and "vt_votes V ! i \<noteq> None"
    and "bv_votes bv ! i = None" and "powers_ok (vt_valSet V)"
  shows "bv_ok C V k (bv_addVerifiedVote bv v (val_VotingPower (vs_Validators (vt_valSet V) ! i)))"
    and "bv_votes (bv_addVerifiedVote bv v (val_VotingPower (vs_Validators (vt_valSet V) ! i))) = (bv_votes bv)[i := Some v]"
    and "bv_sum bv \<le> bv_sum (bv_addVerifiedVote bv v (val_VotingPower (vs_Validators (vt_valSet V) ! i)))"
proof -
  let ?S = "vt_valSet V" and ?xs = "bv_votes bv"
  let ?b = "bv_addVerifiedVote bv v (val_VotingPower (vs_Validators ?S ! i))"
  have i: "v_ValidatorIndex v = int i" "i < vs_Size ?S" "i < length ?xs" "length ?xs = vs_Size ?S"
    using assms(1,2) by (simp_all add: bv_ok_def ok_vote_def)
  show vs: "bv_votes ?b = ?xs[i := Some v]"
    using i(1) assms(5) by (simp add: bv_addVerifiedVote_def Let_def)
  have pw: "power_at ?S i = val_VotingPower (vs_Validators ?S ! i)" "0 \<le> power_at ?S i"
    using power_at_nth [OF assms(6), of i] power_at_nonneg [of ?S i] i(2) by (simp_all add: vs_Size_def)
  have p: "psum ?S (?xs[i := Some v]) = psum ?S ?xs + power_at ?S i" "0 \<le> psum ?S ?xs"
      "psum ?S (?xs[i := Some v]) \<le> MaxInt64"
    using psum_set [OF i(3,4), of v] assms(5) psum_le [OF i(4)] psum_le [of "?xs[i := Some v]" ?S] i(4)
      members_power [OF assms(6)] total_exact(3) [OF assms(6)] by simp_all
  have s: "bv_sum ?b = psum ?S (bv_votes ?b)"
    using assms(1,5) p pw vs i(1) by (simp add: bv_addVerifiedVote_def Let_def bv_ok_def add64_nonneg)
  then show "bv_sum bv \<le> bv_sum ?b"
    using assms(1) p(1) pw(2) vs by (simp add: bv_ok_def)
  have "bits_of (bv_bitArray ?b) (bv_votes ?b)"
    using assms(1,5) bits_of_set [of "bv_bitArray bv" ?xs i v] i by (simp add: bv_addVerifiedVote_def Let_def bv_ok_def)
  moreover have "ok_vote C V j w \<and> v_BlockID w = k \<and> vt_votes V ! j \<noteq> None" if "j < vs_Size ?S" "bv_votes ?b ! j = Some w" for j w
    using that assms(1-4) i(3) by (auto simp: vs bv_ok_def nth_list_update split: if_splits)
  ultimately show "bv_ok C V k ?b"
    using s vs i(4) by (simp add: bv_ok_def)
qed

lemma copy_votes_nth:
  "length src = length dst \<Longrightarrow> j < length dst \<Longrightarrow> copy_votes src dst ! j = (if src ! j = None then dst ! j else src ! j)"
  by (simp add: copy_votes_def)

lemma copy_votes_length [simp]: "length src = length dst \<Longrightarrow> length (copy_votes src dst) = length dst"
  by (simp add: copy_votes_def)

text \<open>The state after a block has got the entry \<open>bv\<close>, before the quorum is looked at.\<close>

lemma set_block_inv:
  assumes inv: "vt_inv C V" and bv: "bv_ok C V k bv"
    and maj: "vt_maj23 V = Some k \<Longrightarrow> maj_ok V k bv" and none: "vt_maj23 V = None \<Longrightarrow> bv_sum bv < Q (vt_valSet V)"
    and S: "vs_Validators S = vs_Validators (vt_valSet V)" "powers_ok S"
  shows "vt_inv C (V\<lparr>vt_valSet := S, vt_votesByBlock := (vt_votesByBlock V)(k \<mapsto> bv), vt_peerMaj23s := p\<rparr>)" (is "vt_inv C ?V")
proof -
  note d = vt_invD [OF inv]
  have head: "same_head V ?V"
    by (simp add: same_head_def S)
  note [simp] = same_head_simps [OF head, simplified]
  have b: "bv_ok C ?V k' bv' = bv_ok C V k' bv'" "maj_ok ?V k' bv' = maj_ok V k' bv'" for k' bv'
    by (simp_all add: bv_ok_def maj_ok_def)
  show ?thesis
    by (rule vt_invI) (use d bv maj none S(2) in \<open>auto simp: b split: if_splits\<close>)
qed

lemma reach_quorum_inv:
  assumes bv: "vt_votesByBlock V k = Some bv" "bv_ok C V k bv" "Q (vt_valSet V) \<le> bv_sum bv"
    and pow: "powers_ok (vt_valSet V)" "length (vt_votes V) = vs_Size (vt_valSet V)"
    and votes: "\<And>i v. i < vs_Size (vt_valSet V) \<Longrightarrow> vt_votes V ! i = Some v \<Longrightarrow> ok_vote C V i v"
    and sum: "vt_sum V = psum (vt_valSet V) (vt_votes V)" "bits_of (vt_votesBitArray V) (vt_votes V)"
    and byBlock: "\<And>k bv. vt_votesByBlock V k = Some bv \<Longrightarrow> bv_ok C V k bv"
  shows "vt_inv C (V\<lparr>vt_maj23 := Some k, vt_votes := copy_votes (bv_votes bv) (vt_votes V)\<rparr>)" (is "vt_inv C ?V")
proof -
  have head: "same_head V ?V"
    by (simp add: same_head_def)
  note [simp] = same_head_simps [OF head, simplified]
  have len: "length (bv_votes bv) = length (vt_votes V)"
    using bv(2) pow(2) by (simp add: bv_ok_def)
  have at: "vt_votes ?V ! j = (if bv_votes bv ! j = None then vt_votes V ! j else bv_votes bv ! j)" if "j < vs_Size (vt_valSet V)" for j
    using copy_votes_nth [OF len, of j] that pow(2) by simp
  have some: "vt_votes ?V ! j \<noteq> None \<longleftrightarrow> vt_votes V ! j \<noteq> None" if "j < vs_Size (vt_valSet V)" for j
    using at [OF that] bv(2) that by (auto simp: bv_ok_def)
  have l: "length (vt_votes ?V) = length (vt_votes V)"
    using len by simp
  have b: "bv_ok C ?V k' bv' = bv_ok C V k' bv'" for k' bv'
    unfolding bv_ok_def using some by simp
  have p: "psum (vt_valSet V) (vt_votes ?V) = psum (vt_valSet V) (vt_votes V)" "bits_of (vt_votesBitArray V) (vt_votes ?V)"
    using psum_same [OF l] bits_of_same [OF sum(2) l] some pow(2) by simp_all
  have m: "maj_ok ?V k bv"
    using bv(2,3) at by (auto simp: maj_ok_def bv_ok_def)
  have o: "ok_vote C V j w" if "j < vs_Size (vt_valSet V)" "vt_votes ?V ! j = Some w" for j w
    using that at [OF that(1)] votes bv(2) by (auto simp: bv_ok_def split: if_splits)
  show ?thesis
    by (rule vt_invI) (use pow sum p m o bv(1) byBlock l b in auto)
qed

lemma add_to_block_inv:
  assumes inv: "vt_inv C V" and bv: "bv_ok C V k bv" and v: "ok_vote C V i v" "v_BlockID v = k"
    and votes: "vt_votes V ! i \<noteq> None" "bv_votes bv ! i = None"
    and maj: "vt_maj23 V = Some k \<Longrightarrow> vt_votesByBlock V k = Some bv \<and> (\<exists>w. vt_votes V ! i = Some w \<and> v_BlockID w = k)"
    and none: "vt_maj23 V = None \<Longrightarrow> bv_sum bv < Q (vt_valSet V)"
  shows "vt_inv C (add_to_block V bv v k (val_VotingPower (vs_Validators (vt_valSet V) ! i)))"
proof -
  note d = vt_invD [OF inv]
  let ?b = "bv_addVerifiedVote bv v (val_VotingPower (vs_Validators (vt_valSet V) ! i))"
  let ?V = "V\<lparr>vt_valSet := snd (TotalVotingPower (vt_valSet V)), vt_votesByBlock := (vt_votesByBlock V)(k \<mapsto> ?b)\<rparr>"
  note a = bv_add_ok [OF bv v votes d(1)]
  have i: "i < vs_Size (vt_valSet V)"
    using v(1) by (simp add: ok_vote_def)
  have m: "maj_ok V k ?b" if "vt_maj23 V = Some k"
  proof -
    have "maj_ok V k bv"
      using d(7) [OF that] maj [OF that] by auto
    then show ?thesis
      using a(2,3) maj [OF that] bv i by (auto simp: maj_ok_def bv_ok_def nth_list_update)
  qed
  have head: "same_head V ?V"
    by (simp add: same_head_def TotalVotingPower_same)
  note [simp] = same_head_simps [OF head, simplified]
  have def: "add_to_block V bv v k (val_VotingPower (vs_Validators (vt_valSet V) ! i)) =
      (if bv_sum bv < Q (vt_valSet V) \<and> Q (vt_valSet V) \<le> bv_sum ?b \<and> vt_maj23 V = None
       then ?V\<lparr>vt_maj23 := Some k, vt_votes := copy_votes (bv_votes ?b) (vt_votes V)\<rparr> else ?V)"
    using quorum_Q(1) [OF d(1)] v(2) by (simp add: add_to_block_def Let_def case_prod_beta)
  show ?thesis
  proof (cases "vt_maj23 V = None \<and> Q (vt_valSet V) \<le> bv_sum ?b")
    case True
    have b: "bv_ok C ?V k' bv' = bv_ok C V k' bv'" for k' bv'
      by (simp add: bv_ok_def)
    have "vt_inv C (?V\<lparr>vt_maj23 := Some k, vt_votes := copy_votes (bv_votes ?b) (vt_votes ?V)\<rparr>)"
      by (rule reach_quorum_inv [of ?V k ?b])
        (use d a(1) b True TotalVotingPower_powers_ok [OF d(1)] in \<open>auto split: if_splits\<close>)
    then show ?thesis
      using True none def by simp
  next
    case False
    then have "vt_inv C (?V\<lparr>vt_peerMaj23s := vt_peerMaj23s V\<rparr>)"
      using set_block_inv [OF inv a(1) m, of "snd (TotalVotingPower (vt_valSet V))" "vt_peerMaj23s V"]
        TotalVotingPower_powers_ok [OF d(1)] by (auto simp: TotalVotingPower_same)
    then show ?thesis
      using False def by auto
  qed
qed

lemma new_block_ok: "bv_ok C V k (newBlockVotes p (vs_Size (vt_valSet V)))"
  by (simp add: bv_ok_def newBlockVotes_def bits_of_new)

lemma getVote_None:
  assumes "vt_getVote V i k = None"
  shows "vt_votes V ! i = Some e \<Longrightarrow> v_BlockID e \<noteq> k" and "vt_votesByBlock V k = Some bv \<Longrightarrow> bv_votes bv ! i = None"
  using assms by (auto simp: vt_getVote_def bv_getByIndex_def split: option.splits if_splits)

text \<open>The state after the canonical vote, and what \<open>add_canonical\<close> returns.\<close>

lemma add_canonical_cases:
  assumes inv: "vt_inv C V" and v: "ok_vote C V i v" and new: "vt_getVote V i (v_BlockID v) = None"
  defines "V1 \<equiv> (if vt_votes V ! i = None \<or> vt_maj23 V = Some (v_BlockID v) then put_vote V i v else V)"
  shows "add_canonical V v (v_BlockID v) (val_VotingPower (vs_Validators (vt_valSet V) ! i)) = Inr (vt_votes V ! i, V1)"
    and "vt_inv C V1" and "ok_vote C V1 i v" and "vt_votes V1 ! i \<noteq> None"
    and "vt_maj23 V1 = Some (v_BlockID v) \<Longrightarrow> vt_votes V1 ! i = Some v"
    and "vt_votesByBlock V1 = vt_votesByBlock V" and "vt_maj23 V1 = vt_maj23 V" and "vt_valSet V1 = vt_valSet V"
    and "same_head V V1"
proof -
  note d = vt_invD [OF inv]
  have i: "v_ValidatorIndex v = int i" "i < length (vt_votes V)"
    using v d(2) by (simp_all add: ok_vote_def)
  have p: "vt_votes (put_vote V i v) ! i = Some v" "vt_votesByBlock (put_vote V i v) = vt_votesByBlock V"
      "vt_maj23 (put_vote V i v) = vt_maj23 V" "vt_valSet (put_vote V i v) = vt_valSet V" "same_head V (put_vote V i v)"
    using i(2) by (simp_all add: put_vote_def same_head_def)
  show "add_canonical V v (v_BlockID v) (val_VotingPower (vs_Validators (vt_valSet V) ! i)) = Inr (vt_votes V ! i, V1)"
    using i getVote_None(1) [OF new]
    by (auto simp: add_canonical_def Let_def V1_def put_vote_def split: option.split)
  show "vt_inv C V1"
    using inv put_vote_inv [OF inv v] by (auto simp: V1_def)
  show "vt_votes V1 ! i \<noteq> None" "vt_maj23 V1 = Some (v_BlockID v) \<Longrightarrow> vt_votes V1 ! i = Some v"
      "vt_votesByBlock V1 = vt_votesByBlock V" "vt_maj23 V1 = vt_maj23 V" "vt_valSet V1 = vt_valSet V" and h: "same_head V V1"
    using p by (auto simp: V1_def same_head_def)
  show "ok_vote C V1 i v"
    using v h by (simp add: same_head_def ok_vote_def vs_Size_def)
qed

lemma add_to_block_head: "same_head V V1 \<Longrightarrow> same_head V (add_to_block V1 bv v k p)"
  by (simp add: same_head_def add_to_block_def Let_def case_prod_beta TotalVotingPower_same)

lemma addVerifiedVote_inv:
  assumes inv: "vt_inv C V" and v: "ok_vote C V i v" and new: "vt_getVote V i (v_BlockID v) = None"
  shows "\<exists>added V'. vt_addVerifiedVote V v (v_BlockID v) (val_VotingPower (vs_Validators (vt_valSet V) ! i)) = Inr ((added, vt_votes V ! i), V')
    \<and> vt_inv C V' \<and> same_head V V' \<and> (vt_votes V ! i = None \<longrightarrow> added)"
proof -
  define V1 where "V1 = (if vt_votes V ! i = None \<or> vt_maj23 V = Some (v_BlockID v) then put_vote V i v else V)"
  note c = add_canonical_cases [OF inv v new, folded V1_def]
  let ?k = "v_BlockID v"
  note d = vt_invD [OF c(2)]
  have old: "vt_inv C (add_to_block V1 bv v ?k (val_VotingPower (vs_Validators (vt_valSet V1) ! i)))" if "vt_votesByBlock V ?k = Some bv" for bv
    by (rule add_to_block_inv [OF c(2) _ c(3) refl c(4)])
      (use that d(6,8) c(5,6) getVote_None(2) [OF new that] in auto)
  have fresh: "vt_inv C (add_to_block V1 (newBlockVotes False (vs_Size (vt_valSet V1))) v ?k (val_VotingPower (vs_Validators (vt_valSet V1) ! i)))"
    if "vt_votesByBlock V ?k = None"
  proof (rule add_to_block_inv [OF c(2) new_block_ok c(3) refl c(4)])
    show "bv_votes (newBlockVotes False (vs_Size (vt_valSet V1))) ! i = None"
      using c(3) by (simp add: newBlockVotes_def ok_vote_def)
    show "bv_sum (newBlockVotes False (vs_Size (vt_valSet V1))) < Q (vt_valSet V1)"
      using quorum_Q(2) [OF d(1)] by (simp add: newBlockVotes_def)
  qed (use that d(7) c(6) in auto)
  show ?thesis
    using c(1,2,9) old fresh add_to_block_head [OF c(9)]
    by (cases "vt_votesByBlock V ?k"; cases "vt_votes V ! i") (auto simp: vt_addVerifiedVote_def c(6,8))
qed

section \<open>Adding a vote\<close>

text \<open>A vote that passes the checks is a valid one of the validator at its index.\<close>

definition conflict_proved :: "('pub, 'sig) crypto \<Rightarrow> VoteSet \<Rightarrow> add_err option \<Rightarrow> bool" where
  "conflict_proved C V e \<longleftrightarrow> (case e of Some (AConflict d) \<Rightarrow> dve_Verify C (vt_chainID V) d = Inr () | _ \<Rightarrow> True)"

definition add_good :: "('pub, 'sig) crypto \<Rightarrow> VoteSet \<Rightarrow> (bool \<times> add_err option) \<times> VoteSet \<Rightarrow> bool" where
  "add_good C V r \<longleftrightarrow> vt_inv C (snd r) \<and> same_head V (snd r) \<and> snd (fst r) \<noteq> Some (AErr TmPanic) \<and> conflict_proved C V (snd (fst r))"

lemma add_good_error: "vt_inv C V \<Longrightarrow> e \<noteq> TmPanic \<Longrightarrow> add_good C V ((a, Some (AErr e)), V)"
  by (simp add: add_good_def conflict_proved_def same_head_def)

lemma add_good_none: "vt_inv C V \<Longrightarrow> add_good C V ((a, None), V)"
  by (simp add: add_good_def conflict_proved_def same_head_def)

lemma vote_Verify_no_panic: "vote_Verify C chainID v pub = Inl e \<Longrightarrow> e \<noteq> TmPanic"
  by (auto simp: vote_Verify_def split: if_splits option.splits)

lemma conflict_evidence:
  assumes "ok_vote C V i v" and "ok_vote C V i e" and "v_BlockID e \<noteq> v_BlockID v"
  shows "conflict_proved C V (Some (NewConflictingVoteError (vs_Validators (vt_valSet V) ! i) e v))"
proof -
  obtain pub where "PubKeyFromBytes C (val_PubKey (vs_Validators (vt_valSet V) ! i)) = Some pub"
      "vote_Verify C (vt_chainID V) v pub = Inr ()" "vote_Verify C (vt_chainID V) e pub = Inr ()"
    using assms(1,2) by (auto simp: ok_vote_def)
  then show ?thesis
    using assms by (auto simp: conflict_proved_def NewConflictingVoteError_def dve_Verify_def Let_def ok_vote_def
        PubKeyFromString_def hex_decode_encode bid_Equals_def vote_Verify_def split: if_splits option.splits)
qed

lemma add_verified_good:
  assumes inv: "vt_inv C V" and v: "ok_vote C V i v" and new: "vt_getVote V i (v_BlockID v) = None"
  defines "val \<equiv> vs_Validators (vt_valSet V) ! i"
  shows "add_good C V
    (case vt_addVerifiedVote V v (v_BlockID v) (val_VotingPower val) of
       Inl e \<Rightarrow> ((False, Some (AErr e)), V)
     | Inr ((added, Some conflicting), V') \<Rightarrow> ((added, Some (NewConflictingVoteError val conflicting v)), V')
     | Inr ((added, None), V') \<Rightarrow> if \<not> added then ((False, Some (AErr TmPanic)), V') else ((added, None), V'))"
proof -
  obtain added V' where r: "vt_addVerifiedVote V v (v_BlockID v) (val_VotingPower val) = Inr ((added, vt_votes V ! i), V')"
      "vt_inv C V'" "same_head V V'" "vt_votes V ! i = None \<longrightarrow> added"
    using addVerifiedVote_inv [OF inv v new, folded val_def] by (elim exE conjE) (rule that)
  show ?thesis
  proof (cases "vt_votes V ! i")
    case None
    then have "added"
      using r(4) by simp
    then have "add_good C V ((added, None), V')"
      using r(2,3) by (simp add: add_good_def conflict_proved_def)
    then show ?thesis
      using \<open>added\<close> by (simp only: r(1) None sum.case prod.case option.case simp_thms if_False)
  next
    case (Some e)
    have "ok_vote C V i e"
      using vt_invD(3) [OF inv _ Some] v by (simp add: ok_vote_def)
    then have "conflict_proved C V (Some (NewConflictingVoteError val e v))"
      unfolding val_def by (rule conflict_evidence [OF v _ getVote_None(1) [OF new Some]])
    then have "add_good C V ((added, Some (NewConflictingVoteError val e v)), V')"
      using r(2,3) by (simp add: add_good_def NewConflictingVoteError_def)
    then show ?thesis
      by (simp only: r(1) Some sum.case prod.case option.case)
  qed
qed

lemma addVote_of_good:
  assumes inv: "vt_inv C V" and i: "i = nat (v_ValidatorIndex v)" and val: "val = vs_Validators (vt_valSet V) ! i"
    and v: "\<And>pub. PubKeyFromBytes C (val_PubKey val) = Some pub \<Longrightarrow> vote_Verify C (vt_chainID V) v pub = Inr () \<Longrightarrow> ok_vote C V i v"
  shows "add_good C V (addVote_of C V v val)"
proof (cases "vt_getVote V i (v_BlockID v)")
  case (Some e)
  then show ?thesis
    using inv by (simp add: addVote_of_def bid_Key_def i [symmetric] add_good_none add_good_error)
next
  case new: None
  show ?thesis
  proof (cases "PubKeyFromBytes C (val_PubKey val)")
    case None
    then show ?thesis
      using inv new by (simp add: addVote_of_def bid_Key_def i [symmetric] add_good_error)
  next
    case (Some pub)
    show ?thesis
    proof (cases "vote_Verify C (vt_chainID V) v pub")
      case (Inl e)
      then show ?thesis
        using inv new Some vote_Verify_no_panic [OF Inl] by (simp add: addVote_of_def bid_Key_def i [symmetric] add_good_error)
    next
      case (Inr u)
      then have "ok_vote C V i v"
        using v [OF Some] by simp
      from add_verified_good [OF inv this new] show ?thesis
        unfolding addVote_of_def bid_Key_def i [symmetric] val [symmetric] by (simp only: new Some Inr option.case sum.case)
    qed
  qed
qed

lemma addVote_good:
  assumes inv: "vt_inv C V"
  shows "add_good C V (vt_addVote C V vo)"
proof (cases vo)
  case None
  then show ?thesis
    using inv by (simp add: vt_addVote_def add_good_error)
next
  case (Some v)
  let ?i = "nat (v_ValidatorIndex v)"
  let ?val = "vs_Validators (vt_valSet V) ! ?i"
  show ?thesis
  proof (cases "0 \<le> v_ValidatorIndex v \<and> v_Height v = vt_height V \<and> v_Round v = vt_round V
      \<and> v_Type v = vt_type V \<and> ?i < vs_Size (vt_valSet V) \<and> v_ValidatorAddress v = val_Address ?val")
    case True
    have "add_good C V (addVote_of C V v ?val)"
      by (rule addVote_of_good [OF inv refl refl]) (use True in \<open>auto simp: ok_vote_def\<close>)
    then show ?thesis
      using True inv add_good_error [OF inv]
      by (simp add: Some vt_addVote_def vs_GetByIndex_def vs_Size_def Let_def)
  next
    case False
    then show ?thesis
      using add_good_error [OF inv]
      by (auto simp: Some vt_addVote_def vs_GetByIndex_def vs_Size_def Let_def)
  qed
qed

section \<open>Reachable vote sets\<close>

lemma SetPeerMaj23_inv:
  assumes inv: "vt_inv C V"
  shows "vt_inv C (vt_SetPeerMaj23 V p b)" and "same_head V (vt_SetPeerMaj23 V p b)"
proof -
  note d = vt_invD [OF inv]
  show "same_head V (vt_SetPeerMaj23 V p b)"
    by (auto simp: vt_SetPeerMaj23_def same_head_def Let_def split: option.split)
  let ?P = "(vt_peerMaj23s V)(p \<mapsto> b)"
  have swap: "V\<lparr>vt_votesByBlock := B, vt_peerMaj23s := ?P\<rparr> = V\<lparr>vt_peerMaj23s := ?P, vt_votesByBlock := B\<rparr>" for B
    by (cases V) simp
  have upd: "vt_inv C (V\<lparr>vt_peerMaj23s := ?P, vt_votesByBlock := (vt_votesByBlock V)(b \<mapsto> bv)\<rparr>)"
    if "bv_ok C V b bv" "vt_maj23 V = Some b \<Longrightarrow> maj_ok V b bv" "vt_maj23 V = None \<Longrightarrow> bv_sum bv < Q (vt_valSet V)" for bv
    using set_block_inv [OF inv that refl d(1), of ?P] by (simp add: swap)
  show "vt_inv C (vt_SetPeerMaj23 V p b)"
  proof (cases "vt_peerMaj23s V p")
    case (Some x)
    then show ?thesis
      using inv by (simp add: vt_SetPeerMaj23_def)
  next
    case fresh: None
    show ?thesis
    proof (cases "vt_votesByBlock V b")
      case None
      have "vt_inv C (V\<lparr>vt_peerMaj23s := ?P, vt_votesByBlock := (vt_votesByBlock V)(b \<mapsto> newBlockVotes True (vs_Size (vt_valSet V)))\<rparr>)"
        by (rule upd [OF new_block_ok]) (use None d(7) quorum_Q(2) [OF d(1)] in \<open>auto simp: newBlockVotes_def\<close>)
      then show ?thesis
        using fresh None by (simp add: vt_SetPeerMaj23_def Let_def)
    next
      case (Some bv)
      have "bv_ok C V b (bv\<lparr>bv_peerMaj23 := x\<rparr>)" for x
        using d(6) [OF Some] by (simp add: bv_ok_def)
      then have "vt_inv C (V\<lparr>vt_peerMaj23s := ?P, vt_votesByBlock := (vt_votesByBlock V)(b \<mapsto> bv\<lparr>bv_peerMaj23 := True\<rparr>)\<rparr>)"
        by (rule upd) (use Some d(7,8) in \<open>auto simp: maj_ok_def\<close>)
      moreover have "V\<lparr>vt_peerMaj23s := ?P, vt_votesByBlock := (vt_votesByBlock V)(b \<mapsto> bv\<lparr>bv_peerMaj23 := True\<rparr>)\<rparr> = V\<lparr>vt_peerMaj23s := ?P\<rparr>"
        if "bv_peerMaj23 bv"
        using Some that by (cases V; cases bv) (auto simp: fun_eq_iff)
      ultimately show ?thesis
        using fresh Some by (auto simp: vt_SetPeerMaj23_def Let_def)
    qed
  qed
qed

inductive vt_reach :: "('pub, 'sig) crypto \<Rightarrow> string \<Rightarrow> int \<Rightarrow> int \<Rightarrow> nat \<Rightarrow> ValidatorSet \<Rightarrow> VoteSet \<Rightarrow> bool"
  for C chainID h r t S where
  vt_new: "NewVoteSet chainID h r t S = Inr V \<Longrightarrow> vt_reach C chainID h r t S V"
| vt_add: "vt_reach C chainID h r t S V \<Longrightarrow> vt_reach C chainID h r t S (snd (vt_addVote C V vo))"
| vt_peer: "vt_reach C chainID h r t S V \<Longrightarrow> vt_reach C chainID h r t S (vt_SetPeerMaj23 V p b)"

lemma NewVoteSet_inv:
  assumes "NewVoteSet chainID h r t S = Inr V" and "powers_ok S"
  shows "vt_inv C V"
  using assms quorum_Q(2) [OF assms(2)]
  by (auto simp: NewVoteSet_def vt_inv_def bits_of_new split: if_splits)

text \<open>What a reachable vote set is about.\<close>

definition vt_about :: "string \<Rightarrow> int \<Rightarrow> int \<Rightarrow> nat \<Rightarrow> ValidatorSet \<Rightarrow> VoteSet \<Rightarrow> bool" where
  "vt_about chainID h r t S V \<longleftrightarrow> vt_chainID V = chainID \<and> vt_height V = h \<and> vt_round V = r \<and> vt_type V = t
     \<and> vs_Validators (vt_valSet V) = vs_Validators S"

lemma vt_reach_inv:
  assumes "vt_reach C chainID h r t S V" and "powers_ok S"
  shows "vt_inv C V \<and> vt_about chainID h r t S V"
  using assms
proof (induction rule: vt_reach.induct)
  case (vt_new V)
  then show ?case
    using NewVoteSet_inv [OF vt_new] by (auto simp: NewVoteSet_def vt_about_def split: if_splits)
next
  case (vt_add V vo)
  then show ?case
    using addVote_good [of C V vo] by (auto simp: add_good_def same_head_def vt_about_def)
next
  case (vt_peer V p b)
  then show ?case
    using SetPeerMaj23_inv [of C V p b] by (auto simp: same_head_def vt_about_def)
qed

end
