(* ===== verification/VoteSafety.thy ===== *)
theory VoteSafety
  imports VoteSet
begin

text \<open>
  What the vote sets of \<open>vote_set.go\<close> promise: no panic, a majority exactly when more than two
  thirds of the power agree, conflicts that are evidence, and commits that are accepted.
\<close>

section \<open>Majorities\<close>

text \<open>The validators whose canonical vote is for the block.\<close>

definition voters :: "VoteSet \<Rightarrow> blockID \<Rightarrow> nat set" where
  "voters V b = {i \<in> members (vt_valSet V). \<exists>v. vt_votes V ! i = Some v \<and> v_BlockID v = b}"

lemma maj_voters:
  assumes inv: "vt_inv C V" and maj: "vt_maj23 V = Some b"
  shows "3 * sum (power_at (vt_valSet V)) (voters V b) > 2 * sum (power_at (vt_valSet V)) (members (vt_valSet V))"
proof -
  note d = vt_invD [OF inv]
  obtain bv where bv: "vt_votesByBlock V b = Some bv" "maj_ok V b bv" "bv_ok C V b bv"
    using d(6,7) maj by blast
  let ?S = "vt_valSet V"
  have "{i. i < length (bv_votes bv) \<and> bv_votes bv ! i \<noteq> None} \<subseteq> voters V b"
    using bv(2,3) by (auto simp: voters_def maj_ok_def bv_ok_def members_def vs_Size_def)
  then have "psum ?S (bv_votes bv) \<le> sum (power_at ?S) (voters V b)"
    unfolding psum_def by (rule vpow.weight_mono) (auto simp: voters_def)
  moreover have "3 * psum ?S (bv_votes bv) > 2 * power_sum (vs_Validators ?S)"
    using bv(2,3) Q_two_thirds [of ?S "bv_sum bv"] by (simp add: maj_ok_def bv_ok_def)
  ultimately show ?thesis
    using members_power [OF d(1)] by linarith
qed

lemma maj_iff_block:
  assumes inv: "vt_inv C V"
  shows "vt_maj23 V \<noteq> None \<longleftrightarrow> (\<exists>b bv. vt_votesByBlock V b = Some bv \<and> 3 * psum (vt_valSet V) (bv_votes bv) > 2 * power_sum (vs_Validators (vt_valSet V)))"
proof -
  note d = vt_invD [OF inv]
  have q: "bv_sum bv < Q (vt_valSet V) \<longleftrightarrow> \<not> 3 * psum (vt_valSet V) (bv_votes bv) > 2 * power_sum (vs_Validators (vt_valSet V))"
    if "vt_votesByBlock V b = Some bv" for b bv
    using d(6) [OF that] Q_two_thirds [of "vt_valSet V" "bv_sum bv"] by (auto simp: bv_ok_def)
  show ?thesis
  proof (cases "vt_maj23 V")
    case None
    then show ?thesis
      using d(8) q by auto
  next
    case (Some b)
    then obtain bv where "vt_votesByBlock V b = Some bv" "Q (vt_valSet V) \<le> bv_sum bv"
      using d(7) by (auto simp: maj_ok_def)
    then have "vt_votesByBlock V b = Some bv \<and> 3 * psum (vt_valSet V) (bv_votes bv) > 2 * power_sum (vs_Validators (vt_valSet V))"
      using q [of b bv] by (simp add: not_less not_le)
    then show ?thesis
      using Some by blast
  qed
qed

section \<open>The commit of a majority\<close>

lemma verify_loop_ok:
  assumes "idx + length items \<le> length (vs_Validators S)"
    and "\<And>j. j < length items \<Longrightarrow> has_sig (items ! j) \<Longrightarrow> v_Height (the (items ! j)) = h \<and> v_Round (the (items ! j)) = r
      \<and> v_Type (the (items ! j)) = VoteTypePrecommit
      \<and> (\<exists>pub sig. PubKeyFromBytes C (val_PubKey (vs_Validators S ! (idx + j))) = Some pub
           \<and> SignatureFromBytes C (v_Signature (the (items ! j))) = Some sig
           \<and> VerifyBytes C pub (SignBytes_vote chainID (the (items ! j))) sig)"
  shows "\<exists>t. verify_loop C S chainID b h r idx items tally = Inr t"
  using assms
proof (induction items arbitrary: idx tally)
  case (Cons item items)
  have ih: "\<exists>t. verify_loop C S chainID b h r (Suc idx) items t' = Inr t" for t'
  proof (rule Cons.IH)
    show "Suc idx + length items \<le> length (vs_Validators S)"
      using Cons.prems(1) by simp
    fix j
    assume "j < length items" "has_sig (items ! j)"
    then show "v_Height (the (items ! j)) = h \<and> v_Round (the (items ! j)) = r
      \<and> v_Type (the (items ! j)) = VoteTypePrecommit
      \<and> (\<exists>pub sig. PubKeyFromBytes C (val_PubKey (vs_Validators S ! (Suc idx + j))) = Some pub
           \<and> SignatureFromBytes C (v_Signature (the (items ! j))) = Some sig
           \<and> VerifyBytes C pub (SignBytes_vote chainID (the (items ! j))) sig)"
      using Cons.prems(2) [of "Suc j"] by simp
  qed
  show ?case
    using ih Cons.prems(1) Cons.prems(2) [of 0] by (auto simp: vs_GetByIndex_def Let_def)
qed simp

lemma ok_vote_sig:
  assumes "ok_vote C V i v" and "SignatureFromBytes C [] = None"
  shows "has_sig (Some v)" and "signed_by C (vt_valSet V) (vt_chainID V) (v_BlockID v) (vt_height V) (vt_round V) i (Some v) \<longleftrightarrow> vt_type V = VoteTypePrecommit"
    and "\<exists>pub sig. PubKeyFromBytes C (val_PubKey (vs_Validators (vt_valSet V) ! i)) = Some pub
           \<and> SignatureFromBytes C (v_Signature v) = Some sig \<and> VerifyBytes C pub (SignBytes_vote (vt_chainID V) v) sig"
proof -
  show s: "\<exists>pub sig. PubKeyFromBytes C (val_PubKey (vs_Validators (vt_valSet V) ! i)) = Some pub
           \<and> SignatureFromBytes C (v_Signature v) = Some sig \<and> VerifyBytes C pub (SignBytes_vote (vt_chainID V) v) sig"
    using assms(1) by (auto simp: ok_vote_def vote_Verify_def split: if_splits option.splits)
  show h: "has_sig (Some v)"
    using s assms(2) by (auto simp: has_sig_def)
  show "signed_by C (vt_valSet V) (vt_chainID V) (v_BlockID v) (vt_height V) (vt_round V) i (Some v) \<longleftrightarrow> vt_type V = VoteTypePrecommit"
    using assms(1) s h by (auto simp: signed_by_def ok_vote_def)
qed

definition commit_of :: "VoteSet \<Rightarrow> blockID \<Rightarrow> commit" where
  "commit_of V b = \<lparr>c_BlockID = b, c_Precommits = map (\<lambda>item. case item of Some v \<Rightarrow> Some v | None \<Rightarrow> Some empty_vote) (vt_votes V)\<rparr>"

lemma commit_items:
  assumes inv: "vt_inv C V" and sig: "SignatureFromBytes C [] = None" and j: "j < vs_Size (vt_valSet V)"
  shows "has_sig (c_Precommits (commit_of V b) ! j) \<longleftrightarrow> vt_votes V ! j \<noteq> None"
    and "vt_votes V ! j = Some v \<Longrightarrow> c_Precommits (commit_of V b) ! j = Some v"
proof -
  have l: "j < length (vt_votes V)"
    using vt_invD(2) [OF inv] j by simp
  show i: "vt_votes V ! j = Some v \<Longrightarrow> c_Precommits (commit_of V b) ! j = Some v" for v
    using l by (simp add: commit_of_def)
  show "has_sig (c_Precommits (commit_of V b) ! j) \<longleftrightarrow> vt_votes V ! j \<noteq> None"
  proof (cases "vt_votes V ! j")
    case None
    then show ?thesis
      using l by (simp add: commit_of_def has_sig_def empty_vote_def)
  next
    case (Some v)
    then show ?thesis
      using i ok_vote_sig(1) [OF vt_invD(3) [OF inv j Some] sig] by simp
  qed
qed

lemma commit_first:
  assumes inv: "vt_inv C V" and sig: "SignatureFromBytes C [] = None" and i: "i < vs_Size (vt_valSet V)" "vt_votes V ! i \<noteq> None"
  shows "commit_Height (commit_of V b) = Inr (vt_height V)" and "commit_Round (commit_of V b) = Inr (vt_round V)"
proof -
  let ?ps = "c_Precommits (commit_of V b)"
  have l: "length ?ps = vs_Size (vt_valSet V)"
    using vt_invD(2) [OF inv] by (simp add: commit_of_def)
  have "has_sig (?ps ! i)"
    using commit_items(1) [OF inv sig i(1)] i(2) by simp
  then have "filter has_sig ?ps \<noteq> []"
    using l i(1) by (metis filter_empty_conv nth_mem)
  then obtain p rest where f: "filter has_sig ?ps = p # rest"
    by (cases "filter has_sig ?ps") auto
  then have "p \<in> set (filter has_sig ?ps)"
    by simp
  then have "p \<in> set ?ps" "has_sig p"
    by simp_all
  then obtain j where j: "j < vs_Size (vt_valSet V)" "?ps ! j = p"
    using l by (auto simp: in_set_conv_nth)
  then obtain v where v: "vt_votes V ! j = Some v" "p = Some v"
    using commit_items [OF inv sig j(1)] \<open>has_sig p\<close> by auto
  have "ok_vote C V j v"
    using vt_invD(3) [OF inv j(1) v(1)] .
  then have "v_Height v = vt_height V" "v_Round v = vt_round V"
    by (simp_all add: ok_vote_def)
  moreover have "?ps \<noteq> []"
    using \<open>p \<in> set ?ps\<close> by auto
  ultimately show "commit_Height (commit_of V b) = Inr (vt_height V)" "commit_Round (commit_of V b) = Inr (vt_round V)"
    using f v(2) by (simp_all add: commit_Height_def commit_Round_def FirstPrecommit_def)
qed

lemma commit_of_loop:
  assumes inv: "vt_inv C V" and sig: "SignatureFromBytes C [] = None"
    and t: "vt_type V = VoteTypePrecommit" and S: "vs_Validators S = vs_Validators (vt_valSet V)"
  shows "\<exists>tt. verify_loop C S (vt_chainID V) b (vt_height V) (vt_round V) 0 (c_Precommits (commit_of V b)) 0 = Inr tt"
proof (rule verify_loop_ok)
  let ?ps = "c_Precommits (commit_of V b)"
  have l: "length ?ps = vs_Size (vt_valSet V)"
    using vt_invD(2) [OF inv] by (simp add: commit_of_def)
  then show "0 + length ?ps \<le> length (vs_Validators S)"
    using S by (simp add: vs_Size_def)
  fix j
  assume j: "j < length ?ps" "has_sig (?ps ! j)"
  then have j': "j < vs_Size (vt_valSet V)"
    using l by simp
  obtain v where v: "vt_votes V ! j = Some v" "?ps ! j = Some v"
    using j(2) commit_items(1) [OF inv sig j', of b] commit_items(2) [OF inv sig j'] by auto
  have "ok_vote C V j v"
    using vt_invD(3) [OF inv j' v(1)] .
  then show "v_Height (the (?ps ! j)) = vt_height V \<and> v_Round (the (?ps ! j)) = vt_round V
      \<and> v_Type (the (?ps ! j)) = VoteTypePrecommit
      \<and> (\<exists>pub sig. PubKeyFromBytes C (val_PubKey (vs_Validators S ! (0 + j))) = Some pub
           \<and> SignatureFromBytes C (v_Signature (the (?ps ! j))) = Some sig
           \<and> VerifyBytes C pub (SignBytes_vote (vt_chainID V) (the (?ps ! j))) sig)"
    using ok_vote_sig(3) [OF _ sig] t v(2) S by (simp add: ok_vote_def)
qed

lemma commit_of_signed:
  assumes inv: "vt_inv C V" and sig: "SignatureFromBytes C [] = None"
    and t: "vt_type V = VoteTypePrecommit" and S: "vs_Validators S = vs_Validators (vt_valSet V)" and j: "j \<in> voters V b"
  shows "signed_by C S (vt_chainID V) b (vt_height V) (vt_round V) j (c_Precommits (commit_of V b) ! j)"
proof -
  obtain v where v: "j < vs_Size (vt_valSet V)" "vt_votes V ! j = Some v" "v_BlockID v = b"
    using j by (auto simp: voters_def members_def vs_Size_def)
  have "signed_by C (vt_valSet V) (vt_chainID V) b (vt_height V) (vt_round V) j (Some v)"
    using ok_vote_sig(2) [OF vt_invD(3) [OF inv v(1,2)] sig] t v(3) by simp
  then show ?thesis
    using commit_items(2) [OF inv sig v(1,2), of b] S by (simp add: signed_by_def)
qed

lemma commit_of_verifies:
  assumes inv: "vt_inv C V" and sig: "SignatureFromBytes C [] = None" and maj: "vt_maj23 V = Some b"
    and t: "vt_type V = VoteTypePrecommit" and S: "powers_ok S" "vs_Validators S = vs_Validators (vt_valSet V)"
  shows "VerifyCommit C S (vt_chainID V) b (vt_height V) (commit_of V b) = Inr ()"
proof -
  let ?T = "vt_valSet V" and ?ps = "c_Precommits (commit_of V b)"
  let ?s = "\<lambda>j. signed_by C S (vt_chainID V) b (vt_height V) (vt_round V) j (?ps ! j)"
  note m = maj_voters [OF inv maj]
  have p: "power_at S = power_at ?T" "members S = members ?T" "vs_Size S = vs_Size ?T"
    using S(2) by (simp_all add: power_at_def members_def vs_Size_def fun_eq_iff)
  have l: "length ?ps = vs_Size S" "members S = {..<length ?ps}"
    using vt_invD(2) [OF inv] p(3) by (simp_all add: commit_of_def members_def vs_Size_def)
  have "voters V b \<noteq> {}"
    using m sum_nonneg [of "members ?T" "power_at ?T"] power_at_nonneg by auto
  then obtain i where i: "i < vs_Size ?T" "vt_votes V ! i \<noteq> None"
    by (auto simp: voters_def members_def vs_Size_def)
  obtain tt where tt: "verify_loop C S (vt_chainID V) b (vt_height V) (vt_round V) 0 ?ps 0 = Inr tt"
    using commit_of_loop [OF inv sig t S(2)] by blast
  have "(\<Sum>j < length ?ps. power_at S j) \<le> MaxInt64"
    using members_power [OF S(1)] total_exact(3) [OF S(1)] l(2) by simp
  then have "tt = (\<Sum>j < length ?ps. if ?s j then power_at S j else 0)"
    using verify_loop_sum [OF tt S(1)] l(1) by (simp add: vs_Size_def cong: if_cong)
  also have "\<dots> = sum (power_at S) {j \<in> {..<length ?ps}. ?s j}"
    by (simp add: sum.inter_filter [symmetric])
  also have "\<dots> \<ge> sum (power_at S) (voters V b)"
    using commit_of_signed [OF inv sig t S(2)] l(2) p(2) power_at_nonneg
    by (intro sum_mono2) (auto simp: voters_def)
  finally have "3 * tt > 2 * power_sum (vs_Validators S)"
    using m [folded p(1,2)] members_power [OF S(1)] by linarith
  then show ?thesis
    using l(1) commit_first [OF inv sig i, of b] tt two_thirds [OF S(1), of tt] by (simp add: VerifyCommit_def)
qed

lemma validate_missing:
  assumes "\<forall>p \<in> set ps. p = Some empty_vote \<or> (\<exists>v. p = Some v \<and> v_Type v = VoteTypePrecommit \<and> v_Height v = h \<and> v_Round v = r)"
    and "Some empty_vote \<in> set ps"
  shows "validate_precommits h r ps = Inl Err_NotPrecommit"
  using assms by (induction ps) (auto simp: empty_vote_def to_byte_def VoteTypePrecommit_def)

section \<open>Properties\<close>


text \<open>A run with three validators: two precommits for a block, then a third.\<close>

definition vote_by :: "bytes \<Rightarrow> int \<Rightarrow> bytes \<Rightarrow> vote" where
  "vote_by who i b = \<lparr>v_ValidatorAddress = who, v_ValidatorIndex = i, v_Height = 5, v_Round = 0, v_Timestamp = 0,
     v_Type = 2, v_BlockID = b, v_Signature = who\<rparr>"

definition run0 :: VoteSet where
  "run0 = projr (NewVoteSet ''chain'' 5 0 2 set_abc)"

definition run3 :: "bytes \<Rightarrow> VoteSet" where
  "run3 b = snd (vt_addVote toy_crypto (snd (vt_addVote toy_crypto (snd (vt_addVote toy_crypto run0
     (Some (vote_by ''a'' 0 ''B'')))) (Some (vote_by ''b'' 1 ''B'')))) (Some (vote_by ''c'' 2 b)))"

lemma run0_reach: "vt_reach toy_crypto ''chain'' 5 0 2 set_abc run0"
  by (rule vt_new) (simp add: run0_def NewVoteSet_def)

lemma run3_reach: "vt_reach toy_crypto ''chain'' 5 0 2 set_abc (run3 b)"
  unfolding run3_def by (intro vt_add run0_reach)


text \<open>
  C17. A reachable vote set reports a two thirds majority exactly when it has counted more than two
  thirds of the voting power for one block, and then the canonical votes for the block it reports
  hold more than two thirds of the power.
\<close>

theorem voteSet_majority:
  assumes "vt_reach C chainID h r t S V" and "powers_ok S"
  shows "(vt_HasTwoThirdsMajority (Some V) \<longleftrightarrow>
      (\<exists>b bv. vt_votesByBlock V b = Some bv \<and> 3 * psum (vt_valSet V) (bv_votes bv) > 2 * power_sum (vs_Validators S)))
    \<and> (vt_TwoThirdsMajority (Some V) = (b, True) \<longrightarrow>
      3 * sum (power_at (vt_valSet V)) (voters V b) > 2 * sum (power_at (vt_valSet V)) (members (vt_valSet V)))"
proof -
  have inv: "vt_inv C V" "vs_Validators (vt_valSet V) = vs_Validators S"
    using vt_reach_inv [OF assms] by (simp_all add: vt_about_def)
  show ?thesis
    using maj_iff_block [OF inv(1)] maj_voters [OF inv(1)] inv(2)
    by (auto simp: vt_HasTwoThirdsMajority_def vt_TwoThirdsMajority_def split: option.splits)
qed

lemma run3_majority: "vt_maj23 (run3 ''B'') = Some ''B''" "vt_maj23 (run3 ''D'') = None" "vt_type (run3 ''B'') = VoteTypePrecommit"
  by code_simp+

theorem voteSet_majority_witness:
  "vt_HasTwoThirdsMajority (Some (run3 ''B''))
   \<and> 3 * sum (power_at (vt_valSet (run3 ''B''))) (voters (run3 ''B'') ''B'')
     > 2 * sum (power_at (vt_valSet (run3 ''B''))) (members (vt_valSet (run3 ''B'')))"
  using voteSet_majority [OF run3_reach set_abc_powers, of "''B''" "''B''"] run3_majority(1)
  by (simp add: vt_HasTwoThirdsMajority_def vt_TwoThirdsMajority_def)

text \<open>
  C30. When adding a vote reports a conflict, the report is evidence that \<open>DuplicateVoteEvidence.Verify\<close>
  accepts: two valid votes of one validator for one height, round and type and two blocks.
\<close>

theorem voteSet_conflict_evidence:
  assumes "vt_reach C chainID h r t S V" and "powers_ok S" and "vt_addVote C V vo = ((added, Some (AConflict d)), V')"
  shows "dve_Verify C chainID d = Inr ()"
  using vt_reach_inv [OF assms(1,2)] addVote_good [of C V vo] assms(3)
  by (simp add: add_good_def conflict_proved_def vt_about_def)

theorem voteSet_conflict_evidence_witness:
  "\<exists>added d V'. vt_addVote toy_crypto (run3 ''B'') (Some (vote_by ''a'' 0 ''D'')) = ((added, Some (AConflict d)), V')
     \<and> dve_Verify toy_crypto ''chain'' d = Inr ()"
proof -
  let ?r = "vt_addVote toy_crypto (run3 ''B'') (Some (vote_by ''a'' 0 ''D''))"
  let ?d = "\<lparr>dve_PubKey = ''61'', dve_VoteA = vote_by ''a'' 0 ''B'', dve_VoteB = vote_by ''a'' 0 ''D''\<rparr>"
  have "snd (fst ?r) = Some (AConflict ?d)"
    by code_simp
  then have a: "?r = ((fst (fst ?r), Some (AConflict ?d)), snd ?r)"
    by (metis prod.collapse)
  from voteSet_conflict_evidence [OF run3_reach set_abc_powers a] a show ?thesis
    by blast
qed



text \<open>
  The commit of a majority with a missing vote does not pass \<open>Commit.ValidateBasic\<close>, which says
  that missing precommits are fine: \<open>MakeCommit\<close> puts an empty vote where one is missing, and
  \<open>ValidateBasic\<close> skips only nil.
\<close>

theorem makeCommit_not_basic:
  assumes "vt_reach C chainID h r VoteTypePrecommit S V" and "powers_ok S" and "SignatureFromBytes C [] = None"
    and "vt_TwoThirdsMajority (Some V) = (b, True)" and "b \<noteq> []" and "None \<in> set (vt_votes V)"
  shows "\<exists>c. vt_MakeCommit V = Inr c \<and> commit_ValidateBasic c = Inl Err_NotPrecommit"
proof -
  have v: "vt_inv C V" "vt_about chainID h r VoteTypePrecommit S V" "vt_maj23 V = Some b"
    using vt_reach_inv [OF assms(1,2)] assms(4) by (auto simp: vt_TwoThirdsMajority_def split: option.splits)
  let ?ps = "c_Precommits (commit_of V b)"
  have "voters V b \<noteq> {}"
    using maj_voters [OF v(1,3)] sum_nonneg [of "members (vt_valSet V)" "power_at (vt_valSet V)"] power_at_nonneg by auto
  then obtain i where "i < vs_Size (vt_valSet V)" "vt_votes V ! i \<noteq> None"
    by (auto simp: voters_def members_def vs_Size_def)
  note f = commit_first [OF v(1) assms(3) this, of b]
  have "validate_precommits (vt_height V) (vt_round V) ?ps = Inl Err_NotPrecommit"
  proof (rule validate_missing)
    show "\<forall>p \<in> set ?ps. p = Some empty_vote \<or> (\<exists>v. p = Some v \<and> v_Type v = VoteTypePrecommit \<and> v_Height v = vt_height V \<and> v_Round v = vt_round V)"
    proof
      fix p
      assume "p \<in> set ?ps"
      then obtain j where j: "j < vs_Size (vt_valSet V)" "p = (case vt_votes V ! j of Some v \<Rightarrow> Some v | None \<Rightarrow> Some empty_vote)"
        using vt_invD(2) [OF v(1)] by (auto simp: commit_of_def in_set_conv_nth)
      then show "p = Some empty_vote \<or> (\<exists>v. p = Some v \<and> v_Type v = VoteTypePrecommit \<and> v_Height v = vt_height V \<and> v_Round v = vt_round V)"
        using vt_invD(3) [OF v(1) j(1)] v(2) by (cases "vt_votes V ! j") (simp_all add: ok_vote_def vt_about_def)
    qed
    show "Some empty_vote \<in> set ?ps"
      using assms(6) by (force simp: commit_of_def)
  qed
  moreover have "?ps \<noteq> []"
    using assms(6) by (auto simp: commit_of_def)
  ultimately have "commit_ValidateBasic (commit_of V b) = Inl Err_NotPrecommit"
    using f assms(5) by (simp add: commit_ValidateBasic_def bid_IsZero_def) (simp add: commit_of_def)
  then show ?thesis
    using v by (simp add: vt_MakeCommit_def commit_of_def vt_about_def)
qed

definition set_light :: ValidatorSet where
  "set_light = set_abc\<lparr>vs_Validators := (vs_Validators set_abc)[2 := \<lparr>val_Address = ''c'', val_PubKey = ''c'', val_VotingPower = 1, val_Accum = 0\<rparr>]\<rparr>"

definition run_light :: VoteSet where
  "run_light = snd (vt_addVote toy_crypto (snd (vt_addVote toy_crypto (projr (NewVoteSet ''chain'' 5 0 2 set_light))
     (Some (vote_by ''a'' 0 ''B'')))) (Some (vote_by ''b'' 1 ''B'')))"

theorem makeCommit_not_basic_witness:
  "\<exists>c. vt_MakeCommit run_light = Inr c \<and> commit_ValidateBasic c = Inl Err_NotPrecommit"
proof (rule makeCommit_not_basic)
  show "vt_reach toy_crypto ''chain'' 5 0 VoteTypePrecommit set_light run_light"
    unfolding run_light_def by (intro vt_add vt_new) (simp add: NewVoteSet_def VoteTypePrecommit_def)
  show "powers_ok set_light" "vt_TwoThirdsMajority (Some run_light) = (''B'', True)" "None \<in> set (vt_votes run_light)"
    by code_simp+
qed (simp_all add: toy_crypto_def)

end
