(* ===== verification/HeightVoteSet.thy ===== *)
theory HeightVoteSet
  imports VoteSafety
begin

text \<open>
  The votes of one height, round by round: \<open>plugin/consensus/tendermint/types/height_vote_set.go\<close>.
  Rounds up to the current one are tracked, and of other rounds at most two per peer. The vote given
  to \<open>AddVote\<close> is not nil, and rounds stay below the largest 64-bit number, as the 32-bit rounds of
  votes do, so the loop of \<open>SetRound\<close> ends.
\<close>

section \<open>Definitions\<close>

record RoundVoteSet =
  rv_Prevotes :: VoteSet
  rv_Precommits :: VoteSet

record HeightVoteSet =
  hv_chainID :: string
  hv_height :: int
  hv_valSet :: ValidatorSet
  hv_round :: int
  hv_roundVoteSets :: "int \<Rightarrow> RoundVoteSet option"
  hv_peerCatchupRounds :: "string \<Rightarrow> int list"

definition hv_addRound :: "HeightVoteSet \<Rightarrow> int \<Rightarrow> tm_err + HeightVoteSet" where
  "hv_addRound H r =
     (if hv_roundVoteSets H r \<noteq> None then Inl TmPanic
      else case NewVoteSet (hv_chainID H) (hv_height H) r VoteTypePrevote (hv_valSet H) of
        Inl e \<Rightarrow> Inl e
      | Inr prevotes \<Rightarrow>
          (case NewVoteSet (hv_chainID H) (hv_height H) r VoteTypePrecommit (hv_valSet H) of
             Inl e \<Rightarrow> Inl e
           | Inr precommits \<Rightarrow>
               Inr (H\<lparr>hv_roundVoteSets := (hv_roundVoteSets H)(r \<mapsto> \<lparr>rv_Prevotes = prevotes, rv_Precommits = precommits\<rparr>)\<rparr>)))"

definition hv_Reset :: "HeightVoteSet \<Rightarrow> int \<Rightarrow> ValidatorSet \<Rightarrow> tm_err + HeightVoteSet" where
  "hv_Reset H h valSet =
     (case hv_addRound (H\<lparr>hv_height := h, hv_valSet := valSet, hv_roundVoteSets := (\<lambda>_. None), hv_peerCatchupRounds := (\<lambda>_. [])\<rparr>) 0 of
        Inl e \<Rightarrow> Inl e
      | Inr H' \<Rightarrow> Inr (H'\<lparr>hv_round := 0\<rparr>))"

definition NewHeightVoteSet :: "string \<Rightarrow> int \<Rightarrow> ValidatorSet \<Rightarrow> tm_err + HeightVoteSet" where
  "NewHeightVoteSet chainID h valSet =
     hv_Reset \<lparr>hv_chainID = chainID, hv_height = 0, hv_valSet = valSet, hv_round = 0,
       hv_roundVoteSets = (\<lambda>_. None), hv_peerCatchupRounds = (\<lambda>_. [])\<rparr> h valSet"

fun addRounds :: "HeightVoteSet \<Rightarrow> int list \<Rightarrow> tm_err + HeightVoteSet" where
  "addRounds H [] = Inr H"
| "addRounds H (r # rs) =
     (if hv_roundVoteSets H r \<noteq> None then addRounds H rs
      else case hv_addRound H r of Inl e \<Rightarrow> Inl e | Inr H' \<Rightarrow> addRounds H' rs)"

definition hv_SetRound :: "HeightVoteSet \<Rightarrow> int \<Rightarrow> tm_err + HeightVoteSet" where
  "hv_SetRound H r =
     (if hv_round H \<noteq> 0 \<and> r < hv_round H + 1 then Inl TmPanic
      else case addRounds H [hv_round H + 1 .. r] of Inl e \<Rightarrow> Inl e | Inr H' \<Rightarrow> Inr (H'\<lparr>hv_round := r\<rparr>))"

definition hv_getVoteSet :: "HeightVoteSet \<Rightarrow> int \<Rightarrow> nat \<Rightarrow> tm_err + VoteSet option" where
  "hv_getVoteSet H r t =
     (case hv_roundVoteSets H r of
        None \<Rightarrow> Inr None
      | Some rvs \<Rightarrow>
          if t = VoteTypePrevote then Inr (Some (rv_Prevotes rvs))
          else if t = VoteTypePrecommit then Inr (Some (rv_Precommits rvs))
          else Inl TmPanic)"

text \<open>A vote set is a pointer into the map: writing it back is the effect of its methods.\<close>

definition hv_put :: "HeightVoteSet \<Rightarrow> int \<Rightarrow> nat \<Rightarrow> VoteSet \<Rightarrow> HeightVoteSet" where
  "hv_put H r t V =
     (case hv_roundVoteSets H r of
        None \<Rightarrow> H
      | Some rvs \<Rightarrow> H\<lparr>hv_roundVoteSets := (hv_roundVoteSets H)(r \<mapsto>
          (if t = VoteTypePrevote then rvs\<lparr>rv_Prevotes := V\<rparr> else rvs\<lparr>rv_Precommits := V\<rparr>))\<rparr>)"

text \<open>The end of \<open>AddVote\<close>: the vote set of the round and type takes the vote.\<close>

definition hv_add_to :: "('pub, 'sig) crypto \<Rightarrow> HeightVoteSet \<Rightarrow> vote \<Rightarrow> VoteSet option \<Rightarrow> (bool \<times> add_err option) \<times> HeightVoteSet" where
  "hv_add_to C H v voteSet =
     (case vt_AddVote C voteSet (Some v) of
        (res, None) \<Rightarrow> (res, H)
      | (res, Some V') \<Rightarrow> (res, hv_put H (v_Round v) (to_byte (v_Type v)) V'))"

definition hv_AddVote :: "('pub, 'sig) crypto \<Rightarrow> HeightVoteSet \<Rightarrow> vote \<Rightarrow> string \<Rightarrow> (bool \<times> add_err option) \<times> HeightVoteSet" where
  "hv_AddVote C H v peerID =
     (if \<not> IsVoteTypeValid (to_byte (v_Type v)) then ((False, None), H)
      else case hv_getVoteSet H (v_Round v) (to_byte (v_Type v)) of
        Inl e \<Rightarrow> ((False, Some (AErr e)), H)
      | Inr (Some V) \<Rightarrow> hv_add_to C H v (Some V)
      | Inr None \<Rightarrow>
          let rndz = hv_peerCatchupRounds H peerID in
          if length rndz < 2 then
            (case hv_addRound H (v_Round v) of
               Inl e \<Rightarrow> ((False, Some (AErr e)), H)
             | Inr H1 \<Rightarrow>
                 (case hv_getVoteSet H1 (v_Round v) (to_byte (v_Type v)) of
                    Inl e \<Rightarrow> ((False, Some (AErr e)), H1)
                  | Inr voteSet \<Rightarrow>
                      hv_add_to C (H1\<lparr>hv_peerCatchupRounds := (hv_peerCatchupRounds H1)(peerID := rndz @ [v_Round v])\<rparr>) v voteSet))
          else ((False, Some (AErr Err_PeerCatchup)), H))"

definition hv_Prevotes :: "HeightVoteSet \<Rightarrow> int \<Rightarrow> tm_err + VoteSet option" where
  "hv_Prevotes H r = hv_getVoteSet H r VoteTypePrevote"

definition hv_Precommits :: "HeightVoteSet \<Rightarrow> int \<Rightarrow> tm_err + VoteSet option" where
  "hv_Precommits H r = hv_getVoteSet H r VoteTypePrecommit"

text \<open>The loop of \<open>POLInfo\<close> over the rounds, the current one first.\<close>

fun pol_search :: "HeightVoteSet \<Rightarrow> int list \<Rightarrow> tm_err + int \<times> blockID" where
  "pol_search H [] = Inr (-1, [])"
| "pol_search H (r # rs) =
     (case hv_getVoteSet H r VoteTypePrevote of
        Inl e \<Rightarrow> Inl e
      | Inr rvs \<Rightarrow>
          (case vt_TwoThirdsMajority rvs of
             (polBlockID, ok) \<Rightarrow> if ok then Inr (r, polBlockID) else pol_search H rs))"

definition hv_POLInfo :: "HeightVoteSet \<Rightarrow> tm_err + int \<times> blockID" where
  "hv_POLInfo H = pol_search H (rev [0 .. hv_round H])"

definition hv_SetPeerMaj23 :: "HeightVoteSet \<Rightarrow> int \<Rightarrow> nat \<Rightarrow> string \<Rightarrow> blockID \<Rightarrow> tm_err + HeightVoteSet" where
  "hv_SetPeerMaj23 H r t peerID b =
     (if \<not> IsVoteTypeValid t then Inr H
      else case hv_getVoteSet H r t of
        Inl e \<Rightarrow> Inl e
      | Inr None \<Rightarrow> Inr H
      | Inr (Some V) \<Rightarrow> Inr (hv_put H r t (vt_SetPeerMaj23 V peerID b)))"

section \<open>Tracked rounds\<close>

definition tracked :: "HeightVoteSet \<Rightarrow> int set" where
  "tracked H = dom (hv_roundVoteSets H)"

text \<open>
  The invariant: every tracked round is a round up to the current one or one a peer was let to open,
  every peer opened at most two, and the vote sets of a round are reachable ones of that round.
\<close>

definition rounds_ok :: "('pub, 'sig) crypto \<Rightarrow> HeightVoteSet \<Rightarrow> int \<Rightarrow> RoundVoteSet \<Rightarrow> bool" where
  "rounds_ok C H r rvs \<longleftrightarrow>
     vt_reach C (hv_chainID H) (hv_height H) r VoteTypePrevote (hv_valSet H) (rv_Prevotes rvs)
     \<and> vt_reach C (hv_chainID H) (hv_height H) r VoteTypePrecommit (hv_valSet H) (rv_Precommits rvs)"

definition hv_inv :: "('pub, 'sig) crypto \<Rightarrow> HeightVoteSet \<Rightarrow> bool" where
  "hv_inv C H \<longleftrightarrow> hv_height H \<noteq> 0 \<and> 0 \<le> hv_round H
     \<and> (\<forall>r \<in> tracked H. (0 \<le> r \<and> r \<le> hv_round H) \<or> (\<exists>p. r \<in> set (hv_peerCatchupRounds H p)))
     \<and> (\<forall>r. 0 \<le> r \<and> r \<le> hv_round H \<longrightarrow> r \<in> tracked H)
     \<and> (\<forall>p. length (hv_peerCatchupRounds H p) \<le> 2)
     \<and> (\<forall>r rvs. hv_roundVoteSets H r = Some rvs \<longrightarrow> rounds_ok C H r rvs)"

lemma hv_invD:
  assumes "hv_inv C H"
  shows "hv_height H \<noteq> 0" and "0 \<le> hv_round H"
    and "r \<in> tracked H \<Longrightarrow> (0 \<le> r \<and> r \<le> hv_round H) \<or> (\<exists>p. r \<in> set (hv_peerCatchupRounds H p))"
    and "0 \<le> r \<Longrightarrow> r \<le> hv_round H \<Longrightarrow> r \<in> tracked H"
    and "length (hv_peerCatchupRounds H p) \<le> 2"
    and "hv_roundVoteSets H r = Some rvs \<Longrightarrow> rounds_ok C H r rvs"
  using assms by (auto simp: hv_inv_def)

lemma addRound_ok:
  assumes "hv_height H \<noteq> 0" and "r \<notin> tracked H"
  shows "\<exists>rvs. hv_addRound H r = Inr (H\<lparr>hv_roundVoteSets := (hv_roundVoteSets H)(r \<mapsto> rvs)\<rparr>) \<and> rounds_ok C H r rvs"
proof -
  obtain a b where ab: "NewVoteSet (hv_chainID H) (hv_height H) r VoteTypePrevote (hv_valSet H) = Inr a"
      "NewVoteSet (hv_chainID H) (hv_height H) r VoteTypePrecommit (hv_valSet H) = Inr b"
    using assms(1) by (simp add: NewVoteSet_def)
  then have "rounds_ok C H r \<lparr>rv_Prevotes = a, rv_Precommits = b\<rparr>"
    by (simp add: rounds_ok_def vt_new)
  then show ?thesis
    using ab assms(2) by (auto simp: hv_addRound_def tracked_def domIff)
qed

text \<open>The fields that no operation but \<open>Reset\<close> changes.\<close>

definition same_height :: "HeightVoteSet \<Rightarrow> HeightVoteSet \<Rightarrow> bool" where
  "same_height H H' \<longleftrightarrow> hv_chainID H' = hv_chainID H \<and> hv_height H' = hv_height H \<and> hv_valSet H' = hv_valSet H"

lemma rounds_ok_same: "same_height H H' \<Longrightarrow> rounds_ok C H' r rvs = rounds_ok C H r rvs"
  by (simp add: same_height_def rounds_ok_def)

lemma addRounds_ok:
  assumes "hv_height H \<noteq> 0" and "\<And>r rvs. hv_roundVoteSets H r = Some rvs \<Longrightarrow> rounds_ok C H r rvs"
  shows "\<exists>m. addRounds H rs = Inr (H\<lparr>hv_roundVoteSets := m\<rparr>) \<and> dom m = tracked H \<union> set rs
    \<and> (\<forall>r rvs. m r = Some rvs \<longrightarrow> rounds_ok C H r rvs)"
  using assms
proof (induction rs arbitrary: H)
  case Nil
  then show ?case
    by (intro exI [of _ "hv_roundVoteSets H"]) (simp add: tracked_def)
next
  case (Cons r rs)
  show ?case
  proof (cases "r \<in> tracked H")
    case True
    then show ?thesis
      using Cons.IH [OF Cons.prems] by (auto simp: tracked_def insert_absorb)
  next
    case False
    obtain rvs where rvs: "hv_addRound H r = Inr (H\<lparr>hv_roundVoteSets := (hv_roundVoteSets H)(r \<mapsto> rvs)\<rparr>)" "rounds_ok C H r rvs"
      using addRound_ok [OF Cons.prems(1) False] by blast
    let ?H = "H\<lparr>hv_roundVoteSets := (hv_roundVoteSets H)(r \<mapsto> rvs)\<rparr>"
    have s: "rounds_ok C ?H r' x = rounds_ok C H r' x" for r' x
      by (rule rounds_ok_same) (simp add: same_height_def)
    have p: "rounds_ok C ?H r' x" if "hv_roundVoteSets ?H r' = Some x" for r' x
      using that Cons.prems(2) rvs(2) by (auto simp: s split: if_splits)
    have "hv_height ?H \<noteq> 0"
      using Cons.prems(1) by simp
    from Cons.IH [OF this p] obtain m where m: "addRounds ?H rs = Inr (?H\<lparr>hv_roundVoteSets := m\<rparr>)"
        "dom m = tracked ?H \<union> set rs" "\<forall>r' x. m r' = Some x \<longrightarrow> rounds_ok C ?H r' x"
      by blast
    have "tracked ?H = insert r (tracked H)"
      by (auto simp: tracked_def)
    then show ?thesis
      using False rvs(1) m by (intro exI [of _ m]) (simp add: tracked_def domIff s)
  qed
qed

lemma NewHeightVoteSet_inv:
  assumes "NewHeightVoteSet chainID h S = Inr H"
  shows "hv_inv C H \<and> hv_chainID H = chainID \<and> hv_height H = h \<and> hv_valSet H = S"
proof -
  let ?H = "\<lparr>hv_chainID = chainID, hv_height = h, hv_valSet = S, hv_round = 0,
       hv_roundVoteSets = (\<lambda>_. None), hv_peerCatchupRounds = (\<lambda>_. [])\<rparr> :: HeightVoteSet"
  have h: "h \<noteq> 0"
    using assms by (auto simp: NewHeightVoteSet_def hv_Reset_def hv_addRound_def NewVoteSet_def)
  obtain rvs where rvs: "hv_addRound ?H 0 = Inr (?H\<lparr>hv_roundVoteSets := (hv_roundVoteSets ?H)(0 \<mapsto> rvs)\<rparr>)" "rounds_ok C ?H 0 rvs"
    using addRound_ok [of ?H 0 C] h by (auto simp: tracked_def)
  then have "H = ?H\<lparr>hv_roundVoteSets := (hv_roundVoteSets ?H)(0 \<mapsto> rvs)\<rparr>"
    using assms by (simp add: NewHeightVoteSet_def hv_Reset_def)
  then show ?thesis
    using h rvs(2) by (auto simp: hv_inv_def tracked_def rounds_ok_def split: if_splits)
qed

lemma SetRound_inv:
  assumes inv: "hv_inv C H" and "hv_SetRound H r = Inr H'" and "0 \<le> r"
  shows "hv_inv C H' \<and> same_height H H' \<and> hv_round H' = r \<and> hv_peerCatchupRounds H' = hv_peerCatchupRounds H"
proof -
  note d = hv_invD [OF inv]
  have le: "hv_round H \<le> r"
    using assms(2,3) by (auto simp: hv_SetRound_def split: if_splits)
  obtain m where m: "addRounds H [hv_round H + 1 .. r] = Inr (H\<lparr>hv_roundVoteSets := m\<rparr>)"
      "dom m = tracked H \<union> {hv_round H + 1 .. r}" "\<And>r rvs. m r = Some rvs \<Longrightarrow> rounds_ok C H r rvs"
    using addRounds_ok [OF d(1) d(6), where rs = "[hv_round H + 1 .. r]"] by auto
  then have H': "H' = H\<lparr>hv_roundVoteSets := m, hv_round := r\<rparr>"
    using assms(2) by (auto simp: hv_SetRound_def split: if_splits)
  have s: "rounds_ok C H' r' x = rounds_ok C H r' x" for r' x
    by (rule rounds_ok_same) (simp add: same_height_def H')
  have t: "x \<in> tracked H' \<longleftrightarrow> x \<in> tracked H \<or> hv_round H + 1 \<le> x \<and> x \<le> r" for x
    using m(2) by (auto simp: tracked_def H')
  have "0 \<le> x \<and> x \<le> r \<or> (\<exists>p. x \<in> set (hv_peerCatchupRounds H p))" if "x \<in> tracked H'" for x
    using t [of x] that d(2) d(3) [of x] le by auto
  moreover have "x \<in> tracked H'" if "0 \<le> x" "x \<le> r" for x
    using t [of x] that d(4) [of x] by linarith
  moreover have "rounds_ok C H' x rvs" if "hv_roundVoteSets H' x = Some rvs" for x rvs
    using m(3) [of x rvs] that s by (simp add: H')
  ultimately have "hv_inv C H'"
    using d(1,5) assms(3) unfolding hv_inv_def by (simp add: H')
  then show ?thesis
    by (simp add: same_height_def H')
qed

lemma getVoteSet_cases:
  assumes "hv_inv C H" and "IsVoteTypeValid t"
  obtains "hv_getVoteSet H r t = Inr None" "r \<notin> tracked H"
  | V where "hv_getVoteSet H r t = Inr (Some V)" "r \<in> tracked H"
      "vt_reach C (hv_chainID H) (hv_height H) r t (hv_valSet H) V"
proof (cases "hv_roundVoteSets H r")
  case None
  then show ?thesis
    using that(1) by (simp add: hv_getVoteSet_def tracked_def domIff)
next
  case (Some rvs)
  then have "rounds_ok C H r rvs"
    using hv_invD(6) [OF assms(1)] by blast
  then show ?thesis
    using that(2) assms(2) Some domI [of "hv_roundVoteSets H" r rvs]
    by (auto simp: hv_getVoteSet_def tracked_def rounds_ok_def IsVoteTypeValid_def VoteTypePrevote_def VoteTypePrecommit_def)
qed

lemma getVoteSet_tracked:
  assumes "hv_inv C H" and "IsVoteTypeValid t" and "r \<in> tracked H"
  shows "\<exists>V. hv_getVoteSet H r t = Inr (Some V) \<and> vt_reach C (hv_chainID H) (hv_height H) r t (hv_valSet H) V"
  by (cases rule: getVoteSet_cases [OF assms(1,2), of r]) (use assms(3) in blast)+

lemma put_inv:
  assumes inv: "hv_inv C H" and "IsVoteTypeValid t"
    and reach: "vt_reach C (hv_chainID H) (hv_height H) r t (hv_valSet H) V"
  shows "hv_inv C (hv_put H r t V) \<and> same_height H (hv_put H r t V) \<and> hv_round (hv_put H r t V) = hv_round H
    \<and> hv_peerCatchupRounds (hv_put H r t V) = hv_peerCatchupRounds H"
proof (cases "hv_roundVoteSets H r")
  case None
  then show ?thesis
    using inv by (simp add: hv_put_def same_height_def)
next
  case (Some rvs)
  note d = hv_invD [OF inv]
  let ?rvs = "if t = VoteTypePrevote then rvs\<lparr>rv_Prevotes := V\<rparr> else rvs\<lparr>rv_Precommits := V\<rparr>"
  let ?H = "hv_put H r t V"
  have eq: "?H = H\<lparr>hv_roundVoteSets := (hv_roundVoteSets H)(r \<mapsto> ?rvs)\<rparr>"
    using Some by (simp add: hv_put_def)
  have same: "same_height H ?H"
    by (simp add: eq same_height_def)
  have t: "tracked ?H = tracked H"
    using Some by (auto simp: tracked_def eq)
  have "rounds_ok C H r ?rvs"
    using d(6) [OF Some] reach assms(2) by (auto simp: rounds_ok_def IsVoteTypeValid_def)
  then have "rounds_ok C ?H r' x" if "hv_roundVoteSets ?H r' = Some x" for r' x
    using that d(6) [of r' x] unfolding rounds_ok_same [OF same] by (auto simp: eq split: if_splits)
  then show ?thesis
    using d(1-5) same unfolding hv_inv_def t by (simp add: eq)
qed

lemma add_to_inv:
  assumes inv: "hv_inv C H" and "powers_ok (hv_valSet H)" and "IsVoteTypeValid (to_byte (v_Type v))"
    and reach: "vt_reach C (hv_chainID H) (hv_height H) (v_Round v) (to_byte (v_Type v)) (hv_valSet H) V"
    and add: "hv_add_to C H v (Some V) = (res, H')"
  shows "hv_inv C H' \<and> same_height H H' \<and> hv_round H' = hv_round H
    \<and> hv_peerCatchupRounds H' = hv_peerCatchupRounds H \<and> snd res \<noteq> Some (AErr TmPanic)"
proof -
  let ?V = "snd (vt_addVote C V (Some v))"
  have "H' = hv_put H (v_Round v) (to_byte (v_Type v)) ?V" "res = fst (vt_addVote C V (Some v))"
    using add by (auto simp: hv_add_to_def vt_AddVote_def split: prod.splits)
  moreover have "vt_inv C V"
    using vt_reach_inv [OF reach assms(2)] by simp
  then have "snd (fst (vt_addVote C V (Some v))) \<noteq> Some (AErr TmPanic)"
    using addVote_good [of C V "Some v"] by (simp add: add_good_def)
  ultimately show ?thesis
    using put_inv [OF inv assms(3) vt_add [OF reach]] by simp
qed

text \<open>A peer with a free slot opens a round.\<close>

lemma open_round_inv:
  assumes inv: "hv_inv C H" and new: "r \<notin> tracked H" and "length (hv_peerCatchupRounds H p) < 2"
    and H1: "hv_addRound H r = Inr H1"
  shows "hv_inv C (H1\<lparr>hv_peerCatchupRounds := (hv_peerCatchupRounds H1)(p := hv_peerCatchupRounds H p @ [r])\<rparr>)"
    (is "hv_inv C ?H") and "same_height H H1" and "hv_round H1 = hv_round H" and "hv_peerCatchupRounds H1 = hv_peerCatchupRounds H"
    and "r \<in> tracked H1"
proof -
  note d = hv_invD [OF inv]
  obtain rvs where rvs: "H1 = H\<lparr>hv_roundVoteSets := (hv_roundVoteSets H)(r \<mapsto> rvs)\<rparr>" "rounds_ok C H r rvs"
    using addRound_ok [OF d(1) new, of C] H1 by auto
  then show same: "same_height H H1" and "hv_round H1 = hv_round H" "hv_peerCatchupRounds H1 = hv_peerCatchupRounds H" "r \<in> tracked H1"
    by (simp_all add: same_height_def tracked_def)
  have sm: "same_height H ?H"
    using same by (simp add: same_height_def)
  have t: "tracked ?H = insert r (tracked H)"
    by (auto simp: tracked_def rvs(1))
  have "(0 \<le> x \<and> x \<le> hv_round H) \<or> (\<exists>q. x \<in> set (hv_peerCatchupRounds ?H q))" if "x \<in> tracked ?H" for x
    using that d(3) [of x] unfolding t by (auto simp: rvs(1))
  moreover have "rounds_ok C ?H x y" if "hv_roundVoteSets ?H x = Some y" for x y
    using that d(6) [of x y] rvs(2) unfolding rounds_ok_same [OF sm] by (auto simp: rvs(1) split: if_splits)
  ultimately show "hv_inv C ?H"
    using d(1,2,4,5) assms(3) unfolding hv_inv_def t by (auto simp: rvs(1))
qed

lemma AddVote_inv:
  assumes inv: "hv_inv C H" and pow: "powers_ok (hv_valSet H)" and add: "hv_AddVote C H v p = (res, H')"
  shows "hv_inv C H' \<and> same_height H H' \<and> hv_round H' = hv_round H
    \<and> (\<forall>q. q \<noteq> p \<longrightarrow> hv_peerCatchupRounds H' q = hv_peerCatchupRounds H q) \<and> snd res \<noteq> Some (AErr TmPanic)"
proof (cases "IsVoteTypeValid (to_byte (v_Type v))")
  case False
  then show ?thesis
    using inv add by (auto simp: hv_AddVote_def same_height_def)
next
  case valid: True
  let ?r = "v_Round v" and ?t = "to_byte (v_Type v)"
  from getVoteSet_cases [OF inv valid, of ?r] show ?thesis
  proof cases
    case (2 V)
    then show ?thesis
      using add valid add_to_inv [OF inv pow valid 2(3), of res H'] by (simp add: hv_AddVote_def)
  next
    case 1
    show ?thesis
    proof (cases "length (hv_peerCatchupRounds H p) < 2")
      case False
      then show ?thesis
        using 1 inv add valid by (auto simp: hv_AddVote_def same_height_def)
    next
      case True
      obtain H1 where H1: "hv_addRound H ?r = Inr H1"
        using addRound_ok [OF hv_invD(1) [OF inv] 1(2), of C] by auto
      note o = open_round_inv [OF inv 1(2) True H1]
      let ?H = "H1\<lparr>hv_peerCatchupRounds := (hv_peerCatchupRounds H1)(p := hv_peerCatchupRounds H p @ [?r])\<rparr>"
      have "?r \<in> tracked ?H"
        using o(5) by (simp add: tracked_def)
      then obtain V where "hv_getVoteSet ?H ?r ?t = Inr (Some V)"
          and V: "vt_reach C (hv_chainID ?H) (hv_height ?H) ?r ?t (hv_valSet ?H) V"
        using getVoteSet_tracked [OF o(1) valid] by blast
      then have g: "hv_getVoteSet H1 ?r ?t = Inr (Some V)"
        by (simp add: hv_getVoteSet_def)
      have "powers_ok (hv_valSet ?H)"
        using pow o(2) by (simp add: same_height_def)
      moreover have "hv_add_to C ?H v (Some V) = (res, H')"
        using add valid 1(1) True H1 g by (simp add: hv_AddVote_def Let_def)
      ultimately have "hv_inv C H' \<and> same_height ?H H' \<and> hv_round H' = hv_round ?H
          \<and> hv_peerCatchupRounds H' = hv_peerCatchupRounds ?H \<and> snd res \<noteq> Some (AErr TmPanic)"
        using add_to_inv [OF o(1) _ valid V] by blast
      then show ?thesis
        using o(2-4) by (simp add: same_height_def)
    qed
  qed
qed

section \<open>Runs\<close>

inductive hv_reach :: "('pub, 'sig) crypto \<Rightarrow> string \<Rightarrow> int \<Rightarrow> ValidatorSet \<Rightarrow> HeightVoteSet \<Rightarrow> bool"
  for C chainID h S where
  hv_new: "NewHeightVoteSet chainID h S = Inr H \<Longrightarrow> hv_reach C chainID h S H"
| hv_set: "hv_reach C chainID h S H \<Longrightarrow> 0 \<le> r \<Longrightarrow> hv_SetRound H r = Inr H' \<Longrightarrow> hv_reach C chainID h S H'"
| hv_add: "hv_reach C chainID h S H \<Longrightarrow> hv_reach C chainID h S (snd (hv_AddVote C H v p))"
| hv_peer: "hv_reach C chainID h S H \<Longrightarrow> hv_SetPeerMaj23 H r t p b = Inr H' \<Longrightarrow> hv_reach C chainID h S H'"

lemma SetPeerMaj23_hv_inv:
  assumes inv: "hv_inv C H" and "hv_SetPeerMaj23 H r t p b = Inr H'"
  shows "hv_inv C H' \<and> same_height H H' \<and> hv_round H' = hv_round H \<and> hv_peerCatchupRounds H' = hv_peerCatchupRounds H"
proof (cases "IsVoteTypeValid t")
  case False
  then show ?thesis
    using assms by (auto simp: hv_SetPeerMaj23_def same_height_def)
next
  case valid: True
  from getVoteSet_cases [OF inv valid, of r] show ?thesis
  proof cases
    case 1
    then show ?thesis
      using assms valid by (auto simp: hv_SetPeerMaj23_def same_height_def)
  next
    case (2 V)
    then have "H' = hv_put H r t (vt_SetPeerMaj23 V p b)"
      using assms(2) valid by (simp add: hv_SetPeerMaj23_def)
    then show ?thesis
      using put_inv [OF inv valid vt_peer [OF 2(3)]] by simp
  qed
qed

lemma hv_reach_inv:
  assumes "hv_reach C chainID h S H" and "powers_ok S"
  shows "hv_inv C H \<and> hv_chainID H = chainID \<and> hv_height H = h \<and> hv_valSet H = S"
  using assms(1)
proof (induction rule: hv_reach.induct)
  case (hv_new H)
  then show ?case
    by (rule NewHeightVoteSet_inv)
next
  case (hv_set H r H')
  then show ?case
    using SetRound_inv [of C H r H'] by (simp add: same_height_def)
next
  case (hv_add H v p)
  obtain res H' where r: "hv_AddVote C H v p = (res, H')"
    by (cases "hv_AddVote C H v p")
  then show ?case
    using hv_add.IH assms(2) AddVote_inv [OF _ _ r] by (simp add: same_height_def)
next
  case (hv_peer H r t p b H')
  then show ?case
    using SetPeerMaj23_hv_inv [of C H r t p b H'] by (simp add: same_height_def)
qed

text \<open>The rounds that the peers of a finite set opened.\<close>

lemma catchup_card:
  assumes "finite P" and "\<And>p. length (f p) \<le> 2"
  shows "finite (\<Union>p \<in> P. set (f p)) \<and> card (\<Union>p \<in> P. set (f p)) \<le> 2 * card P"
  using assms(1)
proof (induction P rule: finite_induct)
  case (insert p P)
  have "card (set (f p) \<union> (\<Union>p \<in> P. set (f p))) \<le> length (f p) + card (\<Union>p \<in> P. set (f p))"
    using card_Un_le [of "set (f p)" "\<Union>p \<in> P. set (f p)"] card_length [of "f p"] by linarith
  then show ?case
    using insert assms(2) [of p] by simp
qed simp

lemma tracked_card:
  assumes inv: "hv_inv C H" and "finite P" and "\<And>p. hv_peerCatchupRounds H p \<noteq> [] \<Longrightarrow> p \<in> P"
  shows "finite (tracked H)" and "card (tracked H) \<le> nat (hv_round H + 1) + 2 * card P"
proof -
  note d = hv_invD [OF inv]
  let ?U = "\<Union>p \<in> P. set (hv_peerCatchupRounds H p)"
  have sub: "tracked H \<subseteq> {0 .. hv_round H} \<union> ?U"
  proof
    fix r
    assume "r \<in> tracked H"
    then show "r \<in> {0 .. hv_round H} \<union> ?U"
      using d(3) [of r] assms(3) by force
  qed
  have U: "finite ?U" "card ?U \<le> 2 * card P"
    using catchup_card [OF assms(2) d(5)] by auto
  show "finite (tracked H)"
    using finite_subset [OF sub] U(1) by simp
  have "card (tracked H) \<le> card ({0 .. hv_round H} \<union> ?U)"
    using card_mono [OF _ sub] U(1) by simp
  then show "card (tracked H) \<le> nat (hv_round H + 1) + 2 * card P"
    using card_Un_le [of "{0 .. hv_round H}" ?U] U(2) by simp
qed

section \<open>The proof of lock\<close>

definition has_pol :: "HeightVoteSet \<Rightarrow> int \<Rightarrow> blockID \<Rightarrow> bool" where
  "has_pol H r b \<longleftrightarrow> (\<exists>V. hv_Prevotes H r = Inr (Some V) \<and> vt_TwoThirdsMajority (Some V) = (b, True))"

lemma pol_search_spec:
  assumes inv: "hv_inv C H"
  shows "\<exists>r b. pol_search H rs = Inr (r, b)
    \<and> (r = -1 \<and> (\<forall>x \<in> set rs. \<forall>b. \<not> has_pol H x b)
      \<or> has_pol H r b \<and> (\<exists>ys zs. rs = ys @ r # zs \<and> (\<forall>x \<in> set ys. \<forall>b. \<not> has_pol H x b)))"
proof (induction rs)
  case (Cons x rs)
  have "IsVoteTypeValid VoteTypePrevote"
    by (simp add: IsVoteTypeValid_def)
  then obtain V where V: "hv_getVoteSet H x VoteTypePrevote = Inr V"
    by (cases rule: getVoteSet_cases [OF inv, of VoteTypePrevote x]) auto
  obtain b ok where m: "vt_TwoThirdsMajority V = (b, ok)"
    by (cases "vt_TwoThirdsMajority V")
  show ?case
  proof (cases ok)
    case True
    then have "has_pol H x b"
      using V m by (cases V) (simp_all add: has_pol_def hv_Prevotes_def vt_TwoThirdsMajority_def)
    moreover have "pol_search H (x # rs) = Inr (x, b)"
      using V m True by simp
    moreover have "\<exists>ys zs. x # rs = ys @ x # zs \<and> (\<forall>x \<in> set ys. \<forall>b. \<not> has_pol H x b)"
      by (intro exI [of _ "[]"] exI [of _ rs]) simp
    ultimately show ?thesis
      by blast
  next
    case False
    then have no: "\<not> has_pol H x b'" for b'
      using V m by (auto simp: has_pol_def hv_Prevotes_def)
    have step: "pol_search H (x # rs) = pol_search H rs"
      using V m False by simp
    obtain r b' where r: "pol_search H rs = Inr (r, b')"
        "r = -1 \<and> (\<forall>x \<in> set rs. \<forall>b. \<not> has_pol H x b)
         \<or> has_pol H r b' \<and> (\<exists>ys zs. rs = ys @ r # zs \<and> (\<forall>x \<in> set ys. \<forall>b. \<not> has_pol H x b))"
      using Cons.IH by blast
    from r(2) show ?thesis
    proof
      assume "r = -1 \<and> (\<forall>x \<in> set rs. \<forall>b. \<not> has_pol H x b)"
      then have "r = -1 \<and> (\<forall>y \<in> set (x # rs). \<forall>b. \<not> has_pol H y b)"
        using no by simp
      then show ?thesis
        using r(1) unfolding step by blast
    next
      assume a: "has_pol H r b' \<and> (\<exists>ys zs. rs = ys @ r # zs \<and> (\<forall>x \<in> set ys. \<forall>b. \<not> has_pol H x b))"
      then obtain ys zs where "x # rs = (x # ys) @ r # zs" "\<forall>y \<in> set (x # ys). \<forall>b. \<not> has_pol H y b"
        using no by auto
      then show ?thesis
        using a r(1) unfolding step by blast
    qed
  qed
qed simp

lemma rev_upto_split:
  assumes "rev [a .. n] = ys @ r # zs"
  shows "a \<le> r \<and> r \<le> n \<and> (\<forall>x. r < x \<and> x \<le> n \<longrightarrow> x \<in> set ys)"
proof -
  have e: "[a .. n] = rev zs @ r # rev ys"
    using arg_cong [OF assms, of rev] by simp
  have "sorted (rev zs @ r # rev ys)"
    unfolding e [symmetric] by simp
  then have z: "\<forall>x \<in> set zs. x \<le> r"
    by (simp add: sorted_append)
  have s: "{a .. n} = set zs \<union> {r} \<union> set ys"
    using arg_cong [OF e, of set] by auto
  then have "a \<le> r \<and> r \<le> n"
    by auto
  moreover have "x \<in> set ys" if "r < x" "x \<le> n" for x
  proof -
    have "x \<in> {a .. n}" "x \<notin> set zs" "x \<noteq> r"
      using that z calculation by auto
    then show ?thesis
      unfolding s by blast
  qed
  ultimately show ?thesis
    by blast
qed

lemma prevotes_inv:
  assumes "hv_inv C H" and "hv_Prevotes H r = Inr (Some V)" and "powers_ok (hv_valSet H)"
  shows "vt_inv C V"
proof -
  have "r \<in> tracked H"
    using assms(2) by (auto simp: hv_Prevotes_def hv_getVoteSet_def tracked_def split: option.splits)
  then obtain V' where "hv_Prevotes H r = Inr (Some V')" "vt_reach C (hv_chainID H) (hv_height H) r VoteTypePrevote (hv_valSet H) V'"
    using getVoteSet_tracked [OF assms(1), of VoteTypePrevote] by (auto simp: IsVoteTypeValid_def hv_Prevotes_def)
  then show ?thesis
    using assms(2,3) vt_reach_inv by fastforce
qed

section \<open>Properties\<close>


definition hv_run :: HeightVoteSet where
  "hv_run = snd (hv_AddVote toy_crypto (projr (NewHeightVoteSet ''chain'' 5 set_abc))
     ((vote_by ''a'' 0 ''B'')\<lparr>v_Round := 7\<rparr>) ''peer'')"

lemma hv_start:
  "\<exists>H. NewHeightVoteSet ''chain'' 5 set_abc = Inr H \<and> hv_peerCatchupRounds H = (\<lambda>_. [])"
  by (simp add: NewHeightVoteSet_def hv_Reset_def hv_addRound_def NewVoteSet_def)

lemma hv_run_reach: "hv_reach toy_crypto ''chain'' 5 set_abc hv_run"
  unfolding hv_run_def using hv_start by (intro hv_add hv_new) auto

lemma hv_run_peers:
  assumes "hv_peerCatchupRounds hv_run p \<noteq> []"
  shows "p \<in> {''peer''}"
proof -
  obtain H where H: "NewHeightVoteSet ''chain'' 5 set_abc = Inr H" "hv_peerCatchupRounds H = (\<lambda>_. [])"
    using hv_start by blast
  have i: "hv_inv toy_crypto H" "powers_ok (hv_valSet H)"
    using NewHeightVoteSet_inv [OF H(1), of toy_crypto] set_abc_powers by auto
  obtain res where "hv_AddVote toy_crypto H ((vote_by ''a'' 0 ''B'')\<lparr>v_Round := 7\<rparr>) ''peer'' = (res, hv_run)"
    using H(1) by (cases "hv_AddVote toy_crypto H ((vote_by ''a'' 0 ''B'')\<lparr>v_Round := 7\<rparr>) ''peer''") (simp add: hv_run_def)
  from AddVote_inv [OF i this] show ?thesis
    using assms H(2) by auto
qed


text \<open>
  \<open>POLInfo\<close> finds the last round of lock: it never panics, and it returns either the latest round
  up to the current one whose prevotes have a two thirds majority, with the block that more than two
  thirds of the voting power prevoted, or -1 when no round has one.
\<close>

theorem polInfo_latest:
  assumes "hv_reach C chainID h S H" and "powers_ok S"
  shows "\<exists>r b. hv_POLInfo H = Inr (r, b)
    \<and> (r = -1 \<and> (\<forall>x b. 0 \<le> x \<and> x \<le> hv_round H \<longrightarrow> \<not> has_pol H x b)
      \<or> 0 \<le> r \<and> r \<le> hv_round H \<and> (\<forall>x b. r < x \<and> x \<le> hv_round H \<longrightarrow> \<not> has_pol H x b)
        \<and> (\<exists>V. hv_Prevotes H r = Inr (Some V)
             \<and> 3 * sum (power_at (vt_valSet V)) (voters V b) > 2 * sum (power_at (vt_valSet V)) (members (vt_valSet V))))"
proof -
  have i: "hv_inv C H" "hv_valSet H = S"
    using hv_reach_inv [OF assms] by auto
  obtain r b where r: "pol_search H (rev [0 .. hv_round H]) = Inr (r, b)"
      "r = -1 \<and> (\<forall>x \<in> set (rev [0 .. hv_round H]). \<forall>b. \<not> has_pol H x b)
       \<or> has_pol H r b \<and> (\<exists>ys zs. rev [0 .. hv_round H] = ys @ r # zs \<and> (\<forall>x \<in> set ys. \<forall>b. \<not> has_pol H x b))"
    using pol_search_spec [OF i(1), of "rev [0 .. hv_round H]"] by (elim exE conjE) (rule that)
  from r(2) show ?thesis
  proof
    assume "r = -1 \<and> (\<forall>x \<in> set (rev [0 .. hv_round H]). \<forall>b. \<not> has_pol H x b)"
    then have "r = -1 \<and> (\<forall>x b. 0 \<le> x \<and> x \<le> hv_round H \<longrightarrow> \<not> has_pol H x b)"
      by simp
    then show ?thesis
      using r(1) unfolding hv_POLInfo_def by blast
  next
    assume a: "has_pol H r b \<and> (\<exists>ys zs. rev [0 .. hv_round H] = ys @ r # zs \<and> (\<forall>x \<in> set ys. \<forall>b. \<not> has_pol H x b))"
    then obtain V where V: "hv_Prevotes H r = Inr (Some V)" "vt_TwoThirdsMajority (Some V) = (b, True)"
      by (auto simp: has_pol_def)
    obtain ys zs where l: "rev [0 .. hv_round H] = ys @ r # zs" "\<forall>x \<in> set ys. \<forall>b. \<not> has_pol H x b"
      using a by blast
    have rng: "0 \<le> r" "r \<le> hv_round H"
      using rev_upto_split [OF l(1)] by blast+
    have later: "\<forall>x b. r < x \<and> x \<le> hv_round H \<longrightarrow> \<not> has_pol H x b"
      using rev_upto_split [OF l(1)] l(2) by blast
    have "vt_maj23 V = Some b"
      using V(2) by (auto simp: vt_TwoThirdsMajority_def split: option.splits)
    moreover have "vt_inv C V"
      using prevotes_inv [OF i(1) V(1)] assms(2) i(2) by simp
    ultimately have "3 * sum (power_at (vt_valSet V)) (voters V b) > 2 * sum (power_at (vt_valSet V)) (members (vt_valSet V))"
      by (intro maj_voters)
    then show ?thesis
      using r(1) V(1) rng later unfolding hv_POLInfo_def by blast
  qed
qed

definition hv_lock :: HeightVoteSet where
  "hv_lock = (let H = projr (NewHeightVoteSet ''chain'' 5 set_abc);
     add = (\<lambda>a i H. snd (hv_AddVote toy_crypto H ((vote_by a i ''B'')\<lparr>v_Type := 1\<rparr>) ''peer''))
     in add ''c'' 2 (add ''b'' 1 (add ''a'' 0 H)))"

lemma hv_lock_reach: "hv_reach toy_crypto ''chain'' 5 set_abc hv_lock"
  unfolding hv_lock_def Let_def using hv_start by (intro hv_add hv_new) auto

theorem polInfo_latest_witness:
  "\<exists>V. hv_POLInfo hv_lock = Inr (0, ''B'') \<and> hv_Prevotes hv_lock 0 = Inr (Some V)
     \<and> 3 * sum (power_at (vt_valSet V)) (voters V ''B'') > 2 * sum (power_at (vt_valSet V)) (members (vt_valSet V))"
proof -
  have "hv_POLInfo hv_lock = Inr (0, ''B'')"
    by code_simp
  then show ?thesis
    using polInfo_latest [OF hv_lock_reach set_abc_powers] by auto
qed

end
