(* ===== verification/PrivValidator.thy ===== *)
theory PrivValidator
  imports VoteSafety
begin

text \<open>
  The local validator that signs votes, proposals and heartbeats:
  \<open>plugin/consensus/tendermint/types/priv_validator.go\<close>. The file it is kept in is the struct
  \<open>PrivValidatorFS\<close>; reading and writing the file are not modelled and assumed to succeed. The last
  signed bytes stand for their text, in memory and in the file. \<open>TmExit\<close> is a call of \<open>Exit\<close>.
\<close>

section \<open>Definitions\<close>

text \<open>What the private keys of \<open>ConsensusCrypto\<close> provide.\<close>

record ('pub, 'sig, 'priv) signing =
  PrivKeyFromBytes :: "bytes \<Rightarrow> 'priv option"
  priv_Bytes :: "'priv \<Rightarrow> bytes"
  priv_PubKey :: "'priv \<Rightarrow> 'pub"
  priv_Sign :: "'priv \<Rightarrow> sign_bytes \<Rightarrow> 'sig"
  KeyString :: "'pub \<Rightarrow> string"

definition stepNone :: nat where "stepNone = 0"
definition stepPropose :: nat where "stepPropose = 1"
definition stepPrevote :: nat where "stepPrevote = 2"
definition stepPrecommit :: nat where "stepPrecommit = 3"

definition voteToStep :: "vote \<Rightarrow> tm_err + nat" where
  "voteToStep v =
     (if v_Type v = VoteTypePrevote then Inr stepPrevote
      else if v_Type v = VoteTypePrecommit then Inr stepPrecommit
      else Inl TmPanic)"

record PrivValidatorFS =
  fs_Address :: string
  fs_PubKey :: string
  fs_LastHeight :: int
  fs_LastRound :: int
  fs_LastStep :: nat
  fs_LastSignature :: "string option"
  fs_LastSignBytes :: "sign_bytes option"
  fs_PrivKey :: string

record ('pub, 'sig, 'priv) PrivValidatorImp =
  pv_Address :: bytes
  pv_PubKey :: 'pub
  pv_LastHeight :: int
  pv_LastRound :: int
  pv_LastStep :: nat
  pv_LastSignature :: "'sig option"
  pv_LastSignBytes :: "sign_bytes option"
  pv_PrivKey :: 'priv
  pv_Signer :: "sign_bytes \<Rightarrow> 'sig option"
  pv_filePath :: string
  pv_file :: "PrivValidatorFS option"

definition NewDefaultSigner :: "('pub, 'sig, 'priv) signing \<Rightarrow> 'priv \<Rightarrow> sign_bytes \<Rightarrow> 'sig option" where
  "NewDefaultSigner K priv msg = Some (priv_Sign K priv msg)"

definition SignatureFromString :: "('pub, 'sig) crypto \<Rightarrow> string \<Rightarrow> 'sig option" where
  "SignatureFromString C s = Option.bind (hex_DecodeString s) (SignatureFromBytes C)"

text \<open>\<open>GenKey\<close> is the caller's key.\<close>

definition GenPrivValidatorImp ::
    "('pub, 'sig) crypto \<Rightarrow> ('pub, 'sig, 'priv) signing \<Rightarrow> 'priv \<Rightarrow> string \<Rightarrow> ('pub, 'sig, 'priv) PrivValidatorImp" where
  "GenPrivValidatorImp C K privKey filePath =
     \<lparr>pv_Address = GenAddressByPubKey C (priv_PubKey K privKey), pv_PubKey = priv_PubKey K privKey,
      pv_LastHeight = 0, pv_LastRound = 0, pv_LastStep = stepNone, pv_LastSignature = None,
      pv_LastSignBytes = None, pv_PrivKey = privKey, pv_Signer = NewDefaultSigner K privKey,
      pv_filePath = filePath, pv_file = None\<rparr>"

definition pv_save ::
    "('pub, 'sig) crypto \<Rightarrow> ('pub, 'sig, 'priv) signing \<Rightarrow> ('pub, 'sig, 'priv) PrivValidatorImp
      \<Rightarrow> tm_err + ('pub, 'sig, 'priv) PrivValidatorImp" where
  "pv_save C K pv =
     (if pv_filePath pv = '''' then Inl TmPanic
      else Inr (pv\<lparr>pv_file := Some
        \<lparr>fs_Address = hex_encode (pv_Address pv), fs_PubKey = KeyString K (pv_PubKey pv),
         fs_LastHeight = pv_LastHeight pv, fs_LastRound = pv_LastRound pv, fs_LastStep = pv_LastStep pv,
         fs_LastSignature = map_option (\<lambda>sig. hex_encode (sig_Bytes C sig)) (pv_LastSignature pv),
         fs_LastSignBytes = pv_LastSignBytes pv, fs_PrivKey = hex_encode (priv_Bytes K (pv_PrivKey pv))\<rparr>\<rparr>))"

text \<open>\<open>LoadPrivValidatorFSWithSigner\<close> with the function that makes the signer from the key.\<close>

definition LoadPrivValidatorFSWithSigner ::
    "('pub, 'sig) crypto \<Rightarrow> ('pub, 'sig, 'priv) signing \<Rightarrow> string \<Rightarrow> PrivValidatorFS
      \<Rightarrow> ('priv \<Rightarrow> sign_bytes \<Rightarrow> 'sig option) \<Rightarrow> tm_err + ('pub, 'sig, 'priv) PrivValidatorImp" where
  "LoadPrivValidatorFSWithSigner C K filePath fs signerFunc =
     (if fs_PubKey fs = '''' then Inl TmExit
      else if fs_PrivKey fs = '''' then Inl TmExit
      else case hex_DecodeString (fs_Address fs) of
        None \<Rightarrow> Inl TmExit
      | Some addr \<Rightarrow>
          (case Option.bind (hex_DecodeString (fs_PrivKey fs)) (PrivKeyFromBytes K) of
             None \<Rightarrow> Inl TmExit
           | Some privKey \<Rightarrow>
               (case PubKeyFromString C (fs_PubKey fs) of
                  None \<Rightarrow> Inl TmExit
                | Some pubKey \<Rightarrow>
                    (let pv = \<lparr>pv_Address = addr, pv_PubKey = pubKey, pv_LastHeight = fs_LastHeight fs,
                           pv_LastRound = fs_LastRound fs, pv_LastStep = fs_LastStep fs, pv_LastSignature = None,
                           pv_LastSignBytes = fs_LastSignBytes fs, pv_PrivKey = privKey,
                           pv_Signer = signerFunc privKey, pv_filePath = filePath, pv_file = Some fs\<rparr>
                     in case fs_LastSignature fs of
                       None \<Rightarrow> Inr pv
                     | Some s \<Rightarrow>
                         (case SignatureFromString C s of
                            None \<Rightarrow> Inl TmExit
                          | Some sig \<Rightarrow> Inr (pv\<lparr>pv_LastSignature := Some sig\<rparr>))))))"

definition LoadPrivValidatorFS ::
    "('pub, 'sig) crypto \<Rightarrow> ('pub, 'sig, 'priv) signing \<Rightarrow> string \<Rightarrow> PrivValidatorFS
      \<Rightarrow> tm_err + ('pub, 'sig, 'priv) PrivValidatorImp" where
  "LoadPrivValidatorFS C K filePath fs = LoadPrivValidatorFSWithSigner C K filePath fs (NewDefaultSigner K)"

definition pv_Reset ::
    "('pub, 'sig) crypto \<Rightarrow> ('pub, 'sig, 'priv) signing \<Rightarrow> ('pub, 'sig, 'priv) PrivValidatorImp
      \<Rightarrow> tm_err + ('pub, 'sig, 'priv) PrivValidatorImp" where
  "pv_Reset C K pv =
     pv_save C K (pv\<lparr>pv_LastHeight := 0, pv_LastRound := 0, pv_LastStep := 0,
       pv_LastSignature := None, pv_LastSignBytes := None\<rparr>)"

definition pv_ResetLastHeight :: "('pub, 'sig, 'priv) PrivValidatorImp \<Rightarrow> int \<Rightarrow> ('pub, 'sig, 'priv) PrivValidatorImp" where
  "pv_ResetLastHeight pv h = pv\<lparr>pv_LastHeight := h, pv_LastRound := 0, pv_LastStep := 0\<rparr>"

definition checkHRS :: "('pub, 'sig, 'priv) PrivValidatorImp \<Rightarrow> int \<Rightarrow> int \<Rightarrow> nat \<Rightarrow> tm_err + bool" where
  "checkHRS pv h r s =
     (if pv_LastHeight pv > h then Inl Err_HeightRegression
      else if pv_LastHeight pv = h then
        if pv_LastRound pv > r then Inl Err_RoundRegression
        else if pv_LastRound pv = r then
          if pv_LastStep pv > s then Inl Err_StepRegression
          else if pv_LastStep pv = s then
            if pv_LastSignBytes pv \<noteq> None then
              if pv_LastSignature pv = None then Inl TmPanic else Inr True
            else Inl Err_NoLastSignature
          else Inr False
        else Inr False
      else Inr False)"

text \<open>
  \<open>json.Unmarshal\<close> into the canonical vote or proposal ignores the fields of another message, which
  leaves the zero value; then the time stamps are made equal and the texts compared.
\<close>

definition as_vote :: "sign_bytes \<Rightarrow> sign_bytes" where
  "as_vote m =
     (case m of
        SB_Vote chainID b h r ts t \<Rightarrow> SB_Vote chainID b h r 0 t
      | SB_Proposal chainID _ _ _ _ _ \<Rightarrow> SB_Vote chainID [] 0 0 0 0
      | SB_Heartbeat chainID _ _ _ _ _ \<Rightarrow> SB_Vote chainID [] 0 0 0 0)"

definition as_proposal :: "sign_bytes \<Rightarrow> sign_bytes" where
  "as_proposal m =
     (case m of
        SB_Proposal chainID h ts b pr r \<Rightarrow> SB_Proposal chainID h 0 b pr r
      | SB_Vote chainID _ _ _ _ _ \<Rightarrow> SB_Proposal chainID 0 0 [] 0 0
      | SB_Heartbeat chainID _ _ _ _ _ \<Rightarrow> SB_Proposal chainID 0 0 [] 0 0)"

definition checkVotesOnlyDifferByTimestamp :: "sign_bytes \<Rightarrow> sign_bytes \<Rightarrow> bool" where
  "checkVotesOnlyDifferByTimestamp lastSignBytes newSignBytes \<longleftrightarrow> as_vote newSignBytes = as_vote lastSignBytes"

definition checkProposalsOnlyDifferByTimestamp :: "sign_bytes \<Rightarrow> sign_bytes \<Rightarrow> bool" where
  "checkProposalsOnlyDifferByTimestamp lastSignBytes newSignBytes \<longleftrightarrow> as_proposal newSignBytes = as_proposal lastSignBytes"

text \<open>The call of \<open>saveSigned\<close> at the end of \<open>signBytesHRS\<close> is commented out in the source.\<close>

definition signBytesHRS ::
    "('pub, 'sig, 'priv) PrivValidatorImp \<Rightarrow> int \<Rightarrow> int \<Rightarrow> nat \<Rightarrow> sign_bytes \<Rightarrow> (sign_bytes \<Rightarrow> sign_bytes \<Rightarrow> bool)
      \<Rightarrow> (tm_err + 'sig) \<times> ('pub, 'sig, 'priv) PrivValidatorImp" where
  "signBytesHRS pv h r s signBytes checkFn =
     (case checkHRS pv h r s of
        Inl e \<Rightarrow> (Inl e, pv)
      | Inr sameHRS \<Rightarrow>
          if sameHRS then
            if pv_LastSignBytes pv = Some signBytes \<or> checkFn (the (pv_LastSignBytes pv)) signBytes
            then (Inr (the (pv_LastSignature pv)), pv)
            else (Inl Err_ConflictingData, pv)
          else case pv_Signer pv signBytes of
            None \<Rightarrow> (Inl ErrSigner, pv)
          | Some sig \<Rightarrow> (Inr sig, pv))"

definition saveSigned ::
    "('pub, 'sig) crypto \<Rightarrow> ('pub, 'sig, 'priv) signing \<Rightarrow> ('pub, 'sig, 'priv) PrivValidatorImp
      \<Rightarrow> int \<Rightarrow> int \<Rightarrow> nat \<Rightarrow> sign_bytes \<Rightarrow> 'sig \<Rightarrow> tm_err + ('pub, 'sig, 'priv) PrivValidatorImp" where
  "saveSigned C K pv h r s signBytes sig =
     pv_save C K (pv\<lparr>pv_LastHeight := h, pv_LastRound := r, pv_LastStep := s,
       pv_LastSignature := Some sig, pv_LastSignBytes := Some signBytes\<rparr>)"

definition SignVote ::
    "('pub, 'sig) crypto \<Rightarrow> ('pub, 'sig, 'priv) PrivValidatorImp \<Rightarrow> string \<Rightarrow> vote
      \<Rightarrow> (tm_err + vote) \<times> ('pub, 'sig, 'priv) PrivValidatorImp" where
  "SignVote C pv chainID v =
     (case voteToStep v of
        Inl e \<Rightarrow> (Inl e, pv)
      | Inr s \<Rightarrow>
          (case signBytesHRS pv (v_Height v) (v_Round v) s (SignBytes_vote chainID v) checkVotesOnlyDifferByTimestamp of
             (Inl e, pv') \<Rightarrow> (Inl e, pv')
           | (Inr sig, pv') \<Rightarrow> (Inr (v\<lparr>v_Signature := sig_Bytes C sig\<rparr>), pv')))"

definition SignProposal ::
    "('pub, 'sig) crypto \<Rightarrow> ('pub, 'sig, 'priv) PrivValidatorImp \<Rightarrow> string \<Rightarrow> proposal
      \<Rightarrow> (tm_err + proposal) \<times> ('pub, 'sig, 'priv) PrivValidatorImp" where
  "SignProposal C pv chainID p =
     (case signBytesHRS pv (p_Height p) (p_Round p) stepPropose (SignBytes_proposal chainID p) checkProposalsOnlyDifferByTimestamp of
        (Inl e, pv') \<Rightarrow> (Inl e, pv')
      | (Inr sig, pv') \<Rightarrow> (Inr (p\<lparr>p_Signature := sig_Bytes C sig\<rparr>), pv'))"

definition SignHeartbeat ::
    "('pub, 'sig) crypto \<Rightarrow> ('pub, 'sig, 'priv) PrivValidatorImp \<Rightarrow> string \<Rightarrow> heartbeat \<Rightarrow> tm_err + heartbeat" where
  "SignHeartbeat C pv chainID hb =
     (case pv_Signer pv (SignBytes_heartbeat chainID hb) of
        None \<Rightarrow> Inl TmPanic
      | Some sig \<Rightarrow> Inr (hb\<lparr>hb_Signature := sig_Bytes C sig\<rparr>))"

section \<open>Signing\<close>

text \<open>A signer whose signatures the scheme accepts for the public key.\<close>

definition signs_for :: "('pub, 'sig) crypto \<Rightarrow> (sign_bytes \<Rightarrow> 'sig option) \<Rightarrow> 'pub \<Rightarrow> bool" where
  "signs_for C signer pub \<longleftrightarrow> (\<forall>m. \<exists>sig. signer m = Some sig
     \<and> SignatureFromBytes C (sig_Bytes C sig) = Some sig \<and> VerifyBytes C pub m sig)"

lemma SignBytes_vote_sig [simp]: "SignBytes_vote chainID (v\<lparr>v_Signature := s\<rparr>) = SignBytes_vote chainID v"
  by (simp add: SignBytes_vote_def)

lemma SignVote_fresh:
  assumes "voteToStep v = Inr s" and "checkHRS pv (v_Height v) (v_Round v) s = Inr False"
    and "signs_for C (pv_Signer pv) pub"
  shows "\<exists>sig. SignVote C pv chainID v = (Inr (v\<lparr>v_Signature := sig_Bytes C sig\<rparr>), pv)
    \<and> SignatureFromBytes C (sig_Bytes C sig) = Some sig \<and> VerifyBytes C pub (SignBytes_vote chainID v) sig"
proof -
  obtain sig where "pv_Signer pv (SignBytes_vote chainID v) = Some sig"
      "SignatureFromBytes C (sig_Bytes C sig) = Some sig" "VerifyBytes C pub (SignBytes_vote chainID v) sig"
    using assms(3) unfolding signs_for_def by blast
  then show ?thesis
    using assms(1,2) by (intro exI [of _ sig]) (simp add: SignVote_def signBytesHRS_def)
qed

text \<open>The order of height, round and step.\<close>

definition hrs_less :: "int \<times> int \<times> nat \<Rightarrow> int \<times> int \<times> nat \<Rightarrow> bool" where
  "hrs_less a b \<longleftrightarrow> (case (a, b) of ((h, r, s), (h', r', s')) \<Rightarrow>
     h < h' \<or> h = h' \<and> (r < r' \<or> r = r' \<and> s < s'))"

definition pv_HRS :: "('pub, 'sig, 'priv) PrivValidatorImp \<Rightarrow> int \<times> int \<times> nat" where
  "pv_HRS pv = (pv_LastHeight pv, pv_LastRound pv, pv_LastStep pv)"

lemma checkHRS_iff:
  "checkHRS pv h r s = Inr False \<longleftrightarrow> hrs_less (pv_HRS pv) (h, r, s)"
  "checkHRS pv h r s = Inr True \<longleftrightarrow> pv_HRS pv = (h, r, s) \<and> pv_LastSignBytes pv \<noteq> None \<and> pv_LastSignature pv \<noteq> None"
  by (auto simp: checkHRS_def hrs_less_def pv_HRS_def)

lemma saveSigned_fields:
  assumes "saveSigned C K pv h r s m sig = Inr pv'"
  shows "pv_HRS pv' = (h, r, s)" and "pv_LastSignBytes pv' = Some m" and "pv_LastSignature pv' = Some sig"
    and "pv_Signer pv' = pv_Signer pv"
  using assms by (auto simp: saveSigned_def pv_save_def pv_HRS_def split: if_splits)

section \<open>Properties\<close>

text \<open>
  C33. A validator that runs this code can be made to sign twice: after signing a vote it also signs
  any other vote for the same height, round and type, since nothing records the first (the call of
  \<open>saveSigned\<close> is commented out), and the two signed votes are evidence against it that
  \<open>DuplicateVoteEvidence.Verify\<close> accepts. The interface says that it never double signs.
\<close>

theorem signVote_double_signs:
  assumes "voteToStep v = Inr s" and "hrs_less (pv_HRS pv) (v_Height v, v_Round v, s)"
    and "b \<noteq> v_BlockID v" and "signs_for C (pv_Signer pv) pub" and "PubKeyFromBytes C (pub_Bytes C pub) = Some pub"
  shows "\<exists>v1 v2 pv1 pv2. SignVote C pv chainID v = (Inr v1, pv1)
    \<and> SignVote C pv1 chainID (v\<lparr>v_BlockID := b\<rparr>) = (Inr v2, pv2)
    \<and> dve_Verify C chainID \<lparr>dve_PubKey = hex_encode (pub_Bytes C pub), dve_VoteA = v1, dve_VoteB = v2\<rparr> = Inr ()"
proof -
  let ?v = "v\<lparr>v_BlockID := b\<rparr>"
  have c: "checkHRS pv (v_Height v) (v_Round v) s = Inr False"
    using assms(2) by (simp add: checkHRS_iff)
  obtain s1 where s1: "SignVote C pv chainID v = (Inr (v\<lparr>v_Signature := sig_Bytes C s1\<rparr>), pv)"
      "SignatureFromBytes C (sig_Bytes C s1) = Some s1" "VerifyBytes C pub (SignBytes_vote chainID v) s1"
    using SignVote_fresh [OF assms(1) c assms(4)] by blast
  have "voteToStep ?v = Inr s" "checkHRS pv (v_Height ?v) (v_Round ?v) s = Inr False"
    using assms(1) c by (simp_all add: voteToStep_def cong: if_cong)
  then obtain s2 where s2: "SignVote C pv chainID ?v = (Inr (?v\<lparr>v_Signature := sig_Bytes C s2\<rparr>), pv)"
      "SignatureFromBytes C (sig_Bytes C s2) = Some s2" "VerifyBytes C pub (SignBytes_vote chainID ?v) s2"
    using SignVote_fresh [OF _ _ assms(4)] by blast
  have "PubKeyFromString C (hex_encode (pub_Bytes C pub)) = Some pub"
    using assms(5) by (simp add: PubKeyFromString_def hex_decode_encode)
  then have "dve_Verify C chainID \<lparr>dve_PubKey = hex_encode (pub_Bytes C pub),
      dve_VoteA = v\<lparr>v_Signature := sig_Bytes C s1\<rparr>, dve_VoteB = ?v\<lparr>v_Signature := sig_Bytes C s2\<rparr>\<rparr> = Inr ()"
    using s1(2,3) s2(2,3) assms(3) by (simp add: dve_Verify_def bid_Equals_def)
  then show ?thesis
    using s1(1) s2(1) by blast
qed

definition toy_keys :: "(bytes, bytes, bytes) signing" where
  "toy_keys = \<lparr>PrivKeyFromBytes = (\<lambda>b. if b = [] then None else Some b), priv_Bytes = (\<lambda>k. k), priv_PubKey = (\<lambda>k. k),
     priv_Sign = (\<lambda>k m. k), KeyString = hex_encode\<rparr>"

definition pv_a :: "(bytes, bytes, bytes) PrivValidatorImp" where
  "pv_a = GenPrivValidatorImp toy_crypto toy_keys ''a'' ''priv.json''"

lemma pv_a_signs: "signs_for toy_crypto (pv_Signer pv_a) ''a''"
  by (simp add: signs_for_def pv_a_def GenPrivValidatorImp_def NewDefaultSigner_def toy_keys_def toy_crypto_def)

theorem signVote_double_signs_witness:
  "\<exists>v1 v2 pv1 pv2. SignVote toy_crypto pv_a ''chain'' (vote_by ''a'' 0 ''B'') = (Inr v1, pv1)
    \<and> SignVote toy_crypto pv1 ''chain'' ((vote_by ''a'' 0 ''B'')\<lparr>v_BlockID := ''D''\<rparr>) = (Inr v2, pv2)
    \<and> dve_Verify toy_crypto ''chain'' \<lparr>dve_PubKey = hex_encode (pub_Bytes toy_crypto ''a''), dve_VoteA = v1, dve_VoteB = v2\<rparr> = Inr ()"
proof (rule signVote_double_signs [OF _ _ _ pv_a_signs])
  show "voteToStep (vote_by ''a'' 0 ''B'') = Inr 3"
    by code_simp
  show "hrs_less (pv_HRS pv_a) (v_Height (vote_by ''a'' 0 ''B''), v_Round (vote_by ''a'' 0 ''B''), 3)"
    by (simp add: hrs_less_def pv_HRS_def pv_a_def GenPrivValidatorImp_def vote_by_def)
qed (simp_all add: vote_by_def toy_crypto_def)



text \<open>
  The file of a validator restores it: what \<open>save\<close> writes, \<open>LoadPrivValidatorFS\<close> reads back to the
  same validator, with the last signature and the last signed bytes, if the encodings of the keys and
  of the signature can be decoded and the keys are not empty.
\<close>

theorem privValidator_file_roundtrip:
  assumes "pv_save C K pv = Inr pv'" and "pv_file pv' = Some fs" and "pv_Signer pv = NewDefaultSigner K (pv_PrivKey pv)"
    and "PrivKeyFromBytes K (priv_Bytes K (pv_PrivKey pv)) = Some (pv_PrivKey pv)" and "priv_Bytes K (pv_PrivKey pv) \<noteq> []"
    and "PubKeyFromString C (KeyString K (pv_PubKey pv)) = Some (pv_PubKey pv)" and "KeyString K (pv_PubKey pv) \<noteq> []"
    and "\<And>sig. pv_LastSignature pv = Some sig \<Longrightarrow> SignatureFromBytes C (sig_Bytes C sig) = Some sig"
  shows "LoadPrivValidatorFS C K (pv_filePath pv) fs = Inr pv'"
proof -
  have fs: "fs = \<lparr>fs_Address = hex_encode (pv_Address pv), fs_PubKey = KeyString K (pv_PubKey pv),
         fs_LastHeight = pv_LastHeight pv, fs_LastRound = pv_LastRound pv, fs_LastStep = pv_LastStep pv,
         fs_LastSignature = map_option (\<lambda>sig. hex_encode (sig_Bytes C sig)) (pv_LastSignature pv),
         fs_LastSignBytes = pv_LastSignBytes pv, fs_PrivKey = hex_encode (priv_Bytes K (pv_PrivKey pv))\<rparr>"
    and pv': "pv' = pv\<lparr>pv_file := Some fs\<rparr>"
    using assms(1,2) by (auto simp: pv_save_def split: if_splits)
  have "hex_encode (priv_Bytes K (pv_PrivKey pv)) \<noteq> []"
    using assms(5) by (cases "priv_Bytes K (pv_PrivKey pv)") auto
  then show ?thesis
    using assms(3-8)
    by (cases "pv_LastSignature pv"; cases pv)
      (simp_all add: LoadPrivValidatorFS_def LoadPrivValidatorFSWithSigner_def fs pv' hex_decode_encode
        SignatureFromString_def Let_def)
qed

theorem privValidator_file_roundtrip_witness:
  "\<exists>pv' fs. pv_save toy_crypto toy_keys pv_a = Inr pv' \<and> pv_file pv' = Some fs
     \<and> LoadPrivValidatorFS toy_crypto toy_keys ''priv.json'' fs = Inr pv'"
proof -
  obtain pv' fs where s: "pv_save toy_crypto toy_keys pv_a = Inr pv'" "pv_file pv' = Some fs"
    by (simp add: pv_save_def pv_a_def GenPrivValidatorImp_def)
  have "PubKeyFromString toy_crypto (KeyString toy_keys (pv_PubKey pv_a)) = Some (pv_PubKey pv_a)"
    by code_simp
  from privValidator_file_roundtrip [OF s _ _ _ this]
  have "LoadPrivValidatorFS toy_crypto toy_keys (pv_filePath pv_a) fs = Inr pv'"
    by (simp add: pv_a_def GenPrivValidatorImp_def toy_keys_def toy_crypto_def)
  then show ?thesis
    using s by (auto simp: pv_a_def GenPrivValidatorImp_def)
qed

end
