(* ===== verification/TmState.thy ===== *)
theory TmState
  imports VoteSafety
begin

text \<open>
  The state of the Tendermint chain and the blocks that change it: \<open>plugin/consensus/tendermint\<close>
  (\<open>state.go\<close>, \<open>execution.go\<close>, \<open>VerifyEvidence\<close> of \<open>evidence.go\<close>) and its \<open>types\<close> (\<open>params.go\<close>,
  \<open>genesis.go\<close>, the blocks of \<open>block.go\<close>). JSON texts, the Merkle root, the decoding of evidence and the
  answers of the chain to queries are parameters. A nil byte slice and an empty one are the same. A nil
  pointer to a validator set is \<open>None\<close>.
\<close>

section \<open>Definitions\<close>

record BlockSize =
  bs_MaxBytes :: int
  bs_MaxTxs :: int
  bs_MaxGas :: int

record TxSize =
  ts_MaxBytes :: int
  ts_MaxGas :: int

record ConsensusParams =
  cp_BlockSize :: BlockSize
  cp_TxSize :: TxSize
  cp_BlockPartSizeBytes :: int
  cp_MaxAge :: int

definition maxBlockSizeBytes :: int where
  "maxBlockSizeBytes = 104857600"

definition DefaultBlockSize :: BlockSize where
  "DefaultBlockSize = \<lparr>bs_MaxBytes = 22020096, bs_MaxTxs = 100000, bs_MaxGas = -1\<rparr>"

definition DefaultTxSize :: TxSize where
  "DefaultTxSize = \<lparr>ts_MaxBytes = 10240, ts_MaxGas = -1\<rparr>"

definition DefaultConsensusParams :: ConsensusParams where
  "DefaultConsensusParams = \<lparr>cp_BlockSize = DefaultBlockSize, cp_TxSize = DefaultTxSize,
     cp_BlockPartSizeBytes = 65536, cp_MaxAge = 100000\<rparr>"

datatype exec_err =
    EErr tm_err
  | Err_WrongChainID | Err_WrongBlockHeight | Err_WrongLastBlockID | Err_WrongTotalTxs | Err_WrongAppHash
  | Err_WrongConsensusHash | Err_WrongResultsHash | Err_WrongValidatorsHash | Err_FirstCommit | Err_CommitSize
  | Err_EvidenceTooOld | Err_NotValidator | Err_WrongIndex | Err_NilState
  | Err_NoChainID | Err_MaxBytes | Err_PartSize | Err_NoValidators | Err_NoPower
  | Err_NumTxs | Err_LastCommitHash | Err_EvidenceHash

definition params_Validate :: "ConsensusParams \<Rightarrow> exec_err + unit" where
  "params_Validate p =
     (if bs_MaxBytes (cp_BlockSize p) \<le> 0 then Inl Err_MaxBytes
      else if cp_BlockPartSizeBytes p \<le> 0 then Inl Err_PartSize
      else if bs_MaxBytes (cp_BlockSize p) > maxBlockSizeBytes then Inl Err_MaxBytes
      else Inr ())"

text \<open>\<open>genesis.go\<close>. A zero time is \<open>None\<close>; \<open>now\<close> is the clock.\<close>

record GenesisValidator =
  gv_PubKey :: string
  gv_Power :: int

record GenesisDoc =
  gd_GenesisTime :: "int option"
  gd_ChainID :: string
  gd_ConsensusParams :: "ConsensusParams option"
  gd_Validators :: "GenesisValidator list"
  gd_AppHash :: bytes

definition ValidateAndComplete :: "int \<Rightarrow> GenesisDoc \<Rightarrow> exec_err + GenesisDoc" where
  "ValidateAndComplete now d =
     (if gd_ChainID d = '''' then Inl Err_NoChainID
      else case (case gd_ConsensusParams d of
                   None \<Rightarrow> Inr (d\<lparr>gd_ConsensusParams := Some DefaultConsensusParams\<rparr>)
                 | Some p \<Rightarrow> (case params_Validate p of Inl e \<Rightarrow> Inl e | Inr _ \<Rightarrow> Inr d)) of
        Inl e \<Rightarrow> Inl e
      | Inr d \<Rightarrow>
          if gd_Validators d = [] then Inl Err_NoValidators
          else if \<exists>v \<in> set (gd_Validators d). gv_Power v = 0 then Inl Err_NoPower
          else Inr (if gd_GenesisTime d = None then d\<lparr>gd_GenesisTime := Some now\<rparr> else d))"

text \<open>\<open>state.go\<close>\<close>

record State =
  st_ChainID :: string
  st_LastBlockHeight :: int
  st_LastBlockTotalTx :: int
  st_LastBlockID :: blockID
  st_LastBlockTime :: int
  st_Validators :: "ValidatorSet option"
  st_LastValidators :: "ValidatorSet option"
  st_LastHeightValidatorsChanged :: int
  st_ConsensusParams :: ConsensusParams
  st_LastHeightConsensusParamsChanged :: int
  st_LastResultsHash :: bytes
  st_AppHash :: bytes

fun genesis_validators :: "('pub, 'sig) crypto \<Rightarrow> GenesisValidator list \<Rightarrow> exec_err + validator list" where
  "genesis_validators C [] = Inr []"
| "genesis_validators C (v # vs) =
     (case PubKeyFromString C (gv_PubKey v) of
        None \<Rightarrow> Inl (EErr ErrPubKeyFromBytes)
      | Some pubKey \<Rightarrow>
          (case genesis_validators C vs of
             Inl e \<Rightarrow> Inl e
           | Inr ws \<Rightarrow> Inr (\<lparr>val_Address = GenAddressByPubKey C pubKey, val_PubKey = pub_Bytes C pubKey,
                             val_VotingPower = gv_Power v, val_Accum = 0\<rparr> # ws)))"

definition MakeGenesisState :: "('pub, 'sig) crypto \<Rightarrow> int \<Rightarrow> GenesisDoc \<Rightarrow> exec_err + State" where
  "MakeGenesisState C now genDoc =
     (case ValidateAndComplete now genDoc of
        Inl e \<Rightarrow> Inl e
      | Inr d \<Rightarrow>
          (case genesis_validators C (gd_Validators d) of
             Inl e \<Rightarrow> Inl e
           | Inr validators \<Rightarrow>
               (case (NewValidatorSet (Some validators), NewValidatorSet None) of
                  (Inr vals, Inr lastVals) \<Rightarrow>
                    Inr \<lparr>st_ChainID = gd_ChainID d, st_LastBlockHeight = 0, st_LastBlockTotalTx = 0,
                         st_LastBlockID = [], st_LastBlockTime = the (gd_GenesisTime d),
                         st_Validators = Some vals, st_LastValidators = Some lastVals,
                         st_LastHeightValidatorsChanged = 1, st_ConsensusParams = the (gd_ConsensusParams d),
                         st_LastHeightConsensusParamsChanged = 1, st_LastResultsHash = [], st_AppHash = gd_AppHash d\<rparr>
                | (Inl e, _) \<Rightarrow> Inl (EErr e)
                | (_, Inl e) \<Rightarrow> Inl (EErr e))))"

text \<open>
  The protobuf form of the state. The slice of validators of a set may be nil; a field of a 32-bit
  type takes the number modulo \<open>2^32\<close>.
\<close>

record pb_ValidatorSet =
  ps_Validators :: "validator list option"
  ps_Proposer :: "validator option"

record pb_State =
  pb_ChainID :: string
  pb_LastBlockHeight :: int
  pb_LastBlockTotalTx :: int
  pb_LastBlockTime :: int
  pb_Validators :: "pb_ValidatorSet option"
  pb_LastValidators :: "pb_ValidatorSet option"
  pb_LastHeightValidatorsChanged :: int
  pb_ConsensusParams :: "ConsensusParams option"
  pb_LastHeightConsensusParamsChanged :: int
  pb_LastResultsHash :: bytes
  pb_AppHash :: bytes

definition empty_validator :: validator where
  "empty_validator = \<lparr>val_Address = [], val_PubKey = [], val_VotingPower = 0, val_Accum = 0\<rparr>"

definition saveConsensusParams :: "ConsensusParams \<Rightarrow> ConsensusParams" where
  "saveConsensusParams p =
     \<lparr>cp_BlockSize = \<lparr>bs_MaxBytes = to_int32 (bs_MaxBytes (cp_BlockSize p)), bs_MaxTxs = to_int32 (bs_MaxTxs (cp_BlockSize p)),
        bs_MaxGas = bs_MaxGas (cp_BlockSize p)\<rparr>,
      cp_TxSize = \<lparr>ts_MaxBytes = to_int32 (ts_MaxBytes (cp_TxSize p)), ts_MaxGas = ts_MaxGas (cp_TxSize p)\<rparr>,
      cp_BlockPartSizeBytes = to_int32 (cp_BlockPartSizeBytes p), cp_MaxAge = cp_MaxAge p\<rparr>"

definition saveProposer :: "validator option \<Rightarrow> validator" where
  "saveProposer p = (case p of None \<Rightarrow> empty_validator | Some v \<Rightarrow> v)"

definition save_set :: "ValidatorSet option \<Rightarrow> pb_ValidatorSet" where
  "save_set S = (case S of
     None \<Rightarrow> \<lparr>ps_Validators = Some [], ps_Proposer = Some empty_validator\<rparr>
   | Some S \<Rightarrow> \<lparr>ps_Validators = Some (vs_Validators S), ps_Proposer = Some (saveProposer (vs_Proposer S))\<rparr>)"

definition SaveState :: "State \<Rightarrow> pb_State" where
  "SaveState s =
     \<lparr>pb_ChainID = st_ChainID s, pb_LastBlockHeight = st_LastBlockHeight s, pb_LastBlockTotalTx = st_LastBlockTotalTx s,
      pb_LastBlockTime = st_LastBlockTime s, pb_Validators = Some (save_set (st_Validators s)),
      pb_LastValidators = Some (save_set (st_LastValidators s)),
      pb_LastHeightValidatorsChanged = st_LastHeightValidatorsChanged s,
      pb_ConsensusParams = Some (saveConsensusParams (st_ConsensusParams s)),
      pb_LastHeightConsensusParamsChanged = st_LastHeightConsensusParamsChanged s,
      pb_LastResultsHash = st_LastResultsHash s, pb_AppHash = st_AppHash s\<rparr>"

text \<open>
  \<open>LoadValidators\<close> leaves nil where an address or key is empty. Such a nil is dereferenced by the first
  use of the set; the model panics when the set is made of the array.
\<close>

definition LoadValidators :: "validator list \<Rightarrow> validator option list" where
  "LoadValidators vs = map (\<lambda>v. if val_Address v = [] \<or> val_PubKey v = [] then None else Some v) vs"

definition LoadProposer :: "validator \<Rightarrow> validator option" where
  "LoadProposer v = (if val_Address v = [] then None else if val_PubKey v = [] then None else Some v)"

definition load_set :: "pb_ValidatorSet option \<Rightarrow> exec_err + ValidatorSet option" where
  "load_set ps =
     (case ps of
        None \<Rightarrow> Inr None
      | Some p \<Rightarrow>
          (case ps_Validators p of
             None \<Rightarrow> Inr None
           | Some vs \<Rightarrow>
               if None \<in> set (LoadValidators vs) then Inl (EErr TmPanic)
               else Inr (Some \<lparr>vs_Validators = map the (LoadValidators vs),
                 vs_Proposer = (case ps_Proposer p of None \<Rightarrow> None | Some v \<Rightarrow> LoadProposer v), vs_totalVotingPower = 0\<rparr>)))"

definition zero_params :: ConsensusParams where
  "zero_params = \<lparr>cp_BlockSize = \<lparr>bs_MaxBytes = 0, bs_MaxTxs = 0, bs_MaxGas = 0\<rparr>,
     cp_TxSize = \<lparr>ts_MaxBytes = 0, ts_MaxGas = 0\<rparr>, cp_BlockPartSizeBytes = 0, cp_MaxAge = 0\<rparr>"

definition LoadState :: "pb_State \<Rightarrow> exec_err + State" where
  "LoadState p =
     (case load_set (pb_Validators p) of
        Inl e \<Rightarrow> Inl e
      | Inr vals \<Rightarrow>
          (case load_set (pb_LastValidators p) of
             Inl e \<Rightarrow> Inl e
           | Inr lastVals \<Rightarrow>
               Inr \<lparr>st_ChainID = pb_ChainID p, st_LastBlockHeight = pb_LastBlockHeight p,
                    st_LastBlockTotalTx = pb_LastBlockTotalTx p, st_LastBlockID = [], st_LastBlockTime = pb_LastBlockTime p,
                    st_Validators = vals, st_LastValidators = lastVals,
                    st_LastHeightValidatorsChanged = pb_LastHeightValidatorsChanged p,
                    st_ConsensusParams = (case pb_ConsensusParams p of None \<Rightarrow> zero_params | Some c \<Rightarrow> c),
                    st_LastHeightConsensusParamsChanged = pb_LastHeightConsensusParamsChanged p,
                    st_LastResultsHash = pb_LastResultsHash p, st_AppHash = pb_AppHash p\<rparr>))"

text \<open>\<open>block.go\<close>. Transactions are opaque; evidence in a block is a type name and encoded data.\<close>

record Header =
  hd_ChainID :: string
  hd_Height :: int
  hd_Round :: int
  hd_Time :: int
  hd_NumTxs :: int
  hd_LastBlockID :: blockID
  hd_TotalTxs :: int
  hd_LastCommitHash :: bytes
  hd_ValidatorsHash :: bytes
  hd_ConsensusHash :: bytes
  hd_AppHash :: bytes
  hd_LastResultsHash :: bytes
  hd_EvidenceHash :: bytes

record 'tx TendermintBlock =
  b_Header :: Header
  b_Txs :: "'tx list"
  b_Evidence :: "(string \<times> bytes) list"
  b_LastCommit :: commit
  b_ProposerAddr :: bytes

text \<open>
  The parameters: \<open>json.Marshal\<close> of the consensus parameters, of a header, of a vote and of evidence, the
  functions of the package \<open>merkle\<close>, and \<open>proto.Unmarshal\<close> of evidence.
\<close>

record coding =
  json_params :: "ConsensusParams \<Rightarrow> bytes"
  json_header :: "Header \<Rightarrow> bytes"
  json_vote :: "vote option \<Rightarrow> bytes"
  json_dve :: "DuplicateVoteEvidence \<Rightarrow> bytes"
  GetMerkleRoot :: "bytes list \<Rightarrow> bytes"
  GetHashFromTwoHash :: "bytes \<Rightarrow> bytes \<Rightarrow> bytes"
  unmarshal_dve :: "bytes \<Rightarrow> DuplicateVoteEvidence option"

definition be64 :: "int \<Rightarrow> bytes" where
  "be64 i = map (\<lambda>k. char_of (i mod 2 ^ 64 div 256 ^ k mod 256)) [7, 6, 5, 4, 3, 2, 1, 0]"

definition val_Hash :: "('pub, 'sig) crypto \<Rightarrow> validator \<Rightarrow> bytes" where
  "val_Hash C v = Ripemd160 C (val_Address v @ val_PubKey v @ be64 (val_VotingPower v))"

definition vs_Hash :: "('pub, 'sig) crypto \<Rightarrow> coding \<Rightarrow> ValidatorSet \<Rightarrow> bytes" where
  "vs_Hash C J S = (if vs_Validators S = [] then [] else GetMerkleRoot J (map (val_Hash C) (vs_Validators S)))"

definition params_Hash :: "('pub, 'sig) crypto \<Rightarrow> coding \<Rightarrow> ConsensusParams \<Rightarrow> bytes" where
  "params_Hash C J p = Ripemd160 C (json_params J p)"

definition vote_Hash :: "('pub, 'sig) crypto \<Rightarrow> coding \<Rightarrow> vote option \<Rightarrow> bytes" where
  "vote_Hash C J v = Ripemd160 C (json_vote J v)"

definition commit_Hash :: "('pub, 'sig) crypto \<Rightarrow> coding \<Rightarrow> commit \<Rightarrow> bytes" where
  "commit_Hash C J c = GetMerkleRoot J (map (vote_Hash C J) (c_Precommits c))"

text \<open>
  The map from type names to types has the one entry that \<open>NewEvidenceStore\<close> makes. Hashing evidence
  that cannot be decoded panics; in the model its hash is empty, and validation panics.
\<close>

definition EvidenceEnvelope2Evidence :: "coding \<Rightarrow> string \<times> bytes \<Rightarrow> tm_err + DuplicateVoteEvidence option" where
  "EvidenceEnvelope2Evidence J env =
     (if fst env = ''DuplicateVote''
      then (case unmarshal_dve J (snd env) of None \<Rightarrow> Inl TmPanic | Some d \<Rightarrow> Inr (Some d))
      else Inr None)"

definition envelope_Hash :: "('pub, 'sig) crypto \<Rightarrow> coding \<Rightarrow> string \<times> bytes \<Rightarrow> bytes" where
  "envelope_Hash C J env =
     (case EvidenceEnvelope2Evidence J env of Inr (Some d) \<Rightarrow> Ripemd160 C (json_dve J d) | _ \<Rightarrow> [])"

lemma half_less: "evl \<noteq> [] \<Longrightarrow> length evl \<noteq> Suc 0 \<Longrightarrow> Suc (length evl) div 2 < length evl"
  by (cases evl) auto

function evidence_Hash :: "('pub, 'sig) crypto \<Rightarrow> coding \<Rightarrow> (string \<times> bytes) list \<Rightarrow> bytes" where
  "evidence_Hash C J evl =
     (if length evl = 0 then []
      else if length evl = 1 then envelope_Hash C J (evl ! 0)
      else GetHashFromTwoHash J (evidence_Hash C J (take ((length evl + 1) div 2) evl))
             (evidence_Hash C J (drop ((length evl + 1) div 2) evl)))"
  by pat_completeness auto
termination
  by (relation "measure (\<lambda>(C, J, evl). length evl)") (auto simp: half_less)

declare evidence_Hash.simps [simp del]

definition FillHeader :: "('pub, 'sig) crypto \<Rightarrow> coding \<Rightarrow> 'tx TendermintBlock \<Rightarrow> 'tx TendermintBlock" where
  "FillHeader C J b =
     (let h = b_Header b;
          h1 = (if hd_LastCommitHash h = [] then h\<lparr>hd_LastCommitHash := commit_Hash C J (b_LastCommit b)\<rparr> else h);
          h2 = (if hd_EvidenceHash h1 = [] then h1\<lparr>hd_EvidenceHash := evidence_Hash C J (b_Evidence b)\<rparr> else h1)
      in b\<lparr>b_Header := h2\<rparr>)"

definition header_Hash :: "('pub, 'sig) crypto \<Rightarrow> coding \<Rightarrow> Header \<Rightarrow> bytes" where
  "header_Hash C J h = (if hd_ValidatorsHash h = [] then [] else Ripemd160 C (json_header J h))"

definition block_Hash :: "('pub, 'sig) crypto \<Rightarrow> coding \<Rightarrow> 'tx TendermintBlock \<Rightarrow> bytes" where
  "block_Hash C J b = header_Hash C J (b_Header (FillHeader C J b))"

definition HashesTo :: "('pub, 'sig) crypto \<Rightarrow> coding \<Rightarrow> 'tx TendermintBlock option \<Rightarrow> bytes \<Rightarrow> bool" where
  "HashesTo C J b hash =
     (if length hash = 0 then False
      else case b of None \<Rightarrow> False | Some b \<Rightarrow> block_Hash C J b = hash)"

definition MakeBlock :: "('pub, 'sig) crypto \<Rightarrow> coding \<Rightarrow> int \<Rightarrow> int \<Rightarrow> int \<Rightarrow> 'tx list \<Rightarrow> commit \<Rightarrow> 'tx TendermintBlock" where
  "MakeBlock C J now h r txs c =
     FillHeader C J \<lparr>b_Header = \<lparr>hd_ChainID = [], hd_Height = h, hd_Round = r, hd_Time = now, hd_NumTxs = int (length txs),
         hd_LastBlockID = [], hd_TotalTxs = 0, hd_LastCommitHash = [], hd_ValidatorsHash = [], hd_ConsensusHash = [],
         hd_AppHash = [], hd_LastResultsHash = [], hd_EvidenceHash = []\<rparr>,
       b_Txs = txs, b_Evidence = [], b_LastCommit = c, b_ProposerAddr = []\<rparr>"

definition block_ValidateBasic :: "('pub, 'sig) crypto \<Rightarrow> coding \<Rightarrow> 'tx TendermintBlock \<Rightarrow> exec_err + int" where
  "block_ValidateBasic C J b =
     (let newTxs = int (length (b_Txs b)) in
      if hd_NumTxs (b_Header b) \<noteq> newTxs then Inl Err_NumTxs
      else if hd_LastCommitHash (b_Header b) \<noteq> commit_Hash C J (b_LastCommit b) then Inl Err_LastCommitHash
      else case (if hd_Height (b_Header b) \<noteq> 1 then commit_ValidateBasic (b_LastCommit b) else Inr ()) of
        Inl e \<Rightarrow> Inl (EErr e)
      | Inr _ \<Rightarrow>
          if hd_EvidenceHash (b_Header b) \<noteq> evidence_Hash C J (b_Evidence b) then Inl Err_EvidenceHash
          else Inr newTxs)"

text \<open>\<open>State.MakeBlock\<close>\<close>

definition state_MakeBlock ::
    "('pub, 'sig) crypto \<Rightarrow> coding \<Rightarrow> int \<Rightarrow> State \<Rightarrow> int \<Rightarrow> int \<Rightarrow> 'tx list \<Rightarrow> commit \<Rightarrow> exec_err + 'tx TendermintBlock" where
  "state_MakeBlock C J now s h r txs c =
     (let b = MakeBlock C J now h r txs c in
      case st_Validators s of
        None \<Rightarrow> Inl (EErr TmPanic)
      | Some vals \<Rightarrow>
          Inr (b\<lparr>b_Header := (b_Header b)\<lparr>hd_ChainID := st_ChainID s,
             hd_TotalTxs := add64 (st_LastBlockTotalTx s) (hd_NumTxs (b_Header b)), hd_LastBlockID := st_LastBlockID s,
             hd_ValidatorsHash := vs_Hash C J vals, hd_AppHash := st_AppHash s,
             hd_ConsensusHash := params_Hash C J (st_ConsensusParams s), hd_LastResultsHash := st_LastResultsHash s\<rparr>\<rparr>))"

text \<open>
  The state kept by \<open>CSStateDB\<close>, and the answer of the chain to \<open>QueryBlockInfoByHeight\<close>: an error, no
  block info, or one with or without a state.
\<close>

datatype block_info = QErr | QNil | QInfo "pb_State option"

record CSStateDB =
  db_state :: State
  db_query :: "int \<Rightarrow> block_info"

definition db_LoadValidators :: "CSStateDB \<Rightarrow> int \<Rightarrow> exec_err + ValidatorSet option" where
  "db_LoadValidators db h =
     (if h = 0 then Inr None
      else if add64 (st_LastBlockHeight (db_state db)) 1 = h then Inr (st_Validators (db_state db))
      else case db_query db h of
        QErr \<Rightarrow> Inl (EErr TmPanic)
      | QNil \<Rightarrow> Inl (EErr TmPanic)
      | QInfo None \<Rightarrow> Inl Err_NilState
      | QInfo (Some p) \<Rightarrow>
          (case LoadState p of
             Inl e \<Rightarrow> Inl e
           | Inr s \<Rightarrow> (case st_Validators s of None \<Rightarrow> Inl (EErr TmPanic) | Some S \<Rightarrow> Inr (Some S))))"

definition VerifyEvidence :: "('pub, 'sig) crypto \<Rightarrow> CSStateDB \<Rightarrow> State \<Rightarrow> DuplicateVoteEvidence \<Rightarrow> exec_err + unit" where
  "VerifyEvidence C db s ev =
     (if sub64 (st_LastBlockHeight s) (dve_Height ev) > cp_MaxAge (st_ConsensusParams s) then Inl Err_EvidenceTooOld
      else case dve_Verify C (st_ChainID s) ev of
        Inl e \<Rightarrow> Inl (EErr e)
      | Inr _ \<Rightarrow>
          (case db_LoadValidators db (dve_Height ev) of
             Inl e \<Rightarrow> Inl e
           | Inr None \<Rightarrow> Inl (EErr TmPanic)
           | Inr (Some valset) \<Rightarrow>
               (case vs_GetByAddress valset (dve_Address C ev) of
                  (_, None) \<Rightarrow> Inl Err_NotValidator
                | (valIdx, Some _) \<Rightarrow> if dve_Index ev \<noteq> valIdx then Inl Err_WrongIndex else Inr ())))"

fun verify_all :: "('pub, 'sig) crypto \<Rightarrow> coding \<Rightarrow> CSStateDB \<Rightarrow> State \<Rightarrow> (string \<times> bytes) list \<Rightarrow> exec_err + unit" where
  "verify_all C J db s [] = Inr ()"
| "verify_all C J db s (ev # evs) =
     (case EvidenceEnvelope2Evidence J ev of
        Inl e \<Rightarrow> Inl (EErr e)
      | Inr None \<Rightarrow> verify_all C J db s evs
      | Inr (Some d) \<Rightarrow> (case VerifyEvidence C db s d of Inl e \<Rightarrow> Inl e | Inr _ \<Rightarrow> verify_all C J db s evs))"

definition validate_commit :: "('pub, 'sig) crypto \<Rightarrow> State \<Rightarrow> 'tx TendermintBlock \<Rightarrow> exec_err + unit" where
  "validate_commit C s b =
     (if hd_Height (b_Header b) = 1 then
        if length (c_Precommits (b_LastCommit b)) \<noteq> 0 then Inl Err_FirstCommit else Inr ()
      else case st_LastValidators s of
        None \<Rightarrow> Inl (EErr TmPanic)
      | Some lastVals \<Rightarrow>
          if length (c_Precommits (b_LastCommit b)) \<noteq> vs_Size lastVals then Inl Err_CommitSize
          else case VerifyCommit C lastVals (st_ChainID s) (st_LastBlockID s) (sub64 (hd_Height (b_Header b)) 1) (b_LastCommit b) of
            Inl e \<Rightarrow> Inl (EErr e)
          | Inr _ \<Rightarrow> Inr ())"

definition validateBlock :: "('pub, 'sig) crypto \<Rightarrow> coding \<Rightarrow> CSStateDB \<Rightarrow> State \<Rightarrow> 'tx TendermintBlock \<Rightarrow> exec_err + unit" where
  "validateBlock C J db s b =
     (let h = b_Header b; newTxs = hd_NumTxs h in
      if hd_ChainID h \<noteq> st_ChainID s then Inl Err_WrongChainID
      else if hd_Height h \<noteq> add64 (st_LastBlockHeight s) 1 then Inl Err_WrongBlockHeight
      else if hd_LastBlockID h \<noteq> st_LastBlockID s then Inl Err_WrongLastBlockID
      else if hd_TotalTxs h \<noteq> add64 (st_LastBlockTotalTx s) newTxs then Inl Err_WrongTotalTxs
      else if hd_AppHash h \<noteq> st_AppHash s then Inl Err_WrongAppHash
      else if hd_ConsensusHash h \<noteq> params_Hash C J (st_ConsensusParams s) then Inl Err_WrongConsensusHash
      else if hd_LastResultsHash h \<noteq> st_LastResultsHash s then Inl Err_WrongResultsHash
      else case st_Validators s of
        None \<Rightarrow> Inl (EErr TmPanic)
      | Some vals \<Rightarrow>
          if hd_ValidatorsHash h \<noteq> vs_Hash C J vals then Inl Err_WrongValidatorsHash
          else case validate_commit C s b of
            Inl e \<Rightarrow> Inl e
          | Inr _ \<Rightarrow> verify_all C J db s (b_Evidence b))"

definition updateState :: "State \<Rightarrow> blockID \<Rightarrow> 'tx TendermintBlock \<Rightarrow> exec_err + State" where
  "updateState s bid b =
     (case st_Validators s of
        None \<Rightarrow> Inl (EErr TmPanic)
      | Some vals \<Rightarrow>
          (case IncrementAccum 1 vals of
             Inl e \<Rightarrow> Inl (EErr e)
           | Inr nextValSet \<Rightarrow>
               Inr \<lparr>st_ChainID = st_ChainID s, st_LastBlockHeight = hd_Height (b_Header b),
                    st_LastBlockTotalTx = add64 (st_LastBlockTotalTx s) (hd_NumTxs (b_Header b)),
                    st_LastBlockID = bid, st_LastBlockTime = hd_Time (b_Header b), st_Validators = Some nextValSet,
                    st_LastValidators = Some vals, st_LastHeightValidatorsChanged = st_LastHeightValidatorsChanged s,
                    st_ConsensusParams = st_ConsensusParams s,
                    st_LastHeightConsensusParamsChanged = st_LastHeightConsensusParamsChanged s,
                    st_LastResultsHash = [], st_AppHash = []\<rparr>))"

text \<open>\<open>ApplyBlock\<close> up to the notice to the evidence pool, with the state saved in \<open>CSStateDB\<close>.\<close>

definition ApplyBlock ::
    "('pub, 'sig) crypto \<Rightarrow> coding \<Rightarrow> CSStateDB \<Rightarrow> State \<Rightarrow> blockID \<Rightarrow> 'tx TendermintBlock \<Rightarrow> (exec_err + State) \<times> CSStateDB" where
  "ApplyBlock C J db s bid b =
     (case validateBlock C J db s b of
        Inl e \<Rightarrow> (Inl e, db)
      | Inr _ \<Rightarrow>
          (case updateState s bid b of
             Inl e \<Rightarrow> (Inl e, db)
           | Inr s' \<Rightarrow> (Inr s', db\<lparr>db_state := s'\<rparr>)))"

section \<open>Saved states\<close>

definition val_ok :: "validator \<Rightarrow> bool" where
  "val_ok v \<longleftrightarrow> val_Address v \<noteq> [] \<and> val_PubKey v \<noteq> []"

definition set_ok :: "ValidatorSet \<Rightarrow> bool" where
  "set_ok S \<longleftrightarrow> (\<forall>v \<in> set (vs_Validators S). val_ok v) \<and> (\<forall>p. vs_Proposer S = Some p \<longrightarrow> val_ok p)"

definition uncached :: "ValidatorSet \<Rightarrow> ValidatorSet" where
  "uncached S = S\<lparr>vs_totalVotingPower := 0\<rparr>"

definition in32 :: "int \<Rightarrow> bool" where
  "in32 i \<longleftrightarrow> - (2 ^ 31) \<le> i \<and> i < 2 ^ 31"

definition params_fit :: "ConsensusParams \<Rightarrow> bool" where
  "params_fit p \<longleftrightarrow> in32 (bs_MaxBytes (cp_BlockSize p)) \<and> in32 (bs_MaxTxs (cp_BlockSize p))
     \<and> in32 (ts_MaxBytes (cp_TxSize p)) \<and> in32 (cp_BlockPartSizeBytes p)"

lemma to_int32_id: "in32 i \<Longrightarrow> to_int32 i = i"
  by (simp add: in32_def to_int32_def)

lemma saveConsensusParams_id: "params_fit p \<Longrightarrow> saveConsensusParams p = p"
  by (simp add: saveConsensusParams_def params_fit_def to_int32_id)

lemma LoadValidators_ok:
  assumes "\<forall>v \<in> set vs. val_ok v"
  shows "LoadValidators vs = map Some vs"
  using assms by (auto simp: LoadValidators_def val_ok_def)

lemma load_save_set:
  assumes "set_ok S"
  shows "load_set (Some (save_set (Some S))) = Inr (Some (uncached S))"
proof -
  have "LoadValidators (vs_Validators S) = map Some (vs_Validators S)"
    using assms by (intro LoadValidators_ok) (simp add: set_ok_def)
  moreover have "LoadProposer (saveProposer (vs_Proposer S)) = vs_Proposer S"
    using assms by (cases "vs_Proposer S") (auto simp: saveProposer_def LoadProposer_def empty_validator_def set_ok_def val_ok_def)
  ultimately show ?thesis
    by (cases S) (auto simp: load_set_def save_set_def uncached_def comp_def)
qed

section \<open>The chain of states\<close>

text \<open>What identifies a validator: all but its accumulated power.\<close>

definition ident :: "validator \<Rightarrow> bytes \<times> bytes \<times> int" where
  "ident v = (val_Address v, val_PubKey v, val_VotingPower v)"

lemma ident_charge [simp]: "ident (charge_one t v) = ident v" "ident (bump k v) = ident v"
  by (simp_all add: ident_def charge_one_def bump_def)

lemma charge_ident [simp]: "map ident (charge t vs) = map ident vs"
  by (auto simp: charge_def split: sum.splits option.splits)

lemma ident_addresses: "map ident vs = map ident ws \<Longrightarrow> addresses vs = addresses ws"
proof -
  have "addresses xs = map fst (map ident xs)" for xs
    by (simp add: ident_def)
  then show "map ident vs = map ident ws \<Longrightarrow> addresses vs = addresses ws"
    by metis
qed

lemma IncrementAccum_one:
  assumes "wf_vs S" and "vs_Validators S \<noteq> []" and "IncrementAccum 1 S = Inr S'"
  shows "wf_vs S' \<and> map ident (vs_Validators S') = map ident (vs_Validators S)
    \<and> (\<exists>p. vs_Proposer S' = Some p \<and> ident p \<in> ident ` set (vs_Validators S))"
proof -
  let ?tot = "fst (TotalVotingPower S)"
  have dist: "distinct (addresses (vs_Validators S))"
    using assms(1) by (rule wf_vs_distinct)
  obtain p where v: "vs_Validators S' = charge ?tot (map (bump 1) (vs_Validators S))"
      and p: "findProposer_loop None (map (bump 1) (vs_Validators S)) = Inr (Some p)" "vs_Proposer S' = Some (charge_one ?tot p)"
    using IncrementAccum_ref [OF dist assms(2) refl, of 1] assms(3) by auto
  have ids: "map ident (vs_Validators S') = map ident (vs_Validators S)"
    by (simp add: v comp_def)
  have "best p (map (bump 1) (vs_Validators S))"
    using findProposer_best [of "map (bump 1) (vs_Validators S)"] dist assms(2) p(1) by (auto simp: comp_def findProposer_def)
  then obtain w where "w \<in> set (vs_Validators S)" "p = bump 1 w"
    by (auto simp: best_def)
  then show ?thesis
    using ids assms(1) ident_addresses [OF ids] p(2) by (auto simp: wf_vs_def)
qed

inductive chain :: "('pub, 'sig) crypto \<Rightarrow> coding \<Rightarrow> int \<Rightarrow> GenesisDoc \<Rightarrow> nat \<Rightarrow> State \<Rightarrow> bool"
  for C J now doc where
  ch_genesis: "MakeGenesisState C now doc = Inr s \<Longrightarrow> chain C J now doc 0 s"
| ch_block: "chain C J now doc n s \<Longrightarrow> fst (ApplyBlock C J db s bid (b :: bytes TendermintBlock)) = Inr s' \<Longrightarrow> chain C J now doc (Suc n) s'"

definition st_wf :: "validator list \<Rightarrow> nat \<Rightarrow> State \<Rightarrow> bool" where
  "st_wf vals n s \<longleftrightarrow> st_LastBlockHeight s = wrap64 (int n) \<and> (\<exists>V L p. st_Validators s = Some V \<and> st_LastValidators s = Some L
     \<and> wf_vs V \<and> map ident (vs_Validators V) = map ident (sort_key val_Address vals)
     \<and> vs_Proposer V = Some p \<and> ident p \<in> ident ` set vals
     \<and> (if n = 0 then vs_Validators L = [] else wf_vs L \<and> map ident (vs_Validators L) = map ident (sort_key val_Address vals)))"

lemma sort_key_Nil: "sort_key f xs = [] \<longleftrightarrow> xs = []"
  using length_sort [of f xs] by (metis length_0_conv)

lemma genesis_wf:
  assumes "MakeGenesisState C now doc = Inr s" and "genesis_validators C (gd_Validators doc) = Inr vals"
    and "distinct (addresses vals)"
  shows "st_wf vals 0 s \<and> vals \<noteq> []"
proof -
  obtain d where d: "ValidateAndComplete now doc = Inr d"
    using assms(1) by (cases "ValidateAndComplete now doc") (auto simp: MakeGenesisState_def)
  have dv: "gd_Validators d = gd_Validators doc" "gd_Validators doc \<noteq> []"
    using d by (auto simp: ValidateAndComplete_def Let_def split: if_splits option.splits sum.splits)
  have ne: "vals \<noteq> []"
    using assms(2) dv(2) by (cases "gd_Validators doc") (auto split: option.splits sum.splits)
  let ?S = "\<lparr>vs_Validators = sort_key val_Address vals, vs_Proposer = None, vs_totalVotingPower = 0\<rparr>"
  have wf: "wf_vs ?S"
    using assms(3) by (simp add: wf_vs_def strict_sorted_iff distinct_map inj_on_def sorted_sort_key)
  obtain V where V: "IncrementAccum 1 ?S = Inr V" and s: "st_Validators s = Some V" "st_LastBlockHeight s = 0"
      "st_LastValidators s = Some \<lparr>vs_Validators = [], vs_Proposer = None, vs_totalVotingPower = 0\<rparr>"
    using assms(1,2) d dv(1) by (auto simp: MakeGenesisState_def NewValidatorSet_def split: sum.splits)
  have "vs_Validators ?S \<noteq> []"
    using ne by (simp add: sort_key_Nil)
  from IncrementAccum_one [OF wf this V] show ?thesis
    using s ne by (auto simp: st_wf_def wrap64_def)
qed

lemma apply_inv:
  assumes "fst (ApplyBlock C J db s bid b) = Inr s'"
  shows "validateBlock C J db s b = Inr ()" and "updateState s bid b = Inr s'"
  using assms by (auto simp: ApplyBlock_def split: sum.splits)

lemma validate_inv:
  assumes "validateBlock C J db s b = Inr ()"
  shows "hd_Height (b_Header b) = add64 (st_LastBlockHeight s) 1" and "validate_commit C s b = Inr ()"
    and "verify_all C J db s (b_Evidence b) = Inr ()"
  using assms by (auto simp: validateBlock_def Let_def split: if_splits option.splits sum.splits)

lemma step_wf:
  assumes wf: "st_wf vals n s" and ne: "vals \<noteq> []" and app: "fst (ApplyBlock C J db s bid b) = Inr s'"
  shows "st_wf vals (Suc n) s'"
proof -
  obtain V where V: "st_Validators s = Some V" "wf_vs V" "map ident (vs_Validators V) = map ident (sort_key val_Address vals)"
    using wf by (auto simp: st_wf_def)
  have V0: "vs_Validators V \<noteq> []"
    using arg_cong [OF V(3), of length] ne by (auto simp: sort_key_Nil simp flip: length_greater_0_conv)
  obtain N where N: "IncrementAccum 1 V = Inr N" and s': "st_Validators s' = Some N" "st_LastValidators s' = Some V"
      "st_LastBlockHeight s' = hd_Height (b_Header b)"
    using apply_inv(2) [OF app] V(1) by (auto simp: updateState_def split: sum.splits)
  have "add64 (st_LastBlockHeight s) 1 = wrap64 (int (Suc n))"
    using wf wrap64_cong_add [of "wrap64 (int n)" "int n" 1 1] by (simp add: st_wf_def add64_def add.commute)
  then have h: "st_LastBlockHeight s' = wrap64 (int (Suc n))"
    using s'(3) validate_inv(1) [OF apply_inv(1) [OF app]] by simp
  have "ident ` set (vs_Validators V) = ident ` set vals"
    using arg_cong [OF V(3), of set] by simp
  then show ?thesis
    using IncrementAccum_one [OF V(2) V0 N] V h s' by (auto simp: st_wf_def)
qed

lemma chain_wf:
  assumes "chain C J now doc n s" and "genesis_validators C (gd_Validators doc) = Inr vals" and "distinct (addresses vals)"
  shows "st_wf vals n s \<and> vals \<noteq> []"
  using assms(1)
proof (induction rule: chain.induct)
  case (ch_genesis s)
  then show ?case
    using genesis_wf assms(2,3) by blast
next
  case (ch_block n s db bid b s')
  then show ?case
    using step_wf by blast
qed

end
