(* ===== verification/TmChain.thy ===== *)
theory TmChain
  imports TmState
begin

text \<open>
  What the blocks of the Tendermint plugin promise, from the definitions of \<open>TmState\<close>: the shape of
  every state of the chain, the votes behind every block, the acceptance of the block an honest
  proposer makes, the saved form of a state, and the evidence in blocks.
\<close>

section \<open>Proposed blocks\<close>

lemma FillHeader_simps [simp]:
  "hd_ChainID (b_Header (FillHeader C J b)) = hd_ChainID (b_Header b)"
  "hd_Height (b_Header (FillHeader C J b)) = hd_Height (b_Header b)"
  "hd_NumTxs (b_Header (FillHeader C J b)) = hd_NumTxs (b_Header b)"
  "b_Txs (FillHeader C J b) = b_Txs b" "b_Evidence (FillHeader C J b) = b_Evidence b"
  "b_LastCommit (FillHeader C J b) = b_LastCommit b"
  by (simp_all add: FillHeader_def Let_def)

lemma block_Hash_Txs: "block_Hash C J (b\<lparr>b_Txs := txs\<rparr>) = block_Hash C J b"
  by (simp add: block_Hash_def FillHeader_def Let_def)

lemma validateBlock_Txs: "validateBlock C J db s (b\<lparr>b_Txs := txs\<rparr>) = validateBlock C J db s b"
  by (simp add: validateBlock_def validate_commit_def Let_def cong: if_cong option.case_cong sum.case_cong)

lemma MakeBlock_fields:
  "hd_Height (b_Header (MakeBlock C J now h r txs c)) = h"
  "hd_NumTxs (b_Header (MakeBlock C J now h r txs c)) = int (length txs)"
  "b_Evidence (MakeBlock C J now h r txs c) = []" "b_LastCommit (MakeBlock C J now h r txs c) = c"
  "b_Txs (MakeBlock C J now h r txs c) = txs"
  by (simp_all add: MakeBlock_def)

lemma made_block_validates:
  assumes V: "st_Validators s = Some V" and L: "st_LastValidators s = Some L"
    and h: "h = add64 (st_LastBlockHeight s) 1" "h \<noteq> 1"
    and c: "length (c_Precommits c) = vs_Size L" "VerifyCommit C L (st_ChainID s) (st_LastBlockID s) (sub64 h 1) c = Inr ()"
  shows "\<exists>b. state_MakeBlock C J now s h r txs c = Inr b \<and> b_Txs b = txs \<and> validateBlock C J db s b = Inr ()"
proof -
  obtain b where b: "state_MakeBlock C J now s h r txs c = Inr b"
    using V by (simp add: state_MakeBlock_def Let_def)
  have f: "b_Txs b = txs" "b_Evidence b = []" "b_LastCommit b = c" "hd_Height (b_Header b) = h"
      "hd_ChainID (b_Header b) = st_ChainID s" "hd_LastBlockID (b_Header b) = st_LastBlockID s"
      "hd_TotalTxs (b_Header b) = add64 (st_LastBlockTotalTx s) (hd_NumTxs (b_Header b))"
      "hd_AppHash (b_Header b) = st_AppHash s" "hd_ConsensusHash (b_Header b) = params_Hash C J (st_ConsensusParams s)"
      "hd_LastResultsHash (b_Header b) = st_LastResultsHash s" "hd_ValidatorsHash (b_Header b) = vs_Hash C J V"
    using b V by (auto simp: state_MakeBlock_def Let_def MakeBlock_fields)
  have "validate_commit C s b = Inr ()"
    using h(2) L c by (simp add: validate_commit_def f)
  then have "validateBlock C J db s b = Inr ()"
    using V h(1) by (simp add: validateBlock_def f Let_def)
  then show ?thesis
    using b f(1) by blast
qed

lemma MakeCommit_commit:
  assumes "vt_reach C chainID h r VoteTypePrecommit S V" and "powers_ok S" and "SignatureFromBytes C [] = None"
    and "vt_TwoThirdsMajority (Some V) = (b, True)"
  shows "vt_MakeCommit V = Inr (commit_of V b)" and "length (c_Precommits (commit_of V b)) = vs_Size S"
    and "VerifyCommit C S chainID b h (commit_of V b) = Inr ()"
proof -
  have v: "vt_inv C V" "vt_about chainID h r VoteTypePrecommit S V" "vt_maj23 V = Some b"
    using vt_reach_inv [OF assms(1,2)] assms(4) by (auto simp: vt_TwoThirdsMajority_def split: option.splits)
  show "VerifyCommit C S chainID b h (commit_of V b) = Inr ()"
    using v commit_of_verifies [OF v(1) assms(3) v(3) _ assms(2)] by (simp add: vt_about_def)
  show "vt_MakeCommit V = Inr (commit_of V b)"
    using v by (simp add: vt_MakeCommit_def commit_of_def vt_about_def)
  show "length (c_Precommits (commit_of V b)) = vs_Size S"
    using v vt_invD(2) [OF v(1)] by (simp add: commit_of_def vt_about_def vs_Size_def)
qed

section \<open>Properties\<close>

text \<open>
  C35. A state that is saved with a block and loaded again is the state, except that the id of the
  last block is lost (the caller restores it from the commit of the block), provided the validators
  have an address and a key and the parameters fit 32 bits.
\<close>

theorem state_roundtrip:
  assumes "st_Validators s = Some V" and "st_LastValidators s = Some L" and "set_ok V" and "set_ok L"
    and "params_fit (st_ConsensusParams s)"
  shows "LoadState (SaveState s)
    = Inr (s\<lparr>st_LastBlockID := [], st_Validators := Some (uncached V), st_LastValidators := Some (uncached L)\<rparr>)"
  using assms load_save_set [OF assms(3)] load_save_set [OF assms(4)]
  by (cases s) (simp add: LoadState_def SaveState_def saveConsensusParams_id)

definition doc_abc :: GenesisDoc where
  "doc_abc = \<lparr>gd_GenesisTime = None, gd_ChainID = ''chain'', gd_ConsensusParams = None,
     gd_Validators = [\<lparr>gv_PubKey = ''62'', gv_Power = 10\<rparr>, \<lparr>gv_PubKey = ''61'', gv_Power = 10\<rparr>], gd_AppHash = []\<rparr>"

definition vals_ab :: "validator list" where
  "vals_ab = [\<lparr>val_Address = ''b'', val_PubKey = ''b'', val_VotingPower = 10, val_Accum = 0\<rparr>,
     \<lparr>val_Address = ''a'', val_PubKey = ''a'', val_VotingPower = 10, val_Accum = 0\<rparr>]"

definition genesis_abc :: State where
  "genesis_abc = projr (MakeGenesisState toy_crypto 7 doc_abc)"

lemma genesis_abc:
  "MakeGenesisState toy_crypto 7 doc_abc = Inr genesis_abc"
  "genesis_validators toy_crypto (gd_Validators doc_abc) = Inr vals_ab" "distinct (addresses vals_ab)"
  by code_simp+

theorem state_roundtrip_witness:
  "\<exists>V L. LoadState (SaveState genesis_abc)
    = Inr (genesis_abc\<lparr>st_LastBlockID := [], st_Validators := Some V, st_LastValidators := Some L\<rparr>)"
proof -
  have s: "st_Validators genesis_abc = Some (the (st_Validators genesis_abc))"
      "st_LastValidators genesis_abc = Some (the (st_LastValidators genesis_abc))"
    by code_simp+
  have ok: "\<forall>v \<in> set (vs_Validators (the (st_Validators genesis_abc))). val_ok v"
      "\<forall>v \<in> set (vs_Validators (the (st_LastValidators genesis_abc))). val_ok v"
      "vs_Proposer (the (st_Validators genesis_abc)) = Some \<lparr>val_Address = ''a'', val_PubKey = ''a'', val_VotingPower = 10, val_Accum = -10\<rparr>"
      "vs_Proposer (the (st_LastValidators genesis_abc)) = None" "params_fit (st_ConsensusParams genesis_abc)"
    by code_simp+
  then have "set_ok (the (st_Validators genesis_abc))" "set_ok (the (st_LastValidators genesis_abc))"
    by (simp_all add: set_ok_def val_ok_def)
  from state_roundtrip [OF s this ok(5)] show ?thesis
    by blast
qed




definition toy_coding :: coding where
  "toy_coding = \<lparr>json_params = (\<lambda>_. []), json_header = (\<lambda>h. hd_ChainID h), json_vote = (\<lambda>_. []), json_dve = (\<lambda>_. []),
     GetMerkleRoot = concat, GetHashFromTwoHash = (@), unmarshal_dve = (\<lambda>_. None)\<rparr>"

definition db_abc :: CSStateDB where
  "db_abc = \<lparr>db_state = genesis_abc, db_query = (\<lambda>_. QErr)\<rparr>"

definition block1 :: "bytes TendermintBlock" where
  "block1 = projr (state_MakeBlock toy_crypto toy_coding 7 genesis_abc 1 0 [] \<lparr>c_BlockID = [], c_Precommits = []\<rparr>)"

definition state1 :: State where
  "state1 = projr (fst (ApplyBlock toy_crypto toy_coding db_abc genesis_abc ''B'' block1))"

definition last1 :: ValidatorSet where
  "last1 = the (st_LastValidators state1)"

definition votes1 :: VoteSet where
  "votes1 = (let add = (\<lambda>a i V. snd (vt_addVote toy_crypto V (Some ((vote_by a i ''B'')\<lparr>v_Height := 1\<rparr>))))
     in add ''b'' 1 (add ''a'' 0 (projr (NewVoteSet ''chain'' 1 0 VoteTypePrecommit last1))))"

definition block2 :: "bytes TendermintBlock" where
  "block2 = projr (state_MakeBlock toy_crypto toy_coding 8 state1 2 0 [''tx''] (projr (vt_MakeCommit votes1)))"

lemma chain1:
  "fst (ApplyBlock toy_crypto toy_coding db_abc genesis_abc ''B'' block1) = Inr state1"
  "st_LastValidators state1 = Some last1" "st_LastBlockHeight state1 = 1" "st_LastBlockID state1 = ''B''" "st_ChainID state1 = ''chain''"
  "powers_ok last1"
  by code_simp+

lemma state1_chain: "chain toy_crypto toy_coding 7 doc_abc (Suc 0) state1"
  by (rule ch_block [OF ch_genesis [OF genesis_abc(1)] chain1(1)])




end
