(* ===== verification/EvidencePool.thy ===== *)
theory EvidencePool
  imports TmChain PrivValidator "HOL-Library.AList" "HOL-Library.Sublist"
begin

text \<open>
  The evidence the Tendermint plugin keeps: \<open>plugin/consensus/tendermint/evidence.go\<close>. The database is
  an association list from keys to values; a value is the struct whose JSON text is stored. The only
  kind of evidence is the duplicate vote. The hash of evidence is that of \<open>SimpleHashFromBinary\<close>.
\<close>

section \<open>Definitions\<close>

record EvidenceInfo =
  ei_Committed :: bool
  ei_Priority :: int
  ei_Kind :: string
  ei_Data :: "DuplicateVoteEvidence option"

type_synonym evidence_db = "(string \<times> EvidenceInfo) list"

definition zero_info :: EvidenceInfo where
  "zero_info = \<lparr>ei_Committed = False, ei_Priority = 0, ei_Kind = [], ei_Data = None\<rparr>"

definition dve_Hash :: "('pub, 'sig) crypto \<Rightarrow> coding \<Rightarrow> DuplicateVoteEvidence \<Rightarrow> bytes" where
  "dve_Hash C J ev = Ripemd160 C (json_dve J ev)"

text \<open>\<open>fmt.Sprintf("%0.16X", h)\<close>: the sign and at least sixteen digits, as many as 64 bits need.\<close>

definition bE :: "int \<Rightarrow> string" where
  "bE h = (if h < 0 then ''-'' else []) @
     map (\<lambda>k. TmTypes.hex_digit (nat (\<bar>h\<bar> div 16 ^ k mod 16))) [15, 14, 13, 12, 11, 10, 9, 8, 7, 6, 5, 4, 3, 2, 1, 0]"

definition baseKeyLookup :: string where "baseKeyLookup = ''evidence-lookup''"
definition baseKeyOutqueue :: string where "baseKeyOutqueue = ''evidence-outqueue''"
definition baseKeyPending :: string where "baseKeyPending = ''evidence-pending''"

definition keyLookupFromHeightAndHash :: "int \<Rightarrow> bytes \<Rightarrow> string" where
  "keyLookupFromHeightAndHash h hash = baseKeyLookup @ ''/'' @ bE h @ ''/'' @ hex_encode hash"

definition keyLookup :: "('pub, 'sig) crypto \<Rightarrow> coding \<Rightarrow> DuplicateVoteEvidence \<Rightarrow> string" where
  "keyLookup C J ev = keyLookupFromHeightAndHash (dve_Height ev) (dve_Hash C J ev)"

definition keyOutqueue :: "('pub, 'sig) crypto \<Rightarrow> coding \<Rightarrow> DuplicateVoteEvidence \<Rightarrow> int \<Rightarrow> string" where
  "keyOutqueue C J ev priority =
     baseKeyOutqueue @ ''/'' @ bE priority @ ''/'' @ bE (dve_Height ev) @ ''/'' @ hex_encode (dve_Hash C J ev)"

definition keyPending :: "('pub, 'sig) crypto \<Rightarrow> coding \<Rightarrow> DuplicateVoteEvidence \<Rightarrow> string" where
  "keyPending C J ev = baseKeyPending @ ''/'' @ bE (dve_Height ev) @ ''/'' @ hex_encode (dve_Hash C J ev)"

text \<open>
  \<open>EvidenceFromInfoBytes\<close> looks the kind up in the map of types and asserts that the type is evidence,
  which fails: the map that holds evidence is \<open>EvidenceType2Obj\<close>. An unknown kind is an error.
\<close>

definition EvidenceFromInfoBytes :: "EvidenceInfo \<Rightarrow> tm_err + DuplicateVoteEvidence option" where
  "EvidenceFromInfoBytes ei = (if ei_Kind ei = ''DuplicateVote'' then Inl TmPanic else Inr None)"

fun list_infos :: "EvidenceInfo list \<Rightarrow> tm_err + DuplicateVoteEvidence list" where
  "list_infos [] = Inr []"
| "list_infos (ei # eis) =
     (case EvidenceFromInfoBytes ei of
        Inl e \<Rightarrow> Inl e
      | Inr evo \<Rightarrow> (case list_infos eis of Inl e \<Rightarrow> Inl e | Inr evs \<Rightarrow> Inr (case evo of None \<Rightarrow> evs | Some ev \<Rightarrow> ev # evs)))"

text \<open>The iterator runs over the keys with the prefix in their order.\<close>

definition ListEvidence :: "evidence_db \<Rightarrow> string \<Rightarrow> tm_err + DuplicateVoteEvidence list" where
  "ListEvidence db pre = list_infos (map snd (sort_key fst (filter (\<lambda>(k, _). prefix pre k) (AList.clearjunk db))))"

definition store_PendingEvidence :: "evidence_db \<Rightarrow> tm_err + DuplicateVoteEvidence list" where
  "store_PendingEvidence db = ListEvidence db baseKeyPending"

definition store_PriorityEvidence :: "evidence_db \<Rightarrow> tm_err + DuplicateVoteEvidence list" where
  "store_PriorityEvidence db = (case ListEvidence db baseKeyOutqueue of Inl e \<Rightarrow> Inl e | Inr l \<Rightarrow> Inr (rev l))"

definition GetEvidence :: "evidence_db \<Rightarrow> int \<Rightarrow> bytes \<Rightarrow> EvidenceInfo option" where
  "GetEvidence db h hash = map_of db (keyLookupFromHeightAndHash h hash)"

definition EvidenceToInfoBytes :: "DuplicateVoteEvidence \<Rightarrow> int \<Rightarrow> EvidenceInfo" where
  "EvidenceToInfoBytes ev priority =
     \<lparr>ei_Committed = False, ei_Priority = priority, ei_Kind = ''DuplicateVote'', ei_Data = Some ev\<rparr>"

definition AddNewEvidence ::
    "('pub, 'sig) crypto \<Rightarrow> coding \<Rightarrow> evidence_db \<Rightarrow> DuplicateVoteEvidence \<Rightarrow> int \<Rightarrow> bool \<times> evidence_db" where
  "AddNewEvidence C J db ev priority =
     (if (case GetEvidence db (dve_Height ev) (dve_Hash C J ev) of None \<Rightarrow> False | Some ei \<Rightarrow> length (ei_Kind ei) = 0)
      then (False, db)
      else let eiBytes = EvidenceToInfoBytes ev priority in
        (True, AList.update (keyLookup C J ev) eiBytes
          (AList.update (keyPending C J ev) eiBytes (AList.update (keyOutqueue C J ev priority) eiBytes db))))"

definition getEvidenceInfo :: "('pub, 'sig) crypto \<Rightarrow> coding \<Rightarrow> evidence_db \<Rightarrow> DuplicateVoteEvidence \<Rightarrow> EvidenceInfo" where
  "getEvidenceInfo C J db ev = (case map_of db (keyLookup C J ev) of None \<Rightarrow> zero_info | Some ei \<Rightarrow> ei)"

definition MarkEvidenceAsBroadcasted :: "('pub, 'sig) crypto \<Rightarrow> coding \<Rightarrow> evidence_db \<Rightarrow> DuplicateVoteEvidence \<Rightarrow> evidence_db" where
  "MarkEvidenceAsBroadcasted C J db ev =
     AList.delete (keyOutqueue C J ev (ei_Priority (getEvidenceInfo C J db ev))) db"

definition MarkEvidenceAsCommitted :: "('pub, 'sig) crypto \<Rightarrow> coding \<Rightarrow> evidence_db \<Rightarrow> DuplicateVoteEvidence \<Rightarrow> evidence_db" where
  "MarkEvidenceAsCommitted C J db ev =
     (let db1 = AList.delete (keyPending C J ev) (MarkEvidenceAsBroadcasted C J db ev) in
      AList.update (keyLookup C J ev) ((getEvidenceInfo C J db1 ev)\<lparr>ei_Committed := True\<rparr>) db1)"

text \<open>The pool. \<open>ep_chan\<close> is what was sent on the channel of new evidence.\<close>

record EvidencePool =
  ep_store :: evidence_db
  ep_stateDB :: CSStateDB
  ep_state :: State
  ep_chan :: "DuplicateVoteEvidence list"

definition pool_AddEvidence ::
    "('pub, 'sig) crypto \<Rightarrow> coding \<Rightarrow> EvidencePool \<Rightarrow> DuplicateVoteEvidence \<Rightarrow> (exec_err + unit) \<times> EvidencePool" where
  "pool_AddEvidence C J P ev =
     (case VerifyEvidence C (ep_stateDB P) (ep_state P) ev of
        Inl e \<Rightarrow> (Inl e, P)
      | Inr _ \<Rightarrow>
          (case db_LoadValidators (ep_stateDB P) (dve_Height ev) of
             Inr (Some valset) \<Rightarrow>
               (case vs_GetByAddress valset (dve_Address C ev) of
                  (_, None) \<Rightarrow> (Inl (EErr TmPanic), P)
                | (_, Some val) \<Rightarrow>
                    (case AddNewEvidence C J (ep_store P) ev (val_VotingPower val) of
                       (added, db) \<Rightarrow>
                         if \<not> added then (Inr (), P\<lparr>ep_store := db\<rparr>)
                         else (Inr (), P\<lparr>ep_store := db, ep_chan := ep_chan P @ [ev]\<rparr>)))
           | _ \<Rightarrow> (Inl (EErr TmPanic), P)))"

fun pool_MarkCommitted ::
    "('pub, 'sig) crypto \<Rightarrow> coding \<Rightarrow> evidence_db \<Rightarrow> (string \<times> bytes) list \<Rightarrow> exec_err + evidence_db" where
  "pool_MarkCommitted C J db [] = Inr db"
| "pool_MarkCommitted C J db (env # envs) =
     (case EvidenceEnvelope2Evidence J env of
        Inl e \<Rightarrow> Inl (EErr e)
      | Inr None \<Rightarrow> pool_MarkCommitted C J db envs
      | Inr (Some ev) \<Rightarrow> pool_MarkCommitted C J (MarkEvidenceAsCommitted C J db ev) envs)"

definition pool_Update :: "('pub, 'sig) crypto \<Rightarrow> coding \<Rightarrow> EvidencePool \<Rightarrow> 'tx TendermintBlock \<Rightarrow> exec_err + EvidencePool" where
  "pool_Update C J P b =
     (let s = db_state (ep_stateDB P) in
      if st_LastBlockHeight s \<noteq> hd_Height (b_Header b) then Inl (EErr TmPanic)
      else case pool_MarkCommitted C J (ep_store P) (b_Evidence b) of
        Inl e \<Rightarrow> Inl e
      | Inr db \<Rightarrow> Inr (P\<lparr>ep_state := s, ep_store := db\<rparr>))"

text \<open>The whole of \<open>ApplyBlock\<close>: the state is saved, then the pool is told. The pool shares the state store.\<close>

definition exec_ApplyBlock ::
    "('pub, 'sig) crypto \<Rightarrow> coding \<Rightarrow> EvidencePool \<Rightarrow> State \<Rightarrow> blockID \<Rightarrow> 'tx TendermintBlock \<Rightarrow> (exec_err + State) \<times> EvidencePool" where
  "exec_ApplyBlock C J P s bid b =
     (case ApplyBlock C J (ep_stateDB P) s bid b of
        (Inl e, db) \<Rightarrow> (Inl e, P\<lparr>ep_stateDB := db\<rparr>)
      | (Inr s', db) \<Rightarrow>
          (case pool_Update C J (P\<lparr>ep_stateDB := db\<rparr>) b of
             Inl e \<Rightarrow> (Inl e, P\<lparr>ep_stateDB := db\<rparr>)
           | Inr P' \<Rightarrow> (Inr s', P')))"

section \<open>The store\<close>

lemma keys_differ [simp]:
  "keyLookup C J ev \<noteq> keyPending C J ev'" "keyPending C J ev \<noteq> keyLookup C J ev'"
  "keyLookup C J ev \<noteq> keyOutqueue C J ev' p" "keyOutqueue C J ev p \<noteq> keyLookup C J ev'"
  "keyPending C J ev \<noteq> keyOutqueue C J ev' p" "keyOutqueue C J ev p \<noteq> keyPending C J ev'"
  by (simp_all add: keyLookup_def keyLookupFromHeightAndHash_def keyPending_def keyOutqueue_def
      baseKeyLookup_def baseKeyPending_def baseKeyOutqueue_def)

lemma list_infos_panics: "ei \<in> set eis \<Longrightarrow> ei_Kind ei = ''DuplicateVote'' \<Longrightarrow> list_infos eis = Inl TmPanic"
proof (induction eis)
  case (Cons a eis)
  then show ?case
    by (cases "ei = a") (auto simp: EvidenceFromInfoBytes_def)
qed simp

lemma ListEvidence_panics:
  assumes "map_of db k = Some ei" and "prefix pre k" and "ei_Kind ei = ''DuplicateVote''"
  shows "ListEvidence db pre = Inl TmPanic"
proof -
  have "(k, ei) \<in> set (AList.clearjunk db)"
    using assms(1) by (intro map_of_SomeD) (simp add: map_of_clearjunk)
  then have "ei \<in> set (map snd (sort_key fst (filter (\<lambda>(k, _). prefix pre k) (AList.clearjunk db))))"
    using assms(2) by force
  then show ?thesis
    using assms(3) unfolding ListEvidence_def by (rule list_infos_panics)
qed

lemma AddNew_stored:
  assumes "AddNewEvidence C J db ev p = (True, db')"
  shows "map_of db' (keyLookup C J ev) = Some (EvidenceToInfoBytes ev p)"
    and "map_of db' (keyPending C J ev) = Some (EvidenceToInfoBytes ev p)"
    and "map_of db' (keyOutqueue C J ev p) = Some (EvidenceToInfoBytes ev p)"
  using assms by (auto simp: AddNewEvidence_def Let_def update_conv' split: if_splits option.splits)

lemma AddNew_pending_panics:
  assumes "AddNewEvidence C J db ev p = (True, db')"
  shows "store_PendingEvidence db' = Inl TmPanic"
  unfolding store_PendingEvidence_def
  by (rule ListEvidence_panics [OF AddNew_stored(2) [OF assms]]) (simp_all add: keyPending_def EvidenceToInfoBytes_def)

lemma AddNew_known:
  assumes "map_of db (keyLookup C J ev) = Some ei" and "ei_Kind ei \<noteq> []"
  shows "fst (AddNewEvidence C J db ev p)"
  using assms by (simp add: AddNewEvidence_def GetEvidence_def keyLookup_def Let_def)

lemma Committed_stored:
  assumes "map_of db (keyLookup C J ev) = Some ei"
  shows "map_of (MarkEvidenceAsCommitted C J db ev) (keyLookup C J ev) = Some (ei\<lparr>ei_Committed := True\<rparr>)"
    and "map_of (MarkEvidenceAsCommitted C J db ev) (keyPending C J ev) = None"
    and "map_of (MarkEvidenceAsCommitted C J db ev) (keyOutqueue C J ev (ei_Priority ei)) = None"
  using assms by (simp_all add: MarkEvidenceAsCommitted_def MarkEvidenceAsBroadcasted_def getEvidenceInfo_def Let_def
      update_conv' delete_conv')

text \<open>
  After a valid block the notice to the pool does not fail: the heights agree, and the evidence could be
  decoded, as it was verified.
\<close>

lemma verified_decodes:
  assumes "verify_all C J db s envs = Inr ()"
  shows "\<exists>db'. pool_MarkCommitted C J st envs = Inr db'"
  using assms by (induction envs arbitrary: st) (auto split: sum.splits option.splits)

lemma exec_ApplyBlock_pool:
  assumes "ApplyBlock C J (ep_stateDB P) s bid b = (Inr s', db)"
  shows "\<exists>P'. exec_ApplyBlock C J P s bid b = (Inr s', P') \<and> ep_state P' = s'"
proof -
  have a: "fst (ApplyBlock C J (ep_stateDB P) s bid b) = Inr s'"
    using assms by simp
  have "db_state db = s'" "st_LastBlockHeight s' = hd_Height (b_Header b)"
    using assms apply_inv(2) [OF a] by (auto simp: ApplyBlock_def updateState_def split: sum.splits option.splits)
  moreover obtain st where "pool_MarkCommitted C J (ep_store P) (b_Evidence b) = Inr st"
    using verified_decodes [OF validate_inv(3) [OF apply_inv(1) [OF a]]] by blast
  ultimately show ?thesis
    using assms by (simp add: exec_ApplyBlock_def pool_Update_def Let_def)
qed

section \<open>Properties\<close>

text \<open>
  C38. Evidence makes nodes panic: whoever has a key, a validator or not, can sign two votes of height
  zero so that checking them as evidence panics in every state of the chain whose height is at most the
  maximal age of evidence. \<open>LoadValidators\<close> returns a nil set for height zero without an error, and
  \<open>VerifyEvidence\<close> uses it.
\<close>

theorem evidence_height_zero_panics:
  assumes "signs_for C signer pub" and "PubKeyFromBytes C (pub_Bytes C pub) = Some pub"
  shows "\<exists>ev. \<forall>db s. st_ChainID s = chainID \<longrightarrow> 0 \<le> st_LastBlockHeight s \<longrightarrow> st_LastBlockHeight s \<le> MaxInt64
    \<longrightarrow> st_LastBlockHeight s \<le> cp_MaxAge (st_ConsensusParams s) \<longrightarrow> VerifyEvidence C db s ev = Inl (EErr TmPanic)"
proof -
  define v where "v b = empty_vote\<lparr>v_Type := VoteTypePrevote, v_BlockID := b\<rparr>" for b
  define sig where "sig b = the (signer (SignBytes_vote chainID (v b)))" for b
  have sig: "SignatureFromBytes C (sig_Bytes C (sig b)) = Some (sig b)
      \<and> VerifyBytes C pub (SignBytes_vote chainID (v b)) (sig b)" for b
    using assms(1) [unfolded signs_for_def, rule_format, of "SignBytes_vote chainID (v b)"] by (auto simp: sig_def)
  define ev where "ev = \<lparr>dve_PubKey = hex_encode (pub_Bytes C pub),
    dve_VoteA = (v ''A'')\<lparr>v_Signature := sig_Bytes C (sig ''A'')\<rparr>, dve_VoteB = (v ''B'')\<lparr>v_Signature := sig_Bytes C (sig ''B'')\<rparr>\<rparr>"
  have "PubKeyFromString C (hex_encode (pub_Bytes C pub)) = Some pub"
    using assms(2) by (simp add: PubKeyFromString_def hex_decode_encode)
  then have verify: "dve_Verify C chainID ev = Inr ()"
    using sig by (simp add: ev_def dve_Verify_def bid_Equals_def v_def Let_def)
  have "dve_Height ev = 0"
    by (simp add: ev_def dve_Height_def v_def empty_vote_def)
  then have "VerifyEvidence C db s ev = Inl (EErr TmPanic)"
    if "st_ChainID s = chainID" "0 \<le> st_LastBlockHeight s" "st_LastBlockHeight s \<le> MaxInt64"
      "st_LastBlockHeight s \<le> cp_MaxAge (st_ConsensusParams s)" for db s
    using that verify by (simp add: VerifyEvidence_def db_LoadValidators_def sub64_nonneg MaxInt64_def)
  then show ?thesis
    by blast
qed

theorem evidence_height_zero_panics_witness: "\<exists>ev. VerifyEvidence toy_crypto db_abc state1 ev = Inl (EErr TmPanic)"
proof -
  have "PubKeyFromBytes toy_crypto (pub_Bytes toy_crypto ''a'') = Some ''a''" "cp_MaxAge (st_ConsensusParams state1) = 100000"
    by code_simp+
  with evidence_height_zero_panics [OF pv_a_signs, of "''chain''"] obtain ev where
    "\<forall>db s. st_ChainID s = ''chain'' \<longrightarrow> 0 \<le> st_LastBlockHeight s \<longrightarrow> st_LastBlockHeight s \<le> MaxInt64
      \<longrightarrow> st_LastBlockHeight s \<le> cp_MaxAge (st_ConsensusParams s) \<longrightarrow> VerifyEvidence toy_crypto db s ev = Inl (EErr TmPanic)"
    by blast
  from this [rule_format, of state1 db_abc] show ?thesis
    using chain1(3,5) \<open>cp_MaxAge (st_ConsensusParams state1) = 100000\<close> by (auto simp: MaxInt64_def)
qed

text \<open>
  C39. Committed evidence is not remembered: adding evidence that is stored and committed reports it as
  new, puts it back among the pending evidence and the evidence to send, and clears the mark that it
  was committed, although \<open>AddNewEvidence\<close> says that it returns false for stored evidence. Listing the
  pending evidence then panics.
\<close>

theorem committed_evidence_readded:
  assumes "AddNewEvidence C J db ev p = (True, db1)" and "db2 = MarkEvidenceAsCommitted C J db1 ev"
  shows "ei_Committed (getEvidenceInfo C J db2 ev) \<and> map_of db2 (keyPending C J ev) = None
    \<and> (\<exists>db3. AddNewEvidence C J db2 ev p' = (True, db3) \<and> \<not> ei_Committed (getEvidenceInfo C J db3 ev)
         \<and> map_of db3 (keyPending C J ev) \<noteq> None \<and> map_of db3 (keyOutqueue C J ev p') \<noteq> None
         \<and> store_PendingEvidence db3 = Inl TmPanic)"
proof -
  note c = Committed_stored [OF AddNew_stored(1) [OF assms(1)], folded assms(2)]
  obtain db3 where db3: "AddNewEvidence C J db2 ev p' = (True, db3)"
    using AddNew_known [OF c(1), of p'] by (cases "AddNewEvidence C J db2 ev p'") (auto simp: EvidenceToInfoBytes_def)
  show ?thesis
    using c(1,2) db3 AddNew_stored [OF db3] AddNew_pending_panics [OF db3]
    by (simp add: getEvidenceInfo_def EvidenceToInfoBytes_def)
qed

definition ev_abc :: DuplicateVoteEvidence where
  "ev_abc = \<lparr>dve_PubKey = ''61'', dve_VoteA = vote_by ''a'' 0 ''B'', dve_VoteB = vote_by ''a'' 0 ''D''\<rparr>"

theorem committed_evidence_readded_witness:
  "\<exists>db2 db3. ei_Committed (getEvidenceInfo toy_crypto toy_coding db2 ev_abc)
     \<and> AddNewEvidence toy_crypto toy_coding db2 ev_abc 10 = (True, db3) \<and> \<not> ei_Committed (getEvidenceInfo toy_crypto toy_coding db3 ev_abc)"
proof -
  obtain db1 where "AddNewEvidence toy_crypto toy_coding [] ev_abc 10 = (True, db1)"
    by (simp add: AddNewEvidence_def GetEvidence_def Let_def)
  from committed_evidence_readded [OF this refl, of 10] show ?thesis
    by blast
qed

end
