(* ===== verification/ConsensusState.thy ===== *)
theory ConsensusState
  imports HeightVoteSet PrivValidator EvidencePool
begin

text \<open>
  The consensus state machine: \<open>plugin/consensus/tendermint/consensus_state.go\<close>, the round state of
  \<open>types/round_state.go\<close> and the start of \<open>tendermint.go\<close>. One call of \<open>handleMsg\<close>, \<open>handleTimeout\<close> or
  \<open>handleTxsAvailable\<close> is one function of the state; what it sends, schedules or puts on a queue is appended
  to \<open>cs_out\<close>. A panic ends the routine that owns the state, so it ends the function with \<open>TmPanic\<close>.
  The answers of the chain to the calls of the client, the clock and the configuration are the record
  \<open>env\<close>, one reading for each handled message. Log messages are left out.
\<close>

section \<open>Definitions\<close>

definition sbind :: "'e + 'a \<Rightarrow> ('a \<Rightarrow> 'e + 'b) \<Rightarrow> 'e + 'b" where
  "sbind m f = (case m of Inl e \<Rightarrow> Inl e | Inr x \<Rightarrow> f x)"

text \<open>\<open>round_state.go\<close>: the steps of a round, in order.\<close>

definition RoundStepNewHeight :: nat where "RoundStepNewHeight = 1"
definition RoundStepNewRound :: nat where "RoundStepNewRound = 2"
definition RoundStepPropose :: nat where "RoundStepPropose = 3"
definition RoundStepPrevote :: nat where "RoundStepPrevote = 4"
definition RoundStepPrevoteWait :: nat where "RoundStepPrevoteWait = 5"
definition RoundStepPrecommit :: nat where "RoundStepPrecommit = 6"
definition RoundStepPrecommitWait :: nat where "RoundStepPrecommitWait = 7"
definition RoundStepCommit :: nat where "RoundStepCommit = 8"

lemmas round_steps = RoundStepNewHeight_def RoundStepNewRound_def RoundStepPropose_def RoundStepPrevote_def
  RoundStepPrevoteWait_def RoundStepPrecommit_def RoundStepPrecommitWait_def RoundStepCommit_def

datatype cs_err =
    ErrInvalidProposalSignature | ErrInvalidProposalPOLRound | ErrAddingVote | ErrVoteHeightMismatch
  | CErr add_err

record timeoutInfo =
  ti_Duration :: int
  ti_Height :: int
  ti_Round :: int
  ti_Step :: nat

text \<open>The messages that change the state, and what the state machine sends: on the broadcast channel
  (a new step, a vote it has), on the internal queue, to the ticker, and the start of the heartbeat.\<close>

datatype 'tx msg = Msg_Proposal proposal | Msg_Block "'tx TendermintBlock" | Msg_Vote vote | Msg_Unknown

datatype 'tx cs_event =
    Ev_NewRoundStep int int nat int
  | Ev_HasVote int int nat int
  | Ev_Internal "'tx msg"
  | Ev_Timeout timeoutInfo
  | Ev_Heartbeat int int

record config =
  cf_timeoutPropose :: int
  cf_timeoutProposeDelta :: int
  cf_timeoutPrevote :: int
  cf_timeoutPrevoteDelta :: int
  cf_timeoutPrecommit :: int
  cf_timeoutPrecommitDelta :: int
  cf_timeoutCommit :: int
  cf_skipTimeoutCommit :: bool
  cf_createEmptyBlocks :: bool
  cf_createEmptyBlocksInterval :: int

text \<open>
  The answers of the client: \<open>BuildBlock\<close> (height and transactions), whether \<open>CommitBlock\<close> succeeds and
  \<open>CheckCommit\<close> answers true, \<open>QueryValidatorsByHeight\<close> (\<open>None\<close> for an error or nil), \<open>CreateBlockInfoTx\<close>,
  and the marshalling of evidence.
\<close>

record 'tx env =
  en_cfg :: config
  en_now :: int
  en_BuildBlock :: "int \<times> 'tx list"
  en_CommitBlock :: "int \<Rightarrow> 'tx list \<Rightarrow> bool"
  en_CheckCommit :: "int \<Rightarrow> bool"
  en_QueryValidators :: "int \<Rightarrow> valnode list option"
  en_CreateBlockInfoTx :: "commit \<Rightarrow> commit \<Rightarrow> pb_State \<Rightarrow> proposal option \<Rightarrow> 'tx TendermintBlock \<Rightarrow> 'tx"
  en_Marshal :: "DuplicateVoteEvidence \<Rightarrow> bytes"

record ('tx, 'pub, 'sig, 'priv) ConsensusState =
  cs_privValidator :: "('pub, 'sig, 'priv) PrivValidatorImp option"
  cs_evpool :: EvidencePool
  cs_Height :: int
  cs_Round :: int
  cs_Step :: nat
  cs_StartTime :: int
  cs_CommitTime :: "int option"
  cs_Validators :: "ValidatorSet option"
  cs_Proposal :: "proposal option"
  cs_ProposalBlock :: "'tx TendermintBlock option"
  cs_LockedRound :: int
  cs_LockedBlock :: "'tx TendermintBlock option"
  cs_Votes :: "HeightVoteSet option"
  cs_CommitRound :: int
  cs_LastCommit :: "VoteSet option"
  cs_LastValidators :: "ValidatorSet option"
  cs_state :: State
  cs_broadcastChannel :: bool
  cs_nSteps :: nat
  cs_begCons :: "int option"
  cs_ProposalBlockHash :: bytes
  cs_out :: "'tx cs_event list"

type_synonym ('tx, 'pub, 'sig, 'priv) cs_res = "tm_err + ('tx, 'pub, 'sig, 'priv) ConsensusState"

text \<open>The nil block has no hash.\<close>

definition block_opt_Hash :: "('pub, 'sig) crypto \<Rightarrow> coding \<Rightarrow> 'tx TendermintBlock option \<Rightarrow> bytes" where
  "block_opt_Hash C J b = (case b of None \<Rightarrow> [] | Some b \<Rightarrow> block_Hash C J b)"

definition Commit_time :: "config \<Rightarrow> int \<Rightarrow> int" where
  "Commit_time cf t = t + cf_timeoutCommit cf * 1000000"

definition Propose_time :: "config \<Rightarrow> int \<Rightarrow> int" where
  "Propose_time cf r = to_int32 (cf_timeoutPropose cf + to_int32 (cf_timeoutProposeDelta cf * to_int32 r)) * 1000000"

definition Prevote_time :: "config \<Rightarrow> int \<Rightarrow> int" where
  "Prevote_time cf r = to_int32 (cf_timeoutPrevote cf + to_int32 (cf_timeoutPrevoteDelta cf * to_int32 r)) * 1000000"

definition Precommit_time :: "config \<Rightarrow> int \<Rightarrow> int" where
  "Precommit_time cf r = to_int32 (cf_timeoutPrecommit cf + to_int32 (cf_timeoutPrecommitDelta cf * to_int32 r)) * 1000000"

definition WaitForTxs :: "config \<Rightarrow> bool" where
  "WaitForTxs cf \<longleftrightarrow> \<not> cf_createEmptyBlocks cf \<or> cf_createEmptyBlocksInterval cf > 0"

definition EmptyBlocksInterval :: "config \<Rightarrow> int" where
  "EmptyBlocksInterval cf = cf_createEmptyBlocksInterval cf * 1000000000"

definition cs_emit :: "'tx cs_event \<Rightarrow> ('tx, 'pub, 'sig, 'priv) ConsensusState \<Rightarrow> ('tx, 'pub, 'sig, 'priv) ConsensusState" where
  "cs_emit e cs = cs\<lparr>cs_out := cs_out cs @ [e]\<rparr>"

definition RoundStateMessage :: "('tx, 'pub, 'sig, 'priv) ConsensusState \<Rightarrow> 'tx cs_event" where
  "RoundStateMessage cs = Ev_NewRoundStep (cs_Height cs) (to_int32 (cs_Round cs)) (cs_Step cs)
     (to_int32 (case cs_LastCommit cs of None \<Rightarrow> -1 | Some V \<Rightarrow> vt_round V))"

definition updateHeight :: "int \<Rightarrow> ('tx, 'pub, 'sig, 'priv) ConsensusState \<Rightarrow> ('tx, 'pub, 'sig, 'priv) ConsensusState" where
  "updateHeight h cs = cs\<lparr>cs_Height := h\<rparr>"

definition updateRoundStep :: "int \<Rightarrow> nat \<Rightarrow> ('tx, 'pub, 'sig, 'priv) ConsensusState \<Rightarrow> ('tx, 'pub, 'sig, 'priv) ConsensusState" where
  "updateRoundStep r s cs = cs\<lparr>cs_Round := r, cs_Step := s\<rparr>"

definition scheduleTimeout :: "int \<Rightarrow> int \<Rightarrow> int \<Rightarrow> nat \<Rightarrow> ('tx, 'pub, 'sig, 'priv) ConsensusState \<Rightarrow> ('tx, 'pub, 'sig, 'priv) ConsensusState" where
  "scheduleTimeout d h r s cs = cs_emit (Ev_Timeout \<lparr>ti_Duration = d, ti_Height = h, ti_Round = r, ti_Step = s\<rparr>) cs"

definition scheduleRound0 :: "int \<Rightarrow> ('tx, 'pub, 'sig, 'priv) ConsensusState \<Rightarrow> ('tx, 'pub, 'sig, 'priv) ConsensusState" where
  "scheduleRound0 now cs = scheduleTimeout (cs_StartTime cs - now) (cs_Height cs) 0 RoundStepNewHeight cs"

definition newStep :: "('tx, 'pub, 'sig, 'priv) ConsensusState \<Rightarrow> ('tx, 'pub, 'sig, 'priv) ConsensusState" where
  "newStep cs = (let cs1 = (if cs_broadcastChannel cs then cs_emit (RoundStateMessage cs) cs else cs)
     in cs1\<lparr>cs_nSteps := cs_nSteps cs1 + 1\<rparr>)"

text \<open>The vote sets of a round of \<open>cs.Votes\<close>; a nil \<open>cs.Votes\<close> is dereferenced.\<close>

definition cs_Prevotes :: "('tx, 'pub, 'sig, 'priv) ConsensusState \<Rightarrow> int \<Rightarrow> tm_err + VoteSet option" where
  "cs_Prevotes cs r = (case cs_Votes cs of None \<Rightarrow> Inl TmPanic | Some H \<Rightarrow> hv_Prevotes H r)"

definition cs_Precommits :: "('tx, 'pub, 'sig, 'priv) ConsensusState \<Rightarrow> int \<Rightarrow> tm_err + VoteSet option" where
  "cs_Precommits cs r = (case cs_Votes cs of None \<Rightarrow> Inl TmPanic | Some H \<Rightarrow> hv_Precommits H r)"

text \<open>\<open>signVote\<close> and \<open>signAddVote\<close>. An error of the signer is logged and the vote dropped.\<close>

definition signVote ::
    "('pub, 'sig) crypto \<Rightarrow> 'tx env \<Rightarrow> nat \<Rightarrow> bytes \<Rightarrow> ('pub, 'sig, 'priv) PrivValidatorImp \<Rightarrow> ValidatorSet
      \<Rightarrow> ('tx, 'pub, 'sig, 'priv) ConsensusState \<Rightarrow> (tm_err + vote) \<times> ('pub, 'sig, 'priv) PrivValidatorImp" where
  "signVote C E t hash pv vals cs =
     SignVote C pv (st_ChainID (cs_state cs))
       \<lparr>v_ValidatorAddress = pv_Address pv, v_ValidatorIndex = to_int32 (fst (vs_GetByAddress vals (pv_Address pv))),
        v_Height = cs_Height cs, v_Round = to_int32 (cs_Round cs), v_Timestamp = en_now E, v_Type = t,
        v_BlockID = hash, v_Signature = []\<rparr>"

definition signAddVote ::
    "('pub, 'sig) crypto \<Rightarrow> 'tx env \<Rightarrow> nat \<Rightarrow> bytes \<Rightarrow> ('tx, 'pub, 'sig, 'priv) ConsensusState \<Rightarrow> ('tx, 'pub, 'sig, 'priv) cs_res" where
  "signAddVote C E t hash cs =
     (case cs_privValidator cs of
        None \<Rightarrow> Inr cs
      | Some pv \<Rightarrow>
          (case cs_Validators cs of
             None \<Rightarrow> Inl TmPanic
           | Some vals \<Rightarrow>
               if \<not> vs_HasAddress vals (pv_Address pv) then Inr cs
               else case signVote C E t hash pv vals cs of
                 (Inl e, pv') \<Rightarrow> if e = TmPanic then Inl TmPanic else Inr (cs\<lparr>cs_privValidator := Some pv'\<rparr>)
               | (Inr v, pv') \<Rightarrow> Inr (cs_emit (Ev_Internal (Msg_Vote v)) (cs\<lparr>cs_privValidator := Some pv'\<rparr>))))"

definition isProposalComplete :: "('tx, 'pub, 'sig, 'priv) ConsensusState \<Rightarrow> tm_err + bool" where
  "isProposalComplete cs =
     (case (cs_Proposal cs, cs_ProposalBlock cs) of
        (Some p, Some _) \<Rightarrow>
          if p_POLRound p < 0 then Inr True
          else sbind (cs_Prevotes cs (p_POLRound p)) (\<lambda>V. Inr (vt_HasTwoThirdsMajority V))
      | _ \<Rightarrow> Inr False)"

definition block_AddEvidence :: "'tx env \<Rightarrow> 'tx TendermintBlock \<Rightarrow> DuplicateVoteEvidence list \<Rightarrow> 'tx TendermintBlock" where
  "block_AddEvidence E b evs = b\<lparr>b_Evidence := b_Evidence b @ map (\<lambda>ev. (''DuplicateVote'', en_Marshal E ev)) evs\<rparr>"

text \<open>The commit for the next block: the empty one at height 1, else the last precommits, if they have a majority.\<close>

definition proposal_commit :: "('tx, 'pub, 'sig, 'priv) ConsensusState \<Rightarrow> tm_err + commit option" where
  "proposal_commit cs =
     (if cs_Height cs = 1 then Inr (Some \<lparr>c_BlockID = [], c_Precommits = []\<rparr>)
      else if vt_HasTwoThirdsMajority (cs_LastCommit cs) then
        (case cs_LastCommit cs of
           None \<Rightarrow> Inl TmPanic
         | Some V \<Rightarrow> sbind (vt_MakeCommit V) (\<lambda>c. Inr (Some c)))
      else Inr None)"

definition createProposalBlock ::
    "('pub, 'sig) crypto \<Rightarrow> coding \<Rightarrow> 'tx env \<Rightarrow> ('tx, 'pub, 'sig, 'priv) ConsensusState \<Rightarrow> tm_err + 'tx TendermintBlock option" where
  "createProposalBlock C J E cs =
     sbind (proposal_commit cs) (\<lambda>co. case co of
        None \<Rightarrow> Inr None
      | Some commit \<Rightarrow>
          (case en_BuildBlock E of
             (h, txs) \<Rightarrow>
               if h \<noteq> cs_Height cs then Inr None
               else case state_MakeBlock C J (en_now E) (cs_state cs) (cs_Height cs) (cs_Round cs) txs commit of
                 Inl _ \<Rightarrow> Inl TmPanic
               | Inr b \<Rightarrow>
                   (case cs_privValidator cs of
                      None \<Rightarrow> Inl TmPanic
                    | Some pv \<Rightarrow>
                        sbind (store_PendingEvidence (ep_store (cs_evpool cs))) (\<lambda>evs.
                          Inr (Some (block_AddEvidence E (b\<lparr>b_ProposerAddr := pv_Address pv\<rparr>) evs))))))"

text \<open>\<open>block.Hash()\<close> fills the header of the block that is sent.\<close>

definition defaultDecideProposal ::
    "('pub, 'sig) crypto \<Rightarrow> coding \<Rightarrow> 'tx env \<Rightarrow> int \<Rightarrow> int \<Rightarrow> ('tx, 'pub, 'sig, 'priv) ConsensusState \<Rightarrow> ('tx, 'pub, 'sig, 'priv) cs_res" where
  "defaultDecideProposal C J E h r cs =
     sbind (case cs_LockedBlock cs of Some b \<Rightarrow> Inr (Some b) | None \<Rightarrow> createProposalBlock C J E cs) (\<lambda>bo. case bo of
        None \<Rightarrow> Inr cs
      | Some block \<Rightarrow>
          (case (cs_Votes cs, cs_privValidator cs) of
             (Some H, Some pv) \<Rightarrow>
               sbind (hv_POLInfo H) (\<lambda>(polRound, polBlockID).
                 case SignProposal C pv (st_ChainID (cs_state cs))
                        (NewProposal (en_now E) h r (block_Hash C J block) polRound polBlockID) of
                   (Inl e, pv') \<Rightarrow> if e = TmPanic then Inl TmPanic else Inr (cs\<lparr>cs_privValidator := Some pv'\<rparr>)
                 | (Inr p, pv') \<Rightarrow> Inr (cs_emit (Ev_Internal (Msg_Block (FillHeader C J block)))
                     (cs_emit (Ev_Internal (Msg_Proposal p)) (cs\<lparr>cs_privValidator := Some pv'\<rparr>))))
           | _ \<Rightarrow> Inl TmPanic))"

text \<open>
  \<open>enterPrevote\<close>. An error of \<open>ValidateBlock\<close> is a nil vote; a panic in it is a panic here. The calls made
  with \<open>defer\<close> come at the end.
\<close>

definition cs_ValidateBlock ::
    "('pub, 'sig) crypto \<Rightarrow> coding \<Rightarrow> ('tx, 'pub, 'sig, 'priv) ConsensusState \<Rightarrow> 'tx TendermintBlock \<Rightarrow> tm_err + bool" where
  "cs_ValidateBlock C J cs b =
     (case validateBlock C J (ep_stateDB (cs_evpool cs)) (cs_state cs) b of
        Inl e \<Rightarrow> if e = EErr TmPanic then Inl TmPanic else Inr False
      | Inr _ \<Rightarrow> Inr True)"

definition defaultDoPrevote ::
    "('pub, 'sig) crypto \<Rightarrow> coding \<Rightarrow> 'tx env \<Rightarrow> ('tx, 'pub, 'sig, 'priv) ConsensusState \<Rightarrow> ('tx, 'pub, 'sig, 'priv) cs_res" where
  "defaultDoPrevote C J E cs =
     (case cs_LockedBlock cs of
        Some b \<Rightarrow> signAddVote C E VoteTypePrevote (block_Hash C J b) cs
      | None \<Rightarrow>
          (case cs_ProposalBlock cs of
             None \<Rightarrow> signAddVote C E VoteTypePrevote [] cs
           | Some b \<Rightarrow> sbind (cs_ValidateBlock C J cs b) (\<lambda>ok.
               if \<not> ok then signAddVote C E VoteTypePrevote [] cs
               else signAddVote C E VoteTypePrevote (block_Hash C J b) cs)))"

text \<open>The guard of the steps: whether the call is for another height, an earlier round or a step already taken.\<close>

definition step_past :: "int \<Rightarrow> int \<Rightarrow> nat \<Rightarrow> ('tx, 'pub, 'sig, 'priv) ConsensusState \<Rightarrow> bool" where
  "step_past h r s cs \<longleftrightarrow> cs_Height cs \<noteq> h \<or> r < cs_Round cs \<or> cs_Round cs = r \<and> s \<le> cs_Step cs"

definition enterPrevote ::
    "('pub, 'sig) crypto \<Rightarrow> coding \<Rightarrow> 'tx env \<Rightarrow> int \<Rightarrow> int \<Rightarrow> ('tx, 'pub, 'sig, 'priv) ConsensusState \<Rightarrow> ('tx, 'pub, 'sig, 'priv) cs_res" where
  "enterPrevote C J E h r cs =
     (if step_past h r RoundStepPrevote cs then Inr cs
      else sbind (isProposalComplete cs) (\<lambda>_. sbind (defaultDoPrevote C J E cs) (\<lambda>cs1.
        Inr (newStep (updateRoundStep r RoundStepPrevote cs1)))))"

definition isProposer :: "('tx, 'pub, 'sig, 'priv) ConsensusState \<Rightarrow> tm_err + bool \<times> ('tx, 'pub, 'sig, 'priv) ConsensusState" where
  "isProposer cs =
     (case (cs_Validators cs, cs_privValidator cs) of
        (Some vals, Some pv) \<Rightarrow>
          (case GetProposer vals of
             (Inr (Some p), vals') \<Rightarrow> Inr (val_Address p = pv_Address pv, cs\<lparr>cs_Validators := Some vals'\<rparr>)
           | _ \<Rightarrow> Inl TmPanic)
      | _ \<Rightarrow> Inl TmPanic)"

definition enterPropose_body ::
    "('pub, 'sig) crypto \<Rightarrow> coding \<Rightarrow> 'tx env \<Rightarrow> int \<Rightarrow> int \<Rightarrow> ('tx, 'pub, 'sig, 'priv) ConsensusState \<Rightarrow> ('tx, 'pub, 'sig, 'priv) cs_res" where
  "enterPropose_body C J E h r cs =
     (case cs_privValidator cs of
        None \<Rightarrow> Inr cs
      | Some pv \<Rightarrow>
          (case cs_Validators cs of
             None \<Rightarrow> Inl TmPanic
           | Some vals \<Rightarrow>
               if \<not> vs_HasAddress vals (pv_Address pv) then Inr cs
               else sbind (isProposer cs) (\<lambda>(ours, cs1). if ours then defaultDecideProposal C J E h r cs1 else Inr cs1)))"

definition enterPropose ::
    "('pub, 'sig) crypto \<Rightarrow> coding \<Rightarrow> 'tx env \<Rightarrow> int \<Rightarrow> int \<Rightarrow> ('tx, 'pub, 'sig, 'priv) ConsensusState \<Rightarrow> ('tx, 'pub, 'sig, 'priv) cs_res" where
  "enterPropose C J E h r cs =
     (if step_past h r RoundStepPropose cs then Inr cs
      else
        let cs1 = (if cs_Round cs = 0 \<and> cs_begCons cs = None then cs\<lparr>cs_begCons := Some (en_now E)\<rparr> else cs);
            cs2 = scheduleTimeout (Propose_time (en_cfg E) r) h r RoundStepPropose cs1
        in sbind (enterPropose_body C J E h r cs2) (\<lambda>cs3.
             let cs4 = newStep (updateRoundStep r RoundStepPropose cs3)
             in sbind (isProposalComplete cs4) (\<lambda>complete.
                  if complete then enterPrevote C J E h (cs_Round cs4) cs4 else Inr cs4)))"

text \<open>The set-up of a new round, and its end: the proposal, or in round 0 the wait for transactions.\<close>

definition new_round :: "int \<Rightarrow> ValidatorSet \<Rightarrow> HeightVoteSet \<Rightarrow> ('tx, 'pub, 'sig, 'priv) ConsensusState \<Rightarrow> ('tx, 'pub, 'sig, 'priv) ConsensusState" where
  "new_round r vals H cs =
     (let cs1 = (updateRoundStep r RoundStepNewRound cs)\<lparr>cs_Validators := Some vals\<rparr>;
          cs2 = (if r = 0 then cs1 else cs1\<lparr>cs_Proposal := None, cs_ProposalBlock := None, cs_ProposalBlockHash := []\<rparr>);
          cs3 = cs2\<lparr>cs_Votes := Some H\<rparr>
      in cs_emit (RoundStateMessage cs3) cs3)"

definition propose_or_wait ::
    "('pub, 'sig) crypto \<Rightarrow> coding \<Rightarrow> 'tx env \<Rightarrow> int \<Rightarrow> int \<Rightarrow> ('tx, 'pub, 'sig, 'priv) ConsensusState \<Rightarrow> ('tx, 'pub, 'sig, 'priv) cs_res" where
  "propose_or_wait C J E h r cs =
     (if WaitForTxs (en_cfg E) \<and> r = 0 then
        let cs1 = (if cf_createEmptyBlocksInterval (en_cfg E) > 0
                   then scheduleTimeout (EmptyBlocksInterval (en_cfg E)) h r RoundStepNewRound cs else cs)
        in Inr (cs_emit (Ev_Heartbeat h r) cs1)
      else enterPropose C J E h r cs)"

definition enterNewRound ::
    "('pub, 'sig) crypto \<Rightarrow> coding \<Rightarrow> 'tx env \<Rightarrow> int \<Rightarrow> int \<Rightarrow> ('tx, 'pub, 'sig, 'priv) ConsensusState \<Rightarrow> ('tx, 'pub, 'sig, 'priv) cs_res" where
  "enterNewRound C J E h r cs =
     (if cs_Height cs \<noteq> h \<or> r < cs_Round cs \<or> cs_Round cs = r \<and> cs_Step cs \<noteq> RoundStepNewHeight then Inr cs
      else case (cs_Validators cs, cs_Votes cs) of
        (Some vals, Some H) \<Rightarrow>
          sbind (if cs_Round cs < r then IncrementAccum (nat (r - cs_Round cs)) vals else Inr vals) (\<lambda>vals1.
            sbind (hv_SetRound H (r + 1)) (\<lambda>H1. propose_or_wait C J E h r (new_round r vals1 H1 cs)))
      | _ \<Rightarrow> Inl TmPanic)"

definition enterPrevoteWait ::
    "'tx env \<Rightarrow> int \<Rightarrow> int \<Rightarrow> ('tx, 'pub, 'sig, 'priv) ConsensusState \<Rightarrow> ('tx, 'pub, 'sig, 'priv) cs_res" where
  "enterPrevoteWait E h r cs =
     (if step_past h r RoundStepPrevoteWait cs then Inr cs
      else sbind (cs_Prevotes cs r) (\<lambda>V.
        if \<not> vt_HasTwoThirdsAny V then Inl TmPanic
        else Inr (newStep (updateRoundStep r RoundStepPrevoteWait
          (scheduleTimeout (Prevote_time (en_cfg E) r) h r RoundStepPrevoteWait cs)))))"

definition enterPrecommitWait ::
    "'tx env \<Rightarrow> int \<Rightarrow> int \<Rightarrow> ('tx, 'pub, 'sig, 'priv) ConsensusState \<Rightarrow> ('tx, 'pub, 'sig, 'priv) cs_res" where
  "enterPrecommitWait E h r cs =
     (if step_past h r RoundStepPrecommitWait cs then Inr cs
      else sbind (cs_Precommits cs r) (\<lambda>V.
        if \<not> vt_HasTwoThirdsAny V then Inl TmPanic
        else Inr (newStep (updateRoundStep r RoundStepPrecommitWait
          (scheduleTimeout (Precommit_time (en_cfg E) r) h r RoundStepPrecommitWait cs)))))"

text \<open>\<open>enterPrecommit\<close>: the vote and the lock, by the majority of the prevotes of the round.\<close>

definition precommit_polka ::
    "('pub, 'sig) crypto \<Rightarrow> coding \<Rightarrow> 'tx env \<Rightarrow> int \<Rightarrow> blockID \<Rightarrow> ('tx, 'pub, 'sig, 'priv) ConsensusState \<Rightarrow> ('tx, 'pub, 'sig, 'priv) cs_res" where
  "precommit_polka C J E r b cs =
     (if length b = 0 then
        signAddVote C E VoteTypePrecommit []
          (if cs_LockedBlock cs = None then cs else cs\<lparr>cs_LockedRound := 0, cs_LockedBlock := None\<rparr>)
      else if HashesTo C J (cs_LockedBlock cs) b then
        signAddVote C E VoteTypePrecommit b (cs\<lparr>cs_LockedRound := r\<rparr>)
      else if HashesTo C J (cs_ProposalBlock cs) b then
        sbind (cs_ValidateBlock C J cs (the (cs_ProposalBlock cs))) (\<lambda>ok.
          if \<not> ok then Inl TmPanic
          else signAddVote C E VoteTypePrecommit b (cs\<lparr>cs_LockedRound := r, cs_LockedBlock := cs_ProposalBlock cs\<rparr>))
      else
        let cs1 = cs\<lparr>cs_LockedRound := 0, cs_LockedBlock := None\<rparr>;
            cs2 = (if cs_ProposalBlockHash cs1 \<noteq> b then cs1\<lparr>cs_ProposalBlock := None, cs_ProposalBlockHash := b\<rparr> else cs1)
        in signAddVote C E VoteTypePrecommit [] cs2)"

definition enterPrecommit ::
    "('pub, 'sig) crypto \<Rightarrow> coding \<Rightarrow> 'tx env \<Rightarrow> int \<Rightarrow> int \<Rightarrow> ('tx, 'pub, 'sig, 'priv) ConsensusState \<Rightarrow> ('tx, 'pub, 'sig, 'priv) cs_res" where
  "enterPrecommit C J E h r cs =
     (if step_past h r RoundStepPrecommit cs then Inr cs
      else sbind (cs_Prevotes cs r) (\<lambda>V.
        sbind (case vt_TwoThirdsMajority V of
                 (_, False) \<Rightarrow> signAddVote C E VoteTypePrecommit [] cs
               | (b, True) \<Rightarrow>
                   (case cs_Votes cs of
                      None \<Rightarrow> Inl TmPanic
                    | Some H \<Rightarrow> sbind (hv_POLInfo H) (\<lambda>(polRound, _).
                        if polRound < r then Inl TmPanic else precommit_polka C J E r b cs)))
          (\<lambda>cs1. Inr (newStep (updateRoundStep r RoundStepPrecommit cs1)))))"

text \<open>\<open>updateToState\<close>. A zero time is \<open>None\<close>.\<close>

definition state_IsEmpty :: "State \<Rightarrow> bool" where
  "state_IsEmpty s \<longleftrightarrow> st_Validators s = None"

definition last_precommits :: "('tx, 'pub, 'sig, 'priv) ConsensusState \<Rightarrow> tm_err + VoteSet option" where
  "last_precommits cs =
     (if cs_CommitRound cs > -1 \<and> cs_Votes cs \<noteq> None then
        sbind (cs_Precommits cs (cs_CommitRound cs)) (\<lambda>V. if \<not> vt_HasTwoThirdsMajority V then Inl TmPanic else Inr V)
      else Inr None)"

definition updateToState ::
    "'tx env \<Rightarrow> State \<Rightarrow> ('tx, 'pub, 'sig, 'priv) ConsensusState \<Rightarrow> ('tx, 'pub, 'sig, 'priv) cs_res" where
  "updateToState E s cs =
     (if cs_CommitRound cs > -1 \<and> 0 < cs_Height cs \<and> cs_Height cs \<noteq> st_LastBlockHeight s then Inl TmPanic
      else if \<not> state_IsEmpty (cs_state cs) \<and> add64 (st_LastBlockHeight (cs_state cs)) 1 \<noteq> cs_Height cs then Inl TmPanic
      else if \<not> state_IsEmpty (cs_state cs) \<and> st_LastBlockHeight s \<le> st_LastBlockHeight (cs_state cs) then Inr cs
      else sbind (last_precommits cs) (\<lambda>lastPrecommits.
        case st_Validators s of
          None \<Rightarrow> Inl TmPanic
        | Some validators \<Rightarrow>
            let h = add64 (st_LastBlockHeight s) 1;
                cs1 = updateRoundStep 0 RoundStepNewHeight (updateHeight h cs);
                start = Commit_time (en_cfg E) (case cs_CommitTime cs of None \<Rightarrow> en_now E | Some t \<Rightarrow> t)
            in sbind (NewHeightVoteSet (st_ChainID s) h validators) (\<lambda>H.
                 Inr (newStep (cs1\<lparr>cs_StartTime := start, cs_Validators := Some validators, cs_Proposal := None,
                   cs_ProposalBlock := None, cs_ProposalBlockHash := [], cs_LockedRound := 0, cs_LockedBlock := None,
                   cs_Votes := Some H, cs_CommitRound := -1, cs_LastCommit := lastPrecommits,
                   cs_LastValidators := st_LastValidators s, cs_begCons := None, cs_state := s\<rparr>)))))"

text \<open>
  \<open>finalizeCommit\<close>: the block is applied to a copy of the state, then the proposer of the block writes it
  to the chain and the others wait for it; then the validators the chain names are put in the state.
\<close>

definition next_validators :: "('pub, 'sig) crypto \<Rightarrow> 'tx env \<Rightarrow> int \<Rightarrow> State \<Rightarrow> tm_err + State" where
  "next_validators C E h s =
     (case en_QueryValidators E h of
        None \<Rightarrow> Inr s
      | Some nodes \<Rightarrow>
          if nodes = [] then Inr s
          else case st_LastValidators s of
            None \<Rightarrow> Inl TmPanic
          | Some prevValSet \<Rightarrow>
              (case updateValidators C prevValSet nodes of
                 (res, nextValSet) \<Rightarrow>
                   if res = Inl TmPanic then Inl TmPanic
                   else sbind (IncrementAccum 1 nextValSet) (\<lambda>vals.
                     Inr (s\<lparr>st_LastHeightValidatorsChanged := add64 h 1, st_Validators := Some vals\<rparr>))))"

text \<open>Whether the block got on the chain: \<open>CommitBlock\<close> of the proposer, \<open>CheckCommit\<close> of the others.\<close>

definition chain_commit ::
    "'tx env \<Rightarrow> State \<Rightarrow> 'tx TendermintBlock \<Rightarrow> ('tx, 'pub, 'sig, 'priv) ConsensusState \<Rightarrow> tm_err + bool" where
  "chain_commit E s b cs =
     (case cs_privValidator cs of
        None \<Rightarrow> Inl TmPanic
      | Some pv \<Rightarrow>
          if pv_Address pv = b_ProposerAddr b then
            sbind (cs_Precommits cs (cs_CommitRound cs)) (\<lambda>V. case V of
                None \<Rightarrow> Inl TmPanic
              | Some V \<Rightarrow> sbind (vt_MakeCommit V) (\<lambda>seenCommit.
                  let tx0 = en_CreateBlockInfoTx E (b_LastCommit b) seenCommit (SaveState s) (cs_Proposal cs) b
                  in Inr (en_CommitBlock E (hd_Height (b_Header b)) (tx0 # b_Txs b))))
          else Inr (en_CheckCommit E (hd_Height (b_Header b))))"

text \<open>The end of \<open>finalizeCommit\<close>, with the state after the block.\<close>

definition block_applied ::
    "('pub, 'sig) crypto \<Rightarrow> coding \<Rightarrow> 'tx env \<Rightarrow> 'tx TendermintBlock \<Rightarrow> State \<Rightarrow> ('tx, 'pub, 'sig, 'priv) ConsensusState \<Rightarrow> ('tx, 'pub, 'sig, 'priv) cs_res" where
  "block_applied C J E b s cs =
     sbind (chain_commit E s b cs) (\<lambda>reached.
       if \<not> reached then
         enterNewRound C J E (cs_Height cs) (cs_CommitRound cs + 1) (cs\<lparr>cs_LockedRound := 0, cs_LockedBlock := None\<rparr>)
       else
         sbind (next_validators C E (hd_Height (b_Header b)) s) (\<lambda>s1.
           sbind (updateToState E s1 cs) (\<lambda>cs1. Inr (scheduleRound0 (en_now E) cs1))))"

definition finalizeCommit ::
    "('pub, 'sig) crypto \<Rightarrow> coding \<Rightarrow> 'tx env \<Rightarrow> int \<Rightarrow> ('tx, 'pub, 'sig, 'priv) ConsensusState \<Rightarrow> ('tx, 'pub, 'sig, 'priv) cs_res" where
  "finalizeCommit C J E h cs =
     (if cs_Height cs \<noteq> h \<or> cs_Step cs \<noteq> RoundStepCommit then Inr cs
      else sbind (cs_Precommits cs (cs_CommitRound cs)) (\<lambda>V.
        case vt_TwoThirdsMajority V of
          (_, False) \<Rightarrow> Inl TmPanic
        | (bid, True) \<Rightarrow>
            (case cs_ProposalBlock cs of
               None \<Rightarrow> Inl TmPanic
             | Some b \<Rightarrow>
                 if \<not> HashesTo C J (Some b) bid then Inl TmPanic
                 else sbind (cs_ValidateBlock C J cs b) (\<lambda>ok.
                   if \<not> ok then Inl TmPanic
                   else case exec_ApplyBlock C J (cs_evpool cs) (cs_state cs) (block_Hash C J b) b of
                     (Inl e, P) \<Rightarrow>
                       if e = EErr TmPanic then Inl TmPanic
                       else enterNewRound C J E (cs_Height cs) (cs_CommitRound cs + 1) (cs\<lparr>cs_evpool := P\<rparr>)
                   | (Inr s, P) \<Rightarrow> block_applied C J E b s (cs\<lparr>cs_evpool := P\<rparr>)))))"

definition tryFinalizeCommit ::
    "('pub, 'sig) crypto \<Rightarrow> coding \<Rightarrow> 'tx env \<Rightarrow> int \<Rightarrow> ('tx, 'pub, 'sig, 'priv) ConsensusState \<Rightarrow> ('tx, 'pub, 'sig, 'priv) cs_res" where
  "tryFinalizeCommit C J E h cs =
     (if cs_Height cs \<noteq> h then Inl TmPanic
      else sbind (cs_Precommits cs (cs_CommitRound cs)) (\<lambda>V.
        case vt_TwoThirdsMajority V of
          (bid, ok) \<Rightarrow>
            if \<not> ok \<or> length bid = 0 then Inr cs
            else if \<not> HashesTo C J (cs_ProposalBlock cs) bid then Inr cs
            else finalizeCommit C J E h cs))"

text \<open>\<open>enterCommit\<close>: the block that is committed is moved to \<open>ProposalBlock\<close>, or waited for.\<close>

definition commit_block ::
    "('pub, 'sig) crypto \<Rightarrow> coding \<Rightarrow> blockID \<Rightarrow> ('tx, 'pub, 'sig, 'priv) ConsensusState \<Rightarrow> ('tx, 'pub, 'sig, 'priv) ConsensusState" where
  "commit_block C J b cs =
     (let cs1 = (if HashesTo C J (cs_LockedBlock cs) b
                 then cs\<lparr>cs_ProposalBlock := cs_LockedBlock cs, cs_ProposalBlockHash := b\<rparr> else cs)
      in if \<not> HashesTo C J (cs_ProposalBlock cs1) b then
           if cs_ProposalBlockHash cs1 \<noteq> b then cs1\<lparr>cs_ProposalBlock := None, cs_ProposalBlockHash := b\<rparr> else cs1
         else cs1)"

definition enterCommit ::
    "('pub, 'sig) crypto \<Rightarrow> coding \<Rightarrow> 'tx env \<Rightarrow> int \<Rightarrow> int \<Rightarrow> ('tx, 'pub, 'sig, 'priv) ConsensusState \<Rightarrow> ('tx, 'pub, 'sig, 'priv) cs_res" where
  "enterCommit C J E h commitRound cs =
     (if cs_Height cs \<noteq> h \<or> RoundStepCommit \<le> cs_Step cs then Inr cs
      else sbind (cs_Precommits cs commitRound) (\<lambda>V.
        case vt_TwoThirdsMajority V of
          (_, False) \<Rightarrow> Inl TmPanic
        | (b, True) \<Rightarrow>
            let cs1 = commit_block C J b cs;
                cs2 = (updateRoundStep (cs_Round cs1) RoundStepCommit cs1)
                  \<lparr>cs_CommitRound := commitRound, cs_CommitTime := Some (en_now E)\<rparr>
            in tryFinalizeCommit C J E h (newStep cs2)))"

text \<open>The messages: proposals, blocks and votes.\<close>

definition begin_cons :: "'tx env \<Rightarrow> ('tx, 'pub, 'sig, 'priv) ConsensusState \<Rightarrow> ('tx, 'pub, 'sig, 'priv) ConsensusState" where
  "begin_cons E cs = (if cs_begCons cs = None then cs\<lparr>cs_begCons := Some (en_now E)\<rparr> else cs)"

definition defaultSetProposal ::
    "('pub, 'sig) crypto \<Rightarrow> 'tx env \<Rightarrow> proposal \<Rightarrow> ('tx, 'pub, 'sig, 'priv) ConsensusState
      \<Rightarrow> tm_err + cs_err option \<times> ('tx, 'pub, 'sig, 'priv) ConsensusState" where
  "defaultSetProposal C E p cs =
     (if cs_Proposal cs \<noteq> None then Inr (None, cs)
      else if p_Height p \<noteq> cs_Height cs \<or> p_Round p \<noteq> cs_Round cs then Inr (None, cs)
      else
        let cs1 = begin_cons E cs in
        if RoundStepCommit \<le> cs_Step cs1 then Inr (None, cs1)
        else if p_POLRound p \<noteq> -1 \<and> (p_POLRound p < 0 \<or> p_Round p \<le> p_POLRound p)
          then Inr (Some ErrInvalidProposalPOLRound, cs1)
        else case cs_Validators cs1 of
          None \<Rightarrow> Inl TmPanic
        | Some vals \<Rightarrow>
            (case GetProposer vals of
               (Inr (Some proposer), vals') \<Rightarrow>
                 let cs2 = cs1\<lparr>cs_Validators := Some vals'\<rparr> in
                 (case PubKeyFromBytes C (val_PubKey proposer) of
                    None \<Rightarrow> Inr (Some (CErr (AErr ErrPubKeyFromBytes)), cs2)
                  | Some pubkey \<Rightarrow>
                      (case SignatureFromBytes C (p_Signature p) of
                         None \<Rightarrow> Inr (Some (CErr (AErr ErrSignatureFromBytes)), cs2)
                       | Some sig \<Rightarrow>
                           if \<not> VerifyBytes C pubkey (SignBytes_proposal (st_ChainID (cs_state cs2)) p) sig
                           then Inr (Some ErrInvalidProposalSignature, cs2)
                           else Inr (None, cs2\<lparr>cs_Proposal := Some p, cs_ProposalBlockHash := p_Blockhash p\<rparr>)))
             | _ \<Rightarrow> Inl TmPanic))"

definition addProposalBlock ::
    "('pub, 'sig) crypto \<Rightarrow> coding \<Rightarrow> 'tx env \<Rightarrow> 'tx TendermintBlock \<Rightarrow> ('tx, 'pub, 'sig, 'priv) ConsensusState \<Rightarrow> ('tx, 'pub, 'sig, 'priv) cs_res" where
  "addProposalBlock C J E b cs =
     (if cs_Height cs \<noteq> hd_Height (b_Header b) then Inr cs
      else
        let cs1 = begin_cons E cs in
        if \<not> HashesTo C J (Some b) (cs_ProposalBlockHash cs1) then Inr cs1
        else if HashesTo C J (Some b) (block_opt_Hash C J (cs_ProposalBlock cs1)) then Inr cs1
        else
          let cs2 = cs1\<lparr>cs_ProposalBlock := Some b\<rparr> in
          if cs_Step cs2 \<le> RoundStepPropose then enterPrevote C J E (cs_Height cs2) (cs_Round cs2) cs2
          else if cs_Step cs2 = RoundStepCommit then tryFinalizeCommit C J E (cs_Height cs2) cs2
          else Inr cs2)"

text \<open>\<open>addVote\<close> after the vote was added to the votes: prevotes and precommits.\<close>

definition unlock_by_polka ::
    "('pub, 'sig) crypto \<Rightarrow> coding \<Rightarrow> int \<Rightarrow> VoteSet option \<Rightarrow> ('tx, 'pub, 'sig, 'priv) ConsensusState \<Rightarrow> ('tx, 'pub, 'sig, 'priv) ConsensusState" where
  "unlock_by_polka C J r prevotes cs =
     (case vt_TwoThirdsMajority prevotes of
        (b, ok) \<Rightarrow>
          if ok \<and> cs_LockedBlock cs \<noteq> None \<and> cs_LockedRound cs < r \<and> r \<le> cs_Round cs \<and> \<not> HashesTo C J (cs_LockedBlock cs) b
          then cs\<lparr>cs_LockedRound := 0, cs_LockedBlock := None\<rparr> else cs)"

definition added_prevote ::
    "('pub, 'sig) crypto \<Rightarrow> coding \<Rightarrow> 'tx env \<Rightarrow> int \<Rightarrow> int \<Rightarrow> ('tx, 'pub, 'sig, 'priv) ConsensusState \<Rightarrow> ('tx, 'pub, 'sig, 'priv) cs_res" where
  "added_prevote C J E h r cs =
     sbind (cs_Prevotes cs r) (\<lambda>prevotes.
       let cs1 = unlock_by_polka C J r prevotes cs in
       if cs_Round cs1 \<le> r \<and> vt_HasTwoThirdsAny prevotes then
         sbind (enterNewRound C J E h r cs1) (\<lambda>cs2.
           if vt_HasTwoThirdsMajority prevotes then enterPrecommit C J E h r cs2
           else sbind (enterPrevote C J E h r cs2) (enterPrevoteWait E h r))
       else if (case cs_Proposal cs1 of None \<Rightarrow> False | Some p \<Rightarrow> 0 \<le> p_POLRound p \<and> p_POLRound p = r) then
         sbind (isProposalComplete cs1) (\<lambda>complete.
           if complete then enterPrevote C J E h (cs_Round cs1) cs1 else Inr cs1)
       else Inr cs1)"

definition added_precommit ::
    "('pub, 'sig) crypto \<Rightarrow> coding \<Rightarrow> 'tx env \<Rightarrow> int \<Rightarrow> int \<Rightarrow> ('tx, 'pub, 'sig, 'priv) ConsensusState \<Rightarrow> ('tx, 'pub, 'sig, 'priv) cs_res" where
  "added_precommit C J E h r cs =
     sbind (cs_Precommits cs r) (\<lambda>precommits.
       case vt_TwoThirdsMajority precommits of
         (b, ok) \<Rightarrow>
           if ok then
             if length b = 0 then enterNewRound C J E h (r + 1) cs
             else
               sbind (enterNewRound C J E h r cs) (\<lambda>cs1.
                 sbind (enterPrecommit C J E h r cs1) (\<lambda>cs2.
                   sbind (enterCommit C J E h r cs2) (\<lambda>cs3.
                     if cf_skipTimeoutCommit (en_cfg E) \<and> (case precommits of None \<Rightarrow> False | Some V \<Rightarrow> vt_HasAll V)
                     then enterNewRound C J E (cs_Height cs3) 0 cs3 else Inr cs3)))
           else if cs_Round cs \<le> r \<and> vt_HasTwoThirdsAny precommits then
             sbind (enterNewRound C J E h r cs) (\<lambda>cs1.
               sbind (enterPrecommit C J E h r cs1) (enterPrecommitWait E h r))
           else Inr cs)"

definition cs_addVote ::
    "('pub, 'sig) crypto \<Rightarrow> coding \<Rightarrow> 'tx env \<Rightarrow> vote \<Rightarrow> string \<Rightarrow> ('tx, 'pub, 'sig, 'priv) ConsensusState
      \<Rightarrow> tm_err + cs_err option \<times> ('tx, 'pub, 'sig, 'priv) ConsensusState" where
  "cs_addVote C J E v peerID cs =
     (if v_Height v \<noteq> cs_Height cs then Inr (Some ErrVoteHeightMismatch, cs)
      else
        let cs1 = begin_cons E cs in
        case cs_Votes cs1 of
          None \<Rightarrow> Inl TmPanic
        | Some H \<Rightarrow>
            (case hv_AddVote C H v peerID of
               ((added, err), H1) \<Rightarrow>
                 let cs2 = cs1\<lparr>cs_Votes := Some H1\<rparr>; h = cs_Height cs2 in
                 if err = Some (AErr TmPanic) then Inl TmPanic
                 else
                   sbind
                     (if \<not> added then Inr cs2
                      else
                        let cs3 = cs_emit (Ev_HasVote (v_Height v) (v_Round v) (v_Type v) (v_ValidatorIndex v)) cs2 in
                        if v_Type v = VoteTypePrevote then added_prevote C J E h (v_Round v) cs3
                        else if v_Type v = VoteTypePrecommit then added_precommit C J E h (v_Round v) cs3
                        else Inl TmPanic)
                     (\<lambda>cs4. Inr (map_option CErr err, cs4))))"

definition tryAddVote ::
    "('pub, 'sig) crypto \<Rightarrow> coding \<Rightarrow> 'tx env \<Rightarrow> vote \<Rightarrow> string \<Rightarrow> ('tx, 'pub, 'sig, 'priv) ConsensusState
      \<Rightarrow> tm_err + cs_err option \<times> ('tx, 'pub, 'sig, 'priv) ConsensusState" where
  "tryAddVote C J E v peerID cs =
     sbind (cs_addVote C J E v peerID cs) (\<lambda>(err, cs1).
       case err of
         None \<Rightarrow> Inr (None, cs1)
       | Some (CErr (AConflict d)) \<Rightarrow>
           (case cs_privValidator cs1 of
              None \<Rightarrow> Inl TmPanic
            | Some pv \<Rightarrow>
                if v_ValidatorAddress v = pv_Address pv then Inr (err, cs1)
                else case pool_AddEvidence C J (cs_evpool cs1) d of
                  (res, P) \<Rightarrow> if res = Inl (EErr TmPanic) then Inl TmPanic else Inr (err, cs1\<lparr>cs_evpool := P\<rparr>))
       | Some ErrVoteHeightMismatch \<Rightarrow> Inr (err, cs1)
       | _ \<Rightarrow> Inr (Some ErrAddingVote, cs1))"

text \<open>The errors of the handlers are logged only.\<close>

definition handleMsg ::
    "('pub, 'sig) crypto \<Rightarrow> coding \<Rightarrow> 'tx env \<Rightarrow> 'tx msg \<Rightarrow> string \<Rightarrow> ('tx, 'pub, 'sig, 'priv) ConsensusState \<Rightarrow> ('tx, 'pub, 'sig, 'priv) cs_res" where
  "handleMsg C J E m peerID cs =
     (case m of
        Msg_Proposal p \<Rightarrow> sbind (defaultSetProposal C E p cs) (\<lambda>(_, cs1). Inr cs1)
      | Msg_Block b \<Rightarrow> addProposalBlock C J E b cs
      | Msg_Vote v \<Rightarrow> sbind (tryAddVote C J E v peerID cs) (\<lambda>(_, cs1). Inr cs1)
      | Msg_Unknown \<Rightarrow> Inr cs)"

definition handleTimeout ::
    "('pub, 'sig) crypto \<Rightarrow> coding \<Rightarrow> 'tx env \<Rightarrow> timeoutInfo \<Rightarrow> ('tx, 'pub, 'sig, 'priv) ConsensusState \<Rightarrow> ('tx, 'pub, 'sig, 'priv) cs_res" where
  "handleTimeout C J E ti cs =
     (if ti_Height ti \<noteq> cs_Height cs \<or> ti_Round ti < cs_Round cs \<or> ti_Round ti = cs_Round cs \<and> ti_Step ti < cs_Step cs then Inr cs
      else if ti_Step ti = RoundStepNewHeight then enterNewRound C J E (ti_Height ti) 0 cs
      else if ti_Step ti = RoundStepNewRound then enterPropose C J E (ti_Height ti) 0 cs
      else if ti_Step ti = RoundStepPropose then enterPrevote C J E (ti_Height ti) (ti_Round ti) cs
      else if ti_Step ti = RoundStepPrevoteWait then enterPrecommit C J E (ti_Height ti) (ti_Round ti) cs
      else if ti_Step ti = RoundStepPrecommitWait then enterNewRound C J E (ti_Height ti) (ti_Round ti + 1) cs
      else Inl TmPanic)"

definition handleTxsAvailable ::
    "('pub, 'sig) crypto \<Rightarrow> coding \<Rightarrow> 'tx env \<Rightarrow> int \<Rightarrow> ('tx, 'pub, 'sig, 'priv) ConsensusState \<Rightarrow> ('tx, 'pub, 'sig, 'priv) cs_res" where
  "handleTxsAvailable C J E h cs = enterPropose C J E h 0 cs"

text \<open>One round of the loop of \<open>checkTxsAvailable\<close>: the height it passes on, if any.\<close>

definition checkTxsAvailable :: "int \<Rightarrow> ('tx, 'pub, 'sig, 'priv) ConsensusState \<Rightarrow> tm_err + int option" where
  "checkTxsAvailable h cs =
     (if cs_Height cs \<noteq> h then Inr None
      else sbind (isProposalComplete cs) (\<lambda>complete. Inr (if complete then None else Some h)))"

text \<open>What peers ask of the votes, and what they claim of them.\<close>

definition cs_SetPeerMaj23 ::
    "int \<Rightarrow> int \<Rightarrow> nat \<Rightarrow> string \<Rightarrow> blockID \<Rightarrow> ('tx, 'pub, 'sig, 'priv) ConsensusState \<Rightarrow> ('tx, 'pub, 'sig, 'priv) cs_res" where
  "cs_SetPeerMaj23 h r t peerID b cs =
     (if h \<noteq> cs_Height cs then Inr cs
      else case cs_Votes cs of
        None \<Rightarrow> Inl TmPanic
      | Some H \<Rightarrow> sbind (hv_SetPeerMaj23 H r t peerID b) (\<lambda>H1. Inr (cs\<lparr>cs_Votes := Some H1\<rparr>)))"

definition CompareHRS :: "int \<Rightarrow> int \<Rightarrow> nat \<Rightarrow> int \<Rightarrow> int \<Rightarrow> nat \<Rightarrow> int" where
  "CompareHRS h1 r1 s1 h2 r2 s2 =
     (if h1 < h2 then -1 else if h1 > h2 then 1
      else if r1 < r2 then -1 else if r1 > r2 then 1
      else if s1 < s2 then -1 else if s1 > s2 then 1 else 0)"

text \<open>The start: \<open>reconstructLastCommit\<close> with the answer of \<open>LoadSeenCommit\<close>, and \<open>NewConsensusState\<close>.\<close>

fun add_precommits :: "('pub, 'sig) crypto \<Rightarrow> vote option list \<Rightarrow> VoteSet \<Rightarrow> tm_err + VoteSet" where
  "add_precommits C [] V = Inr V"
| "add_precommits C (item # items) V =
     (if \<not> has_sig item then add_precommits C items V
      else case vt_AddVote C (Some V) item of
        ((added, err), Some V') \<Rightarrow> if \<not> added \<or> err \<noteq> None then Inl TmPanic else add_precommits C items V'
      | _ \<Rightarrow> Inl TmPanic)"

definition reconstructLastCommit ::
    "('pub, 'sig) crypto \<Rightarrow> commit option \<Rightarrow> State \<Rightarrow> ('tx, 'pub, 'sig, 'priv) ConsensusState \<Rightarrow> ('tx, 'pub, 'sig, 'priv) cs_res" where
  "reconstructLastCommit C seenCommit s cs =
     (if st_LastBlockHeight s = 0 then Inr cs
      else case (seenCommit, st_LastValidators s) of
        (Some c, Some lastVals) \<Rightarrow>
          sbind (commit_Round c) (\<lambda>r.
            sbind (NewVoteSet (st_ChainID s) (st_LastBlockHeight s) r VoteTypePrecommit lastVals) (\<lambda>V.
              sbind (add_precommits C (c_Precommits c) V) (\<lambda>V1.
                if \<not> vt_HasTwoThirdsMajority (Some V1) then Inl TmPanic
                else Inr (cs\<lparr>cs_LastCommit := Some V1\<rparr>))))
      | _ \<Rightarrow> Inl TmPanic)"

definition zero_state :: State where
  "zero_state = \<lparr>st_ChainID = [], st_LastBlockHeight = 0, st_LastBlockTotalTx = 0, st_LastBlockID = [], st_LastBlockTime = 0,
     st_Validators = None, st_LastValidators = None, st_LastHeightValidatorsChanged = 0, st_ConsensusParams = zero_params,
     st_LastHeightConsensusParamsChanged = 0, st_LastResultsHash = [], st_AppHash = []\<rparr>"

definition NewConsensusState ::
    "('pub, 'sig) crypto \<Rightarrow> 'tx env \<Rightarrow> commit option \<Rightarrow> EvidencePool \<Rightarrow> State \<Rightarrow> ('tx, 'pub, 'sig, 'priv) cs_res" where
  "NewConsensusState C E seenCommit P s =
     sbind (updateToState E s
       \<lparr>cs_privValidator = None, cs_evpool = P, cs_Height = 0, cs_Round = 0, cs_Step = 0, cs_StartTime = 0,
        cs_CommitTime = None, cs_Validators = None, cs_Proposal = None, cs_ProposalBlock = None, cs_LockedRound = 0,
        cs_LockedBlock = None, cs_Votes = None, cs_CommitRound = 0, cs_LastCommit = None, cs_LastValidators = None,
        cs_state = zero_state, cs_broadcastChannel = False, cs_nSteps = 0, cs_begCons = None, cs_ProposalBlockHash = [],
        cs_out = []\<rparr>)
     (reconstructLastCommit C seenCommit s)"

text \<open>
  \<open>StartConsensus\<close>: the state is the genesis state, or the saved one with the block id of its seen commit;
  then the validators the chain names are put in.
\<close>

definition start_state ::
    "('pub, 'sig) crypto \<Rightarrow> GenesisDoc \<Rightarrow> 'tx env \<Rightarrow> int \<Rightarrow> (pb_State \<times> commit option) option \<Rightarrow> exec_err + State" where
  "start_state C doc E curHeight blockInfo =
     (case blockInfo of
        None \<Rightarrow> if curHeight \<noteq> 0 then Inl (EErr TmPanic) else MakeGenesisState C (en_now E) doc
      | Some (p, seenCommit) \<Rightarrow>
          (case LoadState p of
             Inl e \<Rightarrow> Inl e
           | Inr s \<Rightarrow> Inr (case seenCommit of None \<Rightarrow> s | Some c \<Rightarrow> s\<lparr>st_LastBlockID := c_BlockID c\<rparr>)))"

definition StartConsensus ::
    "('pub, 'sig) crypto \<Rightarrow> GenesisDoc \<Rightarrow> 'tx env \<Rightarrow> int \<Rightarrow> (pb_State \<times> commit option) option \<Rightarrow> (int \<Rightarrow> block_info)
      \<Rightarrow> evidence_db \<Rightarrow> ('pub, 'sig, 'priv) PrivValidatorImp \<Rightarrow> exec_err + ('tx, 'pub, 'sig, 'priv) ConsensusState" where
  "StartConsensus C doc E curHeight blockInfo query evs pv =
     (case start_state C doc E curHeight blockInfo of
        Inl e \<Rightarrow> Inl e
      | Inr s0 \<Rightarrow>
          (case next_validators C E curHeight s0 of
             Inl e \<Rightarrow> Inl (EErr e)
           | Inr s \<Rightarrow>
               let P = \<lparr>ep_store = evs, ep_stateDB = \<lparr>db_state = s, db_query = query\<rparr>, ep_state = s, ep_chan = []\<rparr>
               in case NewConsensusState C E (Option.bind blockInfo snd) P s of
                 Inl e \<Rightarrow> Inl (EErr e)
               | Inr cs \<Rightarrow>
                   let cs1 = cs\<lparr>cs_privValidator := Some (pv_ResetLastHeight pv (st_LastBlockHeight s)), cs_broadcastChannel := True\<rparr>
                   in Inr (scheduleRound0 (en_now E) cs1)))"

text \<open>One round of the loop of \<open>receiveRoutine\<close>, by what the \<open>select\<close> receives, or a claim of a peer.\<close>

datatype 'tx input =
    In_TxsAvailable int | In_Msg "'tx msg" string | In_Timeout timeoutInfo | In_PeerMaj23 int int nat string blockID

definition receive ::
    "('pub, 'sig) crypto \<Rightarrow> coding \<Rightarrow> 'tx env \<Rightarrow> 'tx input \<Rightarrow> ('tx, 'pub, 'sig, 'priv) ConsensusState \<Rightarrow> ('tx, 'pub, 'sig, 'priv) cs_res" where
  "receive C J E i cs =
     (case i of
        In_TxsAvailable h \<Rightarrow> handleTxsAvailable C J E h cs
      | In_Msg m peerID \<Rightarrow> handleMsg C J E m peerID cs
      | In_Timeout ti \<Rightarrow> handleTimeout C J E ti cs
      | In_PeerMaj23 h r t peerID b \<Rightarrow> cs_SetPeerMaj23 h r t peerID b cs)"

end
