(* ===== verification/TmProtocol.thy ===== *)
theory TmProtocol
  imports TmExecution
begin

text \<open>
  The protocol that the consensus state machine of \<open>consensus_state.go\<close> is meant to follow: what a validator
  may do with the majorities of votes it knows. The state keeps the height, round and step, the lock (round
  and block), the majorities known at the height (vote type, round, block), the votes signed (height, round,
  type, block), the timeouts scheduled (height, round) and the last block decided. Validators that follow
  the protocol agree on the block of every height, if the others have less than a third of the power.
\<close>

section \<open>One validator\<close>

type_synonym pvote = "int \<times> int \<times> nat \<times> blockID"

record proto =
  pr_h :: int
  pr_r :: int
  pr_s :: nat
  pr_lock :: "(int \<times> blockID) option"
  pr_maj :: "(nat \<times> int \<times> blockID) set"
  pr_sent :: "pvote list"
  pr_due :: "(int \<times> int) set"
  pr_last :: "int \<times> blockID"

text \<open>
  The steps. A vote is signed or not (a node that is no validator, or whose signer fails, signs none), and a
  prevote is for the lock, if there is one. \<open>K\<close> bounds the majorities that may become known (height, type,
  round, block). A failed commit gives up the lock; the steps of a \<open>safe\<close> run have none.
\<close>

definition opt_vote :: "pvote \<Rightarrow> pvote list \<Rightarrow> bool" where
  "opt_vote v vs \<longleftrightarrow> vs = [] \<or> vs = [v]"

inductive pstep :: "bool \<Rightarrow> (int \<times> nat \<times> int \<times> blockID) set \<Rightarrow> proto \<Rightarrow> proto \<Rightarrow> bool"
  for safe K where
  p_advance: "pr_r p < r \<or> pr_r p = r \<and> pr_s p \<le> s \<Longrightarrow> pstep safe K p (p\<lparr>pr_r := r, pr_s := s\<rparr>)"
| p_schedule: "pstep safe K p (p\<lparr>pr_due := insert (pr_h p, pr_r p) (pr_due p)\<rparr>)"
| p_learn: "pr_maj p \<subseteq> M \<Longrightarrow> \<forall>(t, r, b) \<in> M. (pr_h p, t, r, b) \<in> K \<Longrightarrow> pstep safe K p (p\<lparr>pr_maj := M\<rparr>)"
| p_prevote: "pr_s p < 4 \<Longrightarrow> \<forall>lr b0. pr_lock p = Some (lr, b0) \<longrightarrow> b = b0 \<Longrightarrow> opt_vote (pr_h p, pr_r p, 1, b) vs
    \<Longrightarrow> pstep safe K p (p\<lparr>pr_s := 4, pr_sent := pr_sent p @ vs\<rparr>)"
| p_lock: "pr_s p < 6 \<Longrightarrow> b \<noteq> [] \<Longrightarrow> (1, pr_r p, b) \<in> pr_maj p \<Longrightarrow> opt_vote (pr_h p, pr_r p, 2, b) vs
    \<Longrightarrow> pstep safe K p (p\<lparr>pr_s := 6, pr_lock := Some (pr_r p, b), pr_sent := pr_sent p @ vs\<rparr>)"
| p_nil: "pr_s p < 6 \<Longrightarrow> L = pr_lock p \<or> L = None \<and> (1, pr_r p, b) \<in> pr_maj p \<and> (\<forall>lr b0. pr_lock p = Some (lr, b0) \<longrightarrow> b \<noteq> b0)
    \<Longrightarrow> opt_vote (pr_h p, pr_r p, 2, []) vs \<Longrightarrow> pstep safe K p (p\<lparr>pr_s := 6, pr_lock := L, pr_sent := pr_sent p @ vs\<rparr>)"
| p_unlock: "pr_lock p = Some (lr, b0) \<Longrightarrow> (1, r, b) \<in> pr_maj p \<Longrightarrow> lr < r \<Longrightarrow> r \<le> pr_r p \<Longrightarrow> b \<noteq> b0
    \<Longrightarrow> pstep safe K p (p\<lparr>pr_lock := None\<rparr>)"
| p_commit: "(2, r, b) \<in> pr_maj p \<Longrightarrow> b \<noteq> []
    \<Longrightarrow> pstep safe K p (p\<lparr>pr_h := pr_h p + 1, pr_r := 0, pr_s := 1, pr_lock := None, pr_maj := {}, pr_last := (pr_h p, b)\<rparr>)"
| p_fail: "\<not> safe \<Longrightarrow> (2, r, b) \<in> pr_maj p \<Longrightarrow> b \<noteq> [] \<Longrightarrow> pstep safe K p (p\<lparr>pr_lock := None\<rparr>)"

text \<open>
  What every state of a validator satisfies: the votes signed are of the past, one for each height, round and
  type, and in the order of the rounds; a lock has a majority of prevotes; timeouts are of the past.
\<close>

definition pv_key :: "pvote \<Rightarrow> int \<times> int \<times> nat" where
  "pv_key v = (fst v, fst (snd v), fst (snd (snd v)))"

definition vote_past :: "proto \<Rightarrow> pvote \<Rightarrow> bool" where
  "vote_past p v \<longleftrightarrow> (case v of (h, r, t, b) \<Rightarrow> (t = 1 \<or> t = 2) \<and> h \<le> pr_h p \<and> (h = pr_h p \<longrightarrow> r \<le> pr_r p
     \<and> (r = pr_r p \<longrightarrow> (t = 1 \<longrightarrow> 4 \<le> pr_s p) \<and> (t = 2 \<longrightarrow> 6 \<le> pr_s p))))"

definition in_order :: "pvote \<Rightarrow> pvote \<Rightarrow> bool" where
  "in_order v w \<longleftrightarrow> fst v \<le> fst w \<and> (fst v = fst w \<longrightarrow> fst (snd v) \<le> fst (snd w)) \<and> pv_key v \<noteq> pv_key w"

definition pinv :: "proto \<Rightarrow> bool" where
  "pinv p \<longleftrightarrow> (\<forall>v \<in> set (pr_sent p). vote_past p v) \<and> sorted_wrt in_order (pr_sent p)
     \<and> (\<forall>lr b. pr_lock p = Some (lr, b) \<longrightarrow> b \<noteq> [] \<and> lr \<le> pr_r p \<and> (1, lr, b) \<in> pr_maj p)
     \<and> (\<forall>(h, r) \<in> pr_due p. h \<le> pr_h p \<and> (h = pr_h p \<longrightarrow> r \<le> pr_r p))"

lemma pinvD:
  assumes "pinv p"
  shows "v \<in> set (pr_sent p) \<Longrightarrow> vote_past p v" and "sorted_wrt in_order (pr_sent p)"
    and "pr_lock p = Some (lr, b) \<Longrightarrow> b \<noteq> [] \<and> lr \<le> pr_r p \<and> (1, lr, b) \<in> pr_maj p"
    and "(h, r) \<in> pr_due p \<Longrightarrow> h \<le> pr_h p \<and> (h = pr_h p \<longrightarrow> r \<le> pr_r p)"
  using assms by (auto simp: pinv_def)

lemma opt_vote_set: "opt_vote v vs \<Longrightarrow> w \<in> set vs \<Longrightarrow> w = v"
  by (auto simp: opt_vote_def)

lemma in_order_unique: "sorted_wrt in_order xs \<Longrightarrow> v \<in> set xs \<Longrightarrow> w \<in> set xs \<Longrightarrow> pv_key v = pv_key w \<Longrightarrow> v = w"
  by (induction xs) (auto simp: in_order_def)

text \<open>Signing a vote of the current round whose step was not taken keeps the votes in order.\<close>

lemma sign_in_order:
  assumes "pinv p" and "opt_vote (pr_h p, pr_r p, t, b) vs" and "t = 1 \<and> pr_s p < 4 \<or> t = 2 \<and> pr_s p < 6"
  shows "sorted_wrt in_order (pr_sent p @ vs)"
proof -
  have "in_order v (pr_h p, pr_r p, t, b)" if "v \<in> set (pr_sent p)" for v
    using pinvD(1) [OF assms(1) that] assms(3) by (auto simp: vote_past_def in_order_def pv_key_def)
  then show ?thesis
    using assms(2) pinvD(2) [OF assms(1)] by (auto simp: opt_vote_def sorted_wrt_append)
qed

lemma vote_past_mono:
  assumes "vote_past p v" and "pr_h p < pr_h q \<or> pr_h p = pr_h q \<and> (pr_r p < pr_r q \<or> pr_r p = pr_r q \<and> pr_s p \<le> pr_s q)"
  shows "vote_past q v"
  using assms by (auto simp: vote_past_def)

text \<open>Height, round and step only go up.\<close>

definition hrs_le :: "proto \<Rightarrow> proto \<Rightarrow> bool" where
  "hrs_le p q \<longleftrightarrow> pr_h p < pr_h q \<or> pr_h p = pr_h q \<and> (pr_r p < pr_r q \<or> pr_r p = pr_r q \<and> pr_s p \<le> pr_s q)"

lemma pstep_hrs: "pstep safe K p q \<Longrightarrow> hrs_le p q"
  by (induction rule: pstep.induct) (auto simp: hrs_le_def)

lemma pstep_sent: "pstep safe K p q \<Longrightarrow> \<exists>vs. pr_sent q = pr_sent p @ vs"
  by (induction rule: pstep.induct) auto

lemma pstep_pinv: "pstep safe K p q \<Longrightarrow> pinv p \<Longrightarrow> pinv q"
proof (induction rule: pstep.induct)
  case (p_prevote p b vs)
  have "sorted_wrt in_order (pr_sent p @ vs)"
    using sign_in_order [OF p_prevote.prems p_prevote.hyps(3)] p_prevote.hyps(1) by simp
  then show ?case
    using p_prevote by (auto simp: pinv_def vote_past_def dest: opt_vote_set)
next
  case (p_lock p b vs)
  have "sorted_wrt in_order (pr_sent p @ vs)"
    using sign_in_order [OF p_lock.prems p_lock.hyps(4)] p_lock.hyps(1) by simp
  then show ?case
    using p_lock by (auto simp: pinv_def vote_past_def dest: opt_vote_set)
next
  case (p_nil p L b vs)
  have "sorted_wrt in_order (pr_sent p @ vs)"
    using sign_in_order [OF p_nil.prems p_nil.hyps(3)] p_nil.hyps(1) by simp
  then show ?case
    using p_nil by (auto simp: pinv_def vote_past_def dest: opt_vote_set)
next
  case (p_advance p r s)
  have "vote_past (p\<lparr>pr_r := r, pr_s := s\<rparr>) v" if "v \<in> set (pr_sent p)" for v
    using vote_past_mono [OF pinvD(1) [OF p_advance.prems that]] p_advance.hyps by auto
  then show ?case
    using p_advance by (fastforce simp: pinv_def)
next
  case (p_commit r b p)
  have "vote_past q v" if "v \<in> set (pr_sent p)" "pr_h q = pr_h p + 1" for v q
    using vote_past_mono [OF pinvD(1) [OF p_commit.prems that(1)], of q] that(2) by auto
  then show ?case
    using p_commit by (fastforce simp: pinv_def)
qed (fastforce simp: pinv_def vote_past_def)+

text \<open>
  The lock discipline of safe runs, at the current height: a block that was precommitted had a majority of
  prevotes, and it is still the lock, unless a later round has a majority of prevotes for something else.
\<close>

definition kept :: "proto \<Rightarrow> int \<Rightarrow> blockID \<Rightarrow> bool" where
  "kept p r b \<longleftrightarrow> (1, r, b) \<in> pr_maj p \<and>
     ((\<exists>lr. pr_lock p = Some (lr, b) \<and> r \<le> lr) \<or> (\<exists>r' b'. r < r' \<and> r' \<le> pr_r p \<and> b' \<noteq> b \<and> (1, r', b') \<in> pr_maj p))"

definition plock :: "proto \<Rightarrow> bool" where
  "plock p \<longleftrightarrow> (\<forall>r b. (pr_h p, r, 2, b) \<in> set (pr_sent p) \<and> b \<noteq> [] \<longrightarrow> kept p r b)"

lemma plockD: "plock p \<Longrightarrow> (pr_h p, r, 2, b) \<in> set (pr_sent p) \<Longrightarrow> b \<noteq> [] \<Longrightarrow> kept p r b"
  by (simp add: plock_def)

text \<open>A precommit of the past is of an earlier round while the precommit of this round is not sent.\<close>

lemma past_precommit:
  assumes "pinv p" and "(pr_h p, r, 2, b) \<in> set (pr_sent p)" and "pr_s p < 6"
  shows "r < pr_r p"
  using pinvD(1) [OF assms(1,2)] assms(3) by (auto simp: vote_past_def)

lemma kept_round: "pinv p \<Longrightarrow> (pr_h p, r, 2, b) \<in> set (pr_sent p) \<Longrightarrow> r \<le> pr_r p"
  using pinvD(1) by (fastforce simp: vote_past_def)

lemma kept_mono:
  assumes "kept p r b" and "pr_maj p \<subseteq> pr_maj q" and "pr_lock q = pr_lock p" and "pr_r p \<le> pr_r q"
  shows "kept q r b"
proof (cases "\<exists>lr. pr_lock p = Some (lr, b) \<and> r \<le> lr")
  case True
  then show ?thesis
    using assms(1-3) unfolding kept_def by auto
next
  case False
  then obtain r' b' where "(1, r, b) \<in> pr_maj p" "r < r'" "r' \<le> pr_r p" "b' \<noteq> b" "(1, r', b') \<in> pr_maj p"
    using assms(1) unfolding kept_def by blast
  then show ?thesis
    using assms(2,4) unfolding kept_def by (intro conjI disjI2 exI [of _ r'] exI [of _ b']) auto
qed

lemma kept_later:
  assumes "kept p r b" and "pr_maj q = pr_maj p" and "pr_r q = pr_r p"
    and "(1, r', b') \<in> pr_maj p" and "r' \<le> pr_r p" and "\<And>lr. pr_lock p = Some (lr, b) \<Longrightarrow> r \<le> lr \<Longrightarrow> b' \<noteq> b \<and> r < r'"
  shows "kept q r b"
proof (cases "\<exists>lr. pr_lock p = Some (lr, b) \<and> r \<le> lr")
  case True
  then have "b' \<noteq> b \<and> r < r'"
    using assms(6) by blast
  then show ?thesis
    using assms(1-5) unfolding kept_def by (intro conjI disjI2 exI [of _ r'] exI [of _ b']) auto
next
  case False
  then show ?thesis
    using assms(1-3) unfolding kept_def by auto
qed

lemma pstep_plock: "pstep True K p q \<Longrightarrow> pinv p \<Longrightarrow> plock p \<Longrightarrow> plock q"
proof (induction rule: pstep.induct)
  case (p_prevote p b vs)
  have "kept (p\<lparr>pr_s := 4, pr_sent := pr_sent p @ vs\<rparr>) r b' = kept p r b'" for r b'
    by (simp add: kept_def)
  then show ?case
    using p_prevote by (auto simp: plock_def dest: opt_vote_set)
next
  case (p_lock p b vs)
  let ?q = "p\<lparr>pr_s := 6, pr_lock := Some (pr_r p, b), pr_sent := pr_sent p @ vs\<rparr>"
  have "kept ?q r b'" if "(pr_h p, r, 2, b') \<in> set (pr_sent p)" "b' \<noteq> []" for r b'
    using plockD [OF p_lock.prems(2) that] past_precommit [OF p_lock.prems(1) that(1)] p_lock.hyps(1,3)
    by (auto simp: kept_def)
  moreover have "kept ?q (pr_r p) b"
    using p_lock.hyps(3) by (simp add: kept_def)
  ultimately show ?case
    using p_lock.hyps(4) by (auto simp: plock_def dest: opt_vote_set)
next
  case (p_nil p L b vs)
  let ?q = "p\<lparr>pr_s := 6, pr_lock := L, pr_sent := pr_sent p @ vs\<rparr>"
  have "kept ?q r b'" if v: "(pr_h p, r, 2, b') \<in> set (pr_sent p)" "b' \<noteq> []" for r b'
  proof (cases "L = pr_lock p")
    case True
    then show ?thesis
      using kept_mono [OF plockD [OF p_nil.prems(2) v], of ?q] by simp
  next
    case False
    then have "(1, pr_r p, b) \<in> pr_maj p" "\<forall>lr b0. pr_lock p = Some (lr, b0) \<longrightarrow> b \<noteq> b0"
      using p_nil.hyps(2) by auto
    then show ?thesis
      using kept_later [OF plockD [OF p_nil.prems(2) v], of ?q "pr_r p" b] past_precommit [OF p_nil.prems(1) v(1) p_nil.hyps(1)] by auto
  qed
  then show ?case
    using p_nil.hyps(3) by (auto simp: plock_def dest: opt_vote_set)
next
  case (p_commit r b p)
  have False if "(pr_h p + 1, r, t, b') \<in> set (pr_sent p)" for r t b'
    using pinvD(1) [OF p_commit.prems(1) that] by (simp add: vote_past_def)
  then show ?case
    by (auto simp: plock_def)
next
  case (p_advance p r s)
  then show ?case
    using kept_mono [of p _ _ "p\<lparr>pr_r := r, pr_s := s\<rparr>"] by (auto simp: plock_def)
next
  case (p_learn p M)
  then show ?case
    using kept_mono [of p _ _ "p\<lparr>pr_maj := M\<rparr>"] by (auto simp: plock_def)
next
  case (p_unlock p lr b0 r b)
  have "kept (p\<lparr>pr_lock := None\<rparr>) r' b'" if "(pr_h p, r', 2, b') \<in> set (pr_sent p)" "b' \<noteq> []" for r' b'
    by (rule kept_later [OF plockD [OF p_unlock.prems(2) that], of _ r b]) (use p_unlock.hyps in auto)
  then show ?case
    by (simp add: plock_def)
qed (auto simp: plock_def kept_def)

text \<open>A prevote for another block than one precommitted before has a reason: a majority of a later round.\<close>

lemma prevote_reason:
  assumes "plock p" and "(pr_h p, r, 2, b) \<in> set (pr_sent p)" and "b \<noteq> []" and "b \<noteq> b'"
    and "\<forall>lr b0. pr_lock p = Some (lr, b0) \<longrightarrow> b' = b0"
  shows "\<exists>r'' b''. r < r'' \<and> r'' \<le> pr_r p \<and> b'' \<noteq> b \<and> (1, r'', b'') \<in> pr_maj p"
  using plockD [OF assms(1-3)] assms(4,5) by (auto simp: kept_def)

section \<open>The network\<close>

text \<open>
  The validators \<open>U\<close> with powers \<open>w\<close>, of which those in \<open>G\<close> follow the protocol. The log holds the votes they
  signed, in the order of signing. A majority is backed by the log if the validators of some quorum that
  follow the protocol have signed the vote.
\<close>

definition quorum :: "'n set \<Rightarrow> ('n \<Rightarrow> int) \<Rightarrow> 'n set \<Rightarrow> bool" where
  "quorum U w S \<longleftrightarrow> S \<subseteq> U \<and> 3 * sum w S > 2 * sum w U"

definition backed :: "'n set \<Rightarrow> ('n \<Rightarrow> int) \<Rightarrow> 'n set \<Rightarrow> ('n \<times> pvote) list \<Rightarrow> int \<times> nat \<times> int \<times> blockID \<Rightarrow> bool" where
  "backed U w G log m \<longleftrightarrow> (case m of (h, t, r, b) \<Rightarrow> \<exists>S. quorum U w S \<and> (\<forall>i \<in> S \<inter> G. (i, h, r, t, b) \<in> set log))"

lemma backed_mono: "backed U w G log m \<Longrightarrow> set log \<subseteq> set log' \<Longrightarrow> backed U w G log' m"
  by (cases m) (auto simp: backed_def)

lemma backed_append: "backed U w G log m \<Longrightarrow> backed U w G (log @ xs) m"
  by (rule backed_mono) auto

text \<open>
  Runs of the network, for one height \<open>h\<close> at which the validators are \<open>U\<close>: a validator of \<open>G\<close> takes a step, in
  which only backed majorities of the height may become known; its new votes are added to the log, and its
  decision, if it decides.
\<close>

definition known :: "'n set \<Rightarrow> ('n \<Rightarrow> int) \<Rightarrow> 'n set \<Rightarrow> int \<Rightarrow> ('n \<times> pvote) list \<Rightarrow> (int \<times> nat \<times> int \<times> blockID) set" where
  "known U w G h log = {m. fst m = h \<longrightarrow> backed U w G log m}"

definition new_votes :: "proto \<Rightarrow> proto \<Rightarrow> pvote list" where
  "new_votes p q = drop (length (pr_sent p)) (pr_sent q)"

definition decision :: "'n \<Rightarrow> proto \<Rightarrow> proto \<Rightarrow> ('n \<times> int \<times> blockID) set" where
  "decision i p q = (if pr_h p < pr_h q then {(i, pr_last q)} else {})"

inductive net :: "'n set \<Rightarrow> ('n \<Rightarrow> int) \<Rightarrow> 'n set \<Rightarrow> int \<Rightarrow> ('n \<Rightarrow> proto) \<Rightarrow> ('n \<times> pvote) list \<Rightarrow> ('n \<times> int \<times> blockID) set \<Rightarrow> bool"
  for U w G h where
  net_start: "\<forall>i \<in> G. pr_sent (ps i) = [] \<and> pr_lock (ps i) = None \<and> pr_maj (ps i) = {} \<and> pinv (ps i) \<Longrightarrow> net U w G h ps [] {}"
| net_step: "net U w G h ps log D \<Longrightarrow> i \<in> G \<Longrightarrow> pstep True (known U w G h log) (ps i) q
    \<Longrightarrow> net U w G h (ps(i := q)) (log @ map (Pair i) (new_votes (ps i) q)) (D \<union> decision i (ps i) q)"

text \<open>The invariant, in parts: every validator, its part of the log, its majorities and its decisions.\<close>

definition logged :: "('n \<times> pvote) list \<Rightarrow> 'n \<Rightarrow> pvote list" where
  "logged log i = map snd (filter (\<lambda>x. fst x = i) log)"

definition reasons :: "'n set \<Rightarrow> ('n \<Rightarrow> int) \<Rightarrow> 'n set \<Rightarrow> int \<Rightarrow> ('n \<times> pvote) list \<Rightarrow> bool" where
  "reasons U w G h log \<longleftrightarrow> (\<forall>k i r r' b b'. k < length log \<and> log ! k = (i, h, r', 1, b') \<and> (i, h, r, 2, b) \<in> set (take k log)
     \<and> b \<noteq> [] \<and> b \<noteq> b' \<longrightarrow> (\<exists>r'' b''. r < r'' \<and> b'' \<noteq> b \<and> backed U w G (take k log) (h, 1, r'', b'')))"

definition node_ok :: "'n set \<Rightarrow> ('n \<Rightarrow> int) \<Rightarrow> 'n set \<Rightarrow> int \<Rightarrow> ('n \<times> pvote) list \<Rightarrow> 'n \<Rightarrow> proto \<Rightarrow> bool" where
  "node_ok U w G h log i p \<longleftrightarrow> pinv p \<and> plock p \<and> logged log i = pr_sent p
     \<and> (pr_h p = h \<longrightarrow> (\<forall>(t, r, b) \<in> pr_maj p. backed U w G log (h, t, r, b)))"

definition net_inv :: "'n set \<Rightarrow> ('n \<Rightarrow> int) \<Rightarrow> 'n set \<Rightarrow> int \<Rightarrow> ('n \<Rightarrow> proto) \<Rightarrow> ('n \<times> pvote) list \<Rightarrow> ('n \<times> int \<times> blockID) set \<Rightarrow> bool" where
  "net_inv U w G h ps log D \<longleftrightarrow> (\<forall>i \<in> G. node_ok U w G h log i (ps i)) \<and> reasons U w G h log
     \<and> (\<forall>i r b. (i, h, r, 2, b) \<in> set log \<and> b \<noteq> [] \<longrightarrow> backed U w G log (h, 1, r, b))
     \<and> (\<forall>i b. (i, h, b) \<in> D \<longrightarrow> (\<exists>r. b \<noteq> [] \<and> backed U w G log (h, 2, r, b)))"

lemma pstep_vote:
  assumes "pstep safe K p q"
  shows "\<exists>vs. pr_sent q = pr_sent p @ vs \<and> (vs = [] \<or> (\<exists>t b. vs = [(pr_h p, pr_r p, t, b)]
    \<and> (t = 1 \<and> (\<forall>lr b0. pr_lock p = Some (lr, b0) \<longrightarrow> b = b0) \<or> t = 2 \<and> (b \<noteq> [] \<longrightarrow> (1, pr_r p, b) \<in> pr_maj p))))"
  using assms by (induction rule: pstep.induct) (auto simp: opt_vote_def)

lemma pstep_maj:
  assumes "pstep safe K p q"
  shows "pr_maj q = {} \<or> pr_h q = pr_h p \<and> (pr_maj q = pr_maj p \<or> (\<forall>(t, r, b) \<in> pr_maj q. (pr_h p, t, r, b) \<in> K))"
  using assms by (induction rule: pstep.induct) auto

lemma pstep_decide:
  assumes "pstep safe K p q" and "pr_h p < pr_h q"
  shows "\<exists>r b. pr_last q = (pr_h p, b) \<and> b \<noteq> [] \<and> (2, r, b) \<in> pr_maj p"
  using assms by (induction rule: pstep.induct) auto

lemma logged_append: "logged (log @ map (Pair i) vs) j = logged log j @ (if i = j then vs else [])"
  by (simp add: logged_def filter_map comp_def)

lemma logged_mem: "v \<in> set (logged log i) \<longleftrightarrow> (i, v) \<in> set log"
  by (force simp: logged_def)

lemma node_step:
  assumes ok: "node_ok U w G h log i p" and st: "pstep True (known U w G h log) p q" and vs: "pr_sent q = pr_sent p @ vs"
  shows "node_ok U w G h (log @ map (Pair i) vs) i q"
proof -
  have p: "pinv p" "plock p" "logged log i = pr_sent p"
    and maj: "pr_h p = h \<Longrightarrow> (t, r, b) \<in> pr_maj p \<Longrightarrow> backed U w G log (h, t, r, b)" for t r b
    using ok by (auto simp: node_ok_def)
  have "backed U w G log (h, t, r, b)" if "pr_h q = h" "(t, r, b) \<in> pr_maj q" for t r b
    using pstep_maj [OF st] that maj by (auto simp: known_def)
  then have "pr_h q = h \<longrightarrow> (\<forall>(t, r, b) \<in> pr_maj q. backed U w G (log @ map (Pair i) vs) (h, t, r, b))"
    by (auto intro!: backed_append)
  then show ?thesis
    using pstep_pinv [OF st p(1)] pstep_plock [OF st p(1,2)] p(3) vs by (simp add: node_ok_def logged_append)
qed

lemma node_other:
  assumes "node_ok U w G h log j p" and "i \<noteq> j"
  shows "node_ok U w G h (log @ map (Pair i) vs) j p"
  using assms by (auto simp: node_ok_def logged_append intro!: backed_append)

lemma reasonsD:
  assumes "reasons U w G h log" and "k < length log" and "log ! k = (i, h, r', 1, b')" and "(i, h, r, 2, b) \<in> set (take k log)"
    and "b \<noteq> []" and "b \<noteq> b'"
  shows "\<exists>r'' b''. r < r'' \<and> b'' \<noteq> b \<and> backed U w G (take k log) (h, 1, r'', b'')"
  using assms unfolding reasons_def by blast

lemma reasons_step:
  assumes old: "reasons U w G h log" and ok: "node_ok U w G h log i p" and st: "pstep True K p q"
    and vs: "pr_sent q = pr_sent p @ vs"
  shows "reasons U w G h (log @ map (Pair i) vs)"
proof -
  let ?log = "log @ map (Pair i) vs"
  have "\<exists>r'' b''. r < r'' \<and> b'' \<noteq> b \<and> backed U w G (take k ?log) (h, 1, r'', b'')"
    if k: "k < length ?log" "?log ! k = (j, h, r', 1, b')" and c: "(j, h, r, 2, b) \<in> set (take k ?log)" "b \<noteq> []" "b \<noteq> b'" for k j r r' b b'
  proof (cases "k < length log")
    case True
    then have t: "take k ?log = take k log" and l: "log ! k = (j, h, r', 1, b')"
      using k(2) by (simp_all add: nth_append)
    show ?thesis
      unfolding t by (rule reasonsD [OF old True l c(1) [unfolded t] c(2,3)])
  next
    case False
    obtain t b0 where v: "vs = [(pr_h p, pr_r p, t, b0)]" "t = 1 \<and> (\<forall>lr b1. pr_lock p = Some (lr, b1) \<longrightarrow> b0 = b1)
        \<or> t = 2 \<and> (b0 \<noteq> [] \<longrightarrow> (1, pr_r p, b0) \<in> pr_maj p)"
      using pstep_vote [OF st] vs k(1) False by auto
    then have kl: "k = length log" "take k ?log = log" "i = j" "pr_h p = h" "b0 = b'" "t = 1"
      using k False by (auto simp: nth_append)
    then have "(pr_h p, r, 2, b) \<in> set (pr_sent p)"
      using c(1) ok logged_mem [of "(h, r, 2, b)" log i] by (auto simp: node_ok_def)
    from prevote_reason [OF _ this c(2,3)] obtain r'' b'' where "r < r''" "b'' \<noteq> b" "(1, r'', b'') \<in> pr_maj p"
      using ok v(2) kl(5,6) by (auto simp: node_ok_def)
    then show ?thesis
      using ok kl(2,4) by (auto simp: node_ok_def)
  qed
  then show ?thesis
    unfolding reasons_def by blast
qed

lemma net_invD:
  assumes "net_inv U w G h ps log D"
  shows "i \<in> G \<Longrightarrow> node_ok U w G h log i (ps i)" and "reasons U w G h log"
    and "(i, h, r, 2, b) \<in> set log \<Longrightarrow> b \<noteq> [] \<Longrightarrow> backed U w G log (h, 1, r, b)"
    and "(i, h, b) \<in> D \<Longrightarrow> \<exists>r. b \<noteq> [] \<and> backed U w G log (h, 2, r, b)"
  using assms unfolding net_inv_def by blast+

lemma node_ok_order: "node_ok U w G h log i p \<Longrightarrow> sorted_wrt in_order (logged log i)"
  by (simp add: node_ok_def pinv_def)

lemma net_invariant: "net U w G h ps log D \<Longrightarrow> net_inv U w G h ps log D"
proof (induction rule: net.induct)
  case (net_start ps)
  then show ?case
    by (simp add: net_inv_def node_ok_def plock_def logged_def reasons_def)
next
  case (net_step ps log D i q)
  obtain vs where vs: "pr_sent q = pr_sent (ps i) @ vs" "vs = [] \<or> (\<exists>t b. vs = [(pr_h (ps i), pr_r (ps i), t, b)]
    \<and> (t = 1 \<and> (\<forall>lr b0. pr_lock (ps i) = Some (lr, b0) \<longrightarrow> b = b0) \<or> t = 2 \<and> (b \<noteq> [] \<longrightarrow> (1, pr_r (ps i), b) \<in> pr_maj (ps i))))"
    using pstep_vote [OF net_step.hyps(3)] by blast
  let ?log = "log @ map (Pair i) vs"
  have nv: "new_votes (ps i) q = vs"
    using vs(1) by (simp add: new_votes_def)
  have ok: "\<forall>j \<in> G. node_ok U w G h log j (ps j)" and re: "reasons U w G h log"
    and pc: "\<And>j r b. (j, h, r, 2, b) \<in> set log \<Longrightarrow> b \<noteq> [] \<Longrightarrow> backed U w G log (h, 1, r, b)"
    and de: "\<And>j b. (j, h, b) \<in> D \<Longrightarrow> \<exists>r. b \<noteq> [] \<and> backed U w G log (h, 2, r, b)"
    using net_invD [OF net_step.IH] by blast+
  have oki: "node_ok U w G h log i (ps i)"
    using ok net_step.hyps(2) by blast
  have maj: "backed U w G log (h, t, r, b)" if "pr_h (ps i) = h" "(t, r, b) \<in> pr_maj (ps i)" for t r b
    using oki that by (auto simp: node_ok_def)
  have 1: "node_ok U w G h ?log j ((ps(i := q)) j)" if "j \<in> G" for j
    using node_step [OF oki net_step.hyps(3) vs(1)] node_other [of U w G h log j "ps j" i vs] ok that by (cases "i = j") auto
  have 2: "backed U w G ?log (h, 1, r, b)" if "(j, h, r, 2, b) \<in> set ?log" "b \<noteq> []" for j r b
  proof -
    have "backed U w G log (h, 1, r, b)"
      using that vs(2) pc maj by auto
    then show ?thesis
      by (rule backed_append)
  qed
  have 3: "\<exists>r. b \<noteq> [] \<and> backed U w G ?log (h, 2, r, b)" if "(j, h, b) \<in> D \<union> decision i (ps i) q" for j b
  proof -
    have "\<exists>r. b \<noteq> [] \<and> backed U w G log (h, 2, r, b)"
      using that de pstep_decide [OF net_step.hyps(3)] maj by (fastforce simp: decision_def split: if_splits)
    then show ?thesis
      using backed_append by blast
  qed
  show ?case
    using 1 2 3 reasons_step [OF re oki net_step.hyps(3) vs(1)] unfolding net_inv_def nv by blast
qed

section \<open>Agreement\<close>

context weighted
begin

lemma quorums_meet_good:
  assumes "A \<subseteq> U" and "B \<subseteq> U" and "3 * sum w A > 2 * sum w U" and "3 * sum w B > 2 * sum w U"
    and "3 * sum w (U - G) < sum w U"
  shows "\<exists>x. x \<in> A \<and> x \<in> B \<and> x \<in> G"
proof (rule ccontr)
  assume "\<not> ?thesis"
  then have "A \<inter> B \<subseteq> U - G"
    using assms(1) by auto
  then have "sum w (A \<inter> B) \<le> sum w (U - G)"
    by (rule weight_mono) auto
  then show False
    using quorums_meet [OF assms(1-4)] assms(5) by linarith
qed

lemma backed_common:
  assumes "quorum U w S" and "backed U w G log (h, t, r, b)" and "3 * sum w (U - G) < sum w U"
  shows "\<exists>x \<in> S \<inter> G. (x, h, r, t, b) \<in> set log"
proof -
  obtain S' where "quorum U w S'" "\<forall>i \<in> S' \<inter> G. (i, h, r, t, b) \<in> set log"
    using assms(2) by (auto simp: backed_def)
  then show ?thesis
    using assms(1,3) quorums_meet_good [of S S' G] by (auto simp: quorum_def)
qed

text \<open>After a quorum precommitted a block, no majority of prevotes of a later round is for another.\<close>

lemma no_other_prevotes:
  assumes inv: "net_inv U w G h ps log D" and S: "quorum U w S" "\<forall>i \<in> S \<inter> G. (i, h, r, 2, b) \<in> set log"
    and byz: "3 * sum w (U - G) < sum w U" and b: "b \<noteq> []"
  shows "k < length log \<Longrightarrow> log ! k = (x, h, r', 1, b') \<Longrightarrow> x \<in> S \<inter> G \<Longrightarrow> r < r' \<Longrightarrow> b' = b"
proof (induction k arbitrary: x r' b' rule: less_induct)
  case (less k)
  show ?case
  proof (rule ccontr)
    assume "b' \<noteq> b"
    have x: "sorted_wrt in_order (logged log x)"
      using less.prems(3) by (intro node_ok_order [OF net_invD(1) [OF inv]]) simp
    have "(x, h, r, 2, b) \<in> set (take k log)"
    proof (rule ccontr)
      assume "(x, h, r, 2, b) \<notin> set (take k log)"
      then have "(x, h, r, 2, b) \<in> set (drop k log)"
        using S(2) less.prems(3) by (metis Un_iff append_take_drop_id set_append)
      moreover have "drop k log = log ! k # drop (Suc k) log"
        using less.prems(1) by (rule Cons_nth_drop_Suc [symmetric])
      ultimately have "(h, r, 2, b) \<in> set (logged (drop (Suc k) log) x)"
        using less.prems(2) by (simp add: logged_mem)
      moreover have "logged log x = logged (take k log) x @ (h, r', 1, b') # logged (drop (Suc k) log) x"
        using arg_cong [OF id_take_nth_drop [OF less.prems(1)], of "\<lambda>l. logged l x"] less.prems(2) by (simp add: logged_def)
      ultimately show False
        using x less.prems(4) by (auto simp: sorted_wrt_append in_order_def)
    qed
    then obtain r'' b'' where r'': "r < r''" "b'' \<noteq> b" "backed U w G (take k log) (h, 1, r'', b'')"
      using reasonsD [OF net_invD(2) [OF inv] less.prems(1,2)] b \<open>b' \<noteq> b\<close> by blast
    obtain y where y: "y \<in> S \<inter> G" "(y, h, r'', 1, b'') \<in> set (take k log)"
      using backed_common [OF S(1) r''(3) byz] by blast
    then obtain k' where "k' < k" "k' < length log" "log ! k' = (y, h, r'', 1, b'')"
      by (auto simp: in_set_conv_nth)
    then show False
      using less.IH y(1) r'' by blast
  qed
qed

lemma agreement_le:
  assumes inv: "net_inv U w G h ps log D" and byz: "3 * sum w (U - G) < sum w U"
    and "backed U w G log (h, 2, r, b)" "b \<noteq> []" and "backed U w G log (h, 2, r', b')" "b' \<noteq> []" and "r \<le> r'"
  shows "b = b'"
proof -
  obtain S where S: "quorum U w S" "\<forall>i \<in> S \<inter> G. (i, h, r, 2, b) \<in> set log"
    using assms(3) by (auto simp: backed_def)
  obtain x where x: "x \<in> S \<inter> G" "(x, h, r', 2, b') \<in> set log"
    using backed_common [OF S(1) assms(5) byz] by blast
  show ?thesis
  proof (cases "r = r'")
    case True
    have so: "sorted_wrt in_order (logged log x)"
      using x(1) by (intro node_ok_order [OF net_invD(1) [OF inv]]) simp
    have "(h, r, 2, b) \<in> set (logged log x)" "(h, r, 2, b') \<in> set (logged log x)"
      using S(2) x True by (auto simp: logged_mem)
    then show ?thesis
      using in_order_unique [OF so, of "(h, r, 2, b)" "(h, r, 2, b')"] by (simp add: pv_key_def)
  next
    case False
    have "backed U w G log (h, 1, r', b')"
      using x(2) assms(6) by (rule net_invD(3) [OF inv])
    then obtain y where y: "y \<in> S \<inter> G" "(y, h, r', 1, b') \<in> set log"
      using backed_common [OF S(1) _ byz] by blast
    then obtain k where "k < length log" "log ! k = (y, h, r', 1, b')"
      by (auto simp: in_set_conv_nth)
    then show ?thesis
      using no_other_prevotes [OF inv S byz assms(4) _ _ y(1)] False assms(7) by fastforce
  qed
qed

lemma agreement:
  assumes "net U w G h ps log D" and byz: "3 * sum w (U - G) < sum w U" and "(i, h, b) \<in> D" and "(j, h, b') \<in> D"
  shows "b = b'"
proof -
  have inv: "net_inv U w G h ps log D"
    using assms(1) by (rule net_invariant)
  obtain r r' where "b \<noteq> []" "backed U w G log (h, 2, r, b)" "b' \<noteq> []" "backed U w G log (h, 2, r', b')"
    using net_invD(4) [OF inv assms(3)] net_invD(4) [OF inv assms(4)] by blast
  then show ?thesis
    using agreement_le [OF inv byz] by (cases "r \<le> r'") (blast, metis linear)
qed

end

end
