(* ===== verification/VoteOrigin.thy ===== *)
theory VoteOrigin
  imports HeightVoteSet
begin

text \<open>
  Where the votes of a height vote set come from: every vote it stores was given to \<open>AddVote\<close>. So a
  majority is a set of votes that were given, validly signed, by validators with more than two thirds of
  the power.
\<close>

text \<open>Height vote sets reached with the votes of \<open>A\<close>.\<close>

inductive hv_from :: "vote set \<Rightarrow> ('pub, 'sig) crypto \<Rightarrow> string \<Rightarrow> int \<Rightarrow> ValidatorSet \<Rightarrow> HeightVoteSet \<Rightarrow> bool"
  for A C chainID h S where
  from_new: "NewHeightVoteSet chainID h S = Inr H \<Longrightarrow> hv_from A C chainID h S H"
| from_set: "hv_from A C chainID h S H \<Longrightarrow> 0 \<le> r \<Longrightarrow> hv_SetRound H r = Inr H' \<Longrightarrow> hv_from A C chainID h S H'"
| from_add: "hv_from A C chainID h S H \<Longrightarrow> v \<in> A \<Longrightarrow> hv_from A C chainID h S (snd (hv_AddVote C H v p))"
| from_peer: "hv_from A C chainID h S H \<Longrightarrow> hv_SetPeerMaj23 H r t p b = Inr H' \<Longrightarrow> hv_from A C chainID h S H'"

lemma hv_from_reach: "hv_from A C chainID h S H \<Longrightarrow> hv_reach C chainID h S H"
  by (induction rule: hv_from.induct) (auto intro: hv_reach.intros)

lemma hv_from_mono: "hv_from A C chainID h S H \<Longrightarrow> A \<subseteq> B \<Longrightarrow> hv_from B C chainID h S H"
  by (induction rule: hv_from.induct) (auto intro: hv_from.intros)

section \<open>Stored votes\<close>

definition stored :: "VoteSet \<Rightarrow> vote set" where
  "stored V = {v. Some v \<in> set (vt_votes V) \<or> (\<exists>k bv. vt_votesByBlock V k = Some bv \<and> Some v \<in> set (bv_votes bv))}"

definition hv_stored :: "HeightVoteSet \<Rightarrow> vote set" where
  "hv_stored H = {v. \<exists>r rvs. hv_roundVoteSets H r = Some rvs \<and> v \<in> stored (rv_Prevotes rvs) \<union> stored (rv_Precommits rvs)}"

lemma stored_new [simp]: "NewVoteSet c h r t S = Inr V \<Longrightarrow> stored V = {}"
  by (auto simp: NewVoteSet_def stored_def split: if_splits)

lemma set_upd: "Some v \<in> set (xs[i := Some w]) \<Longrightarrow> v = w \<or> Some v \<in> set xs"
  using set_update_subset_insert [of xs i "Some w"] by auto

lemma bv_add_stored: "Some v \<in> set (bv_votes (bv_addVerifiedVote bv w p)) \<Longrightarrow> v = w \<or> Some v \<in> set (bv_votes bv)"
  by (auto simp: bv_addVerifiedVote_def Let_def split: if_splits dest: set_upd)

lemma copy_votes_stored: "Some v \<in> set (copy_votes xs ys) \<Longrightarrow> Some v \<in> set xs \<or> Some v \<in> set ys"
  by (auto simp: copy_votes_def set_zip split: if_splits)

lemma add_canonical_stored:
  assumes "add_canonical V v k p = Inr (c, V1)"
  shows "stored V1 \<subseteq> insert v (stored V)"
  using assms by (auto simp: add_canonical_def Let_def stored_def split: option.splits if_splits dest: set_upd)

lemma add_to_block_stored:
  assumes "\<forall>w. Some w \<in> set (bv_votes bv) \<longrightarrow> w \<in> insert v (stored V)"
  shows "stored (add_to_block V bv v k p) \<subseteq> insert v (stored V)"
proof -
  have b: "w \<in> insert v (stored V)" if "Some w \<in> set (bv_votes (bv_addVerifiedVote bv v p))" for w
    using bv_add_stored [OF that] assms by auto
  have "w \<in> insert v (stored V)" if "w \<in> stored (add_to_block V bv v k p)" for w
    using that b copy_votes_stored
    by (auto simp: stored_def add_to_block_def Let_def case_prod_beta split: if_splits)
  then show ?thesis
    by blast
qed

lemma addVerifiedVote_stored:
  assumes "vt_addVerifiedVote V v k p = Inr (r, V')"
  shows "stored V' \<subseteq> insert v (stored V)"
proof -
  obtain c V1 where c: "add_canonical V v k p = Inr (c, V1)"
    using assms by (auto simp: vt_addVerifiedVote_def split: sum.splits prod.splits)
  have 1: "stored V1 \<subseteq> insert v (stored V)"
    by (rule add_canonical_stored [OF c])
  have 2: "\<forall>w. Some w \<in> set (bv_votes bv) \<longrightarrow> w \<in> insert v (stored V1)" if "vt_votesByBlock V1 k = Some bv" for bv
    using that by (auto simp: stored_def)
  have 3: "\<forall>w. Some w \<in> set (bv_votes (newBlockVotes False n)) \<longrightarrow> w \<in> insert v (stored V1)" for n
    by (auto simp: newBlockVotes_def)
  show ?thesis
    using assms 1 add_to_block_stored [OF 2, of _ k p] add_to_block_stored [OF 3, of _ k p]
    by (auto simp: vt_addVerifiedVote_def c split: option.splits if_splits)
qed

lemma addVote_stored: "stored (snd (vt_addVote C V (Some v))) \<subseteq> insert v (stored V)"
proof -
  have "stored (snd (addVote_of C V v val)) \<subseteq> insert v (stored V)" for val
    using addVerifiedVote_stored [of V v "bid_Key (v_BlockID v)" "val_VotingPower val"]
    unfolding addVote_of_def by (auto split: option.splits sum.splits prod.splits)
  then show ?thesis
    unfolding vt_addVote_def by (auto split: option.splits)
qed

lemma SetPeerMaj23_stored: "stored (vt_SetPeerMaj23 V p b) \<subseteq> stored V"
  by (auto simp: vt_SetPeerMaj23_def stored_def Let_def newBlockVotes_def split: option.splits if_splits)

lemma addRound_stored: "hv_addRound H r = Inr H' \<Longrightarrow> hv_stored H' \<subseteq> hv_stored H"
  by (auto simp: hv_addRound_def hv_stored_def split: if_splits sum.splits) blast+

lemma addRounds_stored: "addRounds H rs = Inr H' \<Longrightarrow> hv_stored H' \<subseteq> hv_stored H"
  by (induction H rs rule: addRounds.induct) (auto split: if_splits sum.splits dest!: addRound_stored)

lemma put_stored: "hv_stored (hv_put H r t V) \<subseteq> stored V \<union> hv_stored H"
  by (auto simp: hv_put_def hv_stored_def split: option.splits if_splits)

lemma getVoteSet_stored: "hv_getVoteSet H r t = Inr (Some V) \<Longrightarrow> stored V \<subseteq> hv_stored H"
  by (auto simp: hv_getVoteSet_def hv_stored_def split: option.splits if_splits)

lemma add_to_stored:
  assumes "stored V \<subseteq> hv_stored H"
  shows "hv_stored (snd (hv_add_to C H v (Some V))) \<subseteq> insert v (hv_stored H)"
  using put_stored [of H "v_Round v" "to_byte (v_Type v)" "snd (vt_addVote C V (Some v))"] addVote_stored [of C V v] assms
  by (auto simp: hv_add_to_def vt_AddVote_def case_prod_beta)

lemma hv_stored_cong: "hv_roundVoteSets H' = hv_roundVoteSets H \<Longrightarrow> hv_stored H' = hv_stored H"
  by (simp add: hv_stored_def)

lemma AddVote_stored: "hv_stored (snd (hv_AddVote C H v p)) \<subseteq> insert v (hv_stored H)"
proof -
  let ?t = "to_byte (v_Type v)" and ?r = "v_Round v"
  have old: "hv_stored (snd (hv_add_to C H v (Some V))) \<subseteq> insert v (hv_stored H)" if "hv_getVoteSet H ?r ?t = Inr (Some V)" for V
    by (rule add_to_stored [OF getVoteSet_stored [OF that]])
  have new: "hv_stored (snd (hv_add_to C (H1\<lparr>hv_peerCatchupRounds := f\<rparr>) v V)) \<subseteq> insert v (hv_stored H)"
    if "hv_addRound H ?r = Inr H1" "hv_getVoteSet H1 ?r ?t = Inr V" for H1 V f
  proof (cases V)
    case None
    then show ?thesis
      using addRound_stored [OF that(1)] hv_stored_cong [of "H1\<lparr>hv_peerCatchupRounds := f\<rparr>" H1] by (auto simp: hv_add_to_def vt_AddVote_def)
  next
    case (Some V')
    then have "stored V' \<subseteq> hv_stored (H1\<lparr>hv_peerCatchupRounds := f\<rparr>)"
      using getVoteSet_stored that(2) hv_stored_cong [of "H1\<lparr>hv_peerCatchupRounds := f\<rparr>" H1] by auto
    from add_to_stored [OF this, of C v] show ?thesis
      using Some addRound_stored [OF that(1)] hv_stored_cong [of "H1\<lparr>hv_peerCatchupRounds := f\<rparr>" H1] by auto
  qed
  show ?thesis
    using old new addRound_stored [of H ?r] unfolding hv_AddVote_def Let_def
    by (auto split: sum.split option.split)
qed

lemma hv_from_stored: "hv_from A C chainID h S H \<Longrightarrow> hv_stored H \<subseteq> A"
proof (induction rule: hv_from.induct)
  case (from_new H)
  then show ?case
    by (auto simp: NewHeightVoteSet_def hv_Reset_def hv_addRound_def hv_stored_def split: sum.splits if_splits)
next
  case (from_set H r H')
  then show ?case
    using addRounds_stored hv_stored_cong by (fastforce simp: hv_SetRound_def hv_stored_def split: sum.splits if_splits)
next
  case (from_add H v p)
  then show ?case
    using AddVote_stored [of C H v p] by blast
next
  case (from_peer H r t p b H')
  then show ?case
    using put_stored [of H r t] SetPeerMaj23_stored getVoteSet_stored
    by (fastforce simp: hv_SetPeerMaj23_def split: sum.splits option.splits if_splits)
qed

section \<open>Majorities\<close>

lemma reached_inv:
  assumes "hv_from A C chainID h S H" and "powers_ok S" and "hv_getVoteSet H r t = Inr (Some V)" and "IsVoteTypeValid t"
  shows "vt_inv C V" and "vt_height V = h" and "vt_round V = r" and "vt_type V = t" and "vt_chainID V = chainID"
    and "vs_Validators (vt_valSet V) = vs_Validators S"
proof -
  have inv: "hv_inv C H \<and> hv_chainID H = chainID \<and> hv_height H = h \<and> hv_valSet H = S"
    using hv_reach_inv [OF hv_from_reach [OF assms(1)] assms(2)] by simp
  have "r \<in> tracked H"
    using assms(3) by (auto simp: hv_getVoteSet_def tracked_def split: option.splits)
  then obtain V' where "hv_getVoteSet H r t = Inr (Some V')" "vt_reach C chainID h r t S V'"
    using getVoteSet_tracked [of C H t r] inv assms(4) by auto
  then have V: "vt_reach C chainID h r t S V"
    using assms(3) by simp
  show "vt_inv C V" "vt_height V = h" "vt_round V = r" "vt_type V = t" "vt_chainID V = chainID"
    "vs_Validators (vt_valSet V) = vs_Validators S"
    using vt_reach_inv [OF V assms(2)] by (simp_all add: vt_about_def)
qed

text \<open>
  A majority of a round: votes of \<open>A\<close> for the block, validly signed by validators with more than two thirds
  of the power.
\<close>

definition signed_by :: "('pub, 'sig) crypto \<Rightarrow> string \<Rightarrow> ValidatorSet \<Rightarrow> nat \<Rightarrow> vote \<Rightarrow> bool" where
  "signed_by C chainID S i v \<longleftrightarrow> v_ValidatorIndex v = int i \<and> i < vs_Size S
     \<and> (case PubKeyFromBytes C (val_PubKey (vs_Validators S ! i)) of
          None \<Rightarrow> False
        | Some pub \<Rightarrow> vote_Verify C chainID v pub = Inr ())"

lemma majority_signed:
  assumes "hv_from A C chainID h S H" and "powers_ok S" and "hv_getVoteSet H r t = Inr (Some V)" and "IsVoteTypeValid t" and "vt_maj23 V = Some b"
  shows "\<exists>Q. Q \<subseteq> members S \<and> 3 * sum (power_at S) Q > 2 * sum (power_at S) (members S)
    \<and> (\<forall>i \<in> Q. \<exists>v \<in> A. signed_by C chainID S i v \<and> v_Height v = h \<and> v_Round v = r \<and> v_Type v = t \<and> v_BlockID v = b)"
proof (intro exI conjI ballI)
  note V = reached_inv [OF assms(1-4)]
  have m: "members (vt_valSet V) = members S" "power_at (vt_valSet V) = power_at S" "vs_Size (vt_valSet V) = vs_Size S"
    using V(6) by (auto simp: members_def power_at_def vs_Size_def fun_eq_iff)
  show "voters V b \<subseteq> members S"
    using m by (auto simp: voters_def)
  show "3 * sum (power_at S) (voters V b) > 2 * sum (power_at S) (members S)"
    using maj_voters [OF V(1) assms(5)] m by simp
  fix i
  assume that: "i \<in> voters V b"
  show "\<exists>v \<in> A. signed_by C chainID S i v \<and> v_Height v = h \<and> v_Round v = r \<and> v_Type v = t \<and> v_BlockID v = b"
  proof -
    have "\<exists>v. i \<in> members S \<and> vt_votes V ! i = Some v \<and> v_BlockID v = b"
      using that m(1) by (auto simp: voters_def)
    then obtain v where v: "i \<in> members S" "vt_votes V ! i = Some v" "v_BlockID v = b"
      by blast
    then have i: "i < vs_Size (vt_valSet V)"
      using m by (simp add: members_def vs_Size_def)
    have "Some v \<in> set (vt_votes V)"
      using v(2) i vt_invD(2) [OF V(1)] by (metis nth_mem)
    then have "v \<in> A"
      using getVoteSet_stored [OF assms(3)] hv_from_stored [OF assms(1)] by (auto simp: stored_def)
    then show ?thesis
      using vt_invD(3) [OF V(1) i v(2)] v(3) V m i by (auto simp: ok_vote_def signed_by_def)
  qed
qed

end
