(* ===== verification/ConsensusRefine.thy ===== *)
theory ConsensusRefine
  imports ConsensusState TmProtocol VoteOrigin
begin

text \<open>
  The consensus state machine follows the protocol of \<open>TmProtocol\<close>: every handler of a well-formed state is a
  sequence of protocol steps on what the state stands for, and leaves a well-formed state.
\<close>

section \<open>What a state stands for\<close>

fun ev_vote :: "'tx cs_event \<Rightarrow> pvote list" where
  "ev_vote (Ev_Internal (Msg_Vote v)) = [(v_Height v, v_Round v, v_Type v, v_BlockID v)]"
| "ev_vote _ = []"

fun ev_due :: "'tx cs_event \<Rightarrow> (int \<times> int) set" where
  "ev_due (Ev_Timeout ti) = {(ti_Height ti, ti_Round ti)}"
| "ev_due _ = {}"

definition sent_of :: "'tx cs_event list \<Rightarrow> pvote list" where
  "sent_of out = concat (map ev_vote out)"

definition due_of :: "'tx cs_event list \<Rightarrow> (int \<times> int) set" where
  "due_of out = \<Union> (ev_due ` set out)"

definition maj_set :: "HeightVoteSet \<Rightarrow> (nat \<times> int \<times> blockID) set" where
  "maj_set H = {(t, r, b). IsVoteTypeValid t \<and> (\<exists>V. hv_getVoteSet H r t = Inr (Some V) \<and> vt_maj23 V = Some b)}"

definition proto_of :: "('pub, 'sig) crypto \<Rightarrow> coding \<Rightarrow> ('tx, 'pub, 'sig, 'priv) ConsensusState \<Rightarrow> proto" where
  "proto_of C J cs =
     \<lparr>pr_h = cs_Height cs, pr_r = cs_Round cs, pr_s = cs_Step cs,
      pr_lock = map_option (\<lambda>b. (cs_LockedRound cs, block_Hash C J b)) (cs_LockedBlock cs),
      pr_maj = (case cs_Votes cs of None \<Rightarrow> {} | Some H \<Rightarrow> maj_set H),
      pr_sent = sent_of (cs_out cs), pr_due = due_of (cs_out cs),
      pr_last = (st_LastBlockHeight (cs_state cs), st_LastBlockID (cs_state cs))\<rparr>"

text \<open>
  Well-formed states: the height follows the chain, the votes are of this height and of the validators of the
  state, rounds fit 32 bits, and a locked block has a hash.
\<close>

definition cs_wf :: "vote set \<Rightarrow> ('pub, 'sig) crypto \<Rightarrow> coding \<Rightarrow> ('tx, 'pub, 'sig, 'priv) ConsensusState \<Rightarrow> bool" where
  "cs_wf A C J cs \<longleftrightarrow>
     (\<exists>S H. st_Validators (cs_state cs) = Some S \<and> cs_Votes cs = Some H \<and> hv_from A C (st_ChainID (cs_state cs)) (cs_Height cs) S H)
     \<and> cs_Height cs = st_LastBlockHeight (cs_state cs) + 1 \<and> 0 < cs_Height cs \<and> cs_Height cs \<le> MaxInt64
     \<and> 0 \<le> cs_Round cs \<and> cs_Round cs < 2 ^ 31 \<and> cs_CommitRound cs < 2 ^ 31 - 1
     \<and> (\<forall>b. cs_LockedBlock cs = Some b \<longrightarrow> block_Hash C J b \<noteq> [])"

text \<open>The part of the state that well-formedness and the protocol see, apart from the output.\<close>

definition core where
  "core cs = (cs_Height cs, cs_Round cs, cs_Step cs, cs_Votes cs, cs_state cs, cs_LockedRound cs, cs_LockedBlock cs, cs_CommitRound cs)"

lemma wf_core: "core cs' = core cs \<Longrightarrow> cs_wf A C J cs' = cs_wf A C J cs"
  by (simp add: core_def cs_wf_def)

lemma proto_core:
  "core cs' = core cs \<Longrightarrow> proto_of C J cs' = (proto_of C J cs)\<lparr>pr_sent := sent_of (cs_out cs'), pr_due := due_of (cs_out cs')\<rparr>"
  by (simp add: core_def proto_of_def)

lemma sent_of_simps [simp]:
  "sent_of [] = []" "sent_of (xs @ ys) = sent_of xs @ sent_of ys" "sent_of (x # xs) = ev_vote x @ sent_of xs"
  by (simp_all add: sent_of_def)

lemma due_of_simps [simp]:
  "due_of [] = {}" "due_of (xs @ ys) = due_of xs \<union> due_of ys" "due_of (x # xs) = ev_due x \<union> due_of xs"
  by (simp_all add: due_of_def)

lemma sbind_Inr: "sbind m f = Inr y \<longleftrightarrow> (\<exists>x. m = Inr x \<and> f x = Inr y)"
  by (simp add: sbind_def split: sum.splits)

text \<open>One handler: well-formed again, by steps of the protocol.\<close>

definition cs_to where
  "cs_to A C J safe K cs cs' \<longleftrightarrow> cs_wf A C J cs' \<and> (pstep safe K)\<^sup>*\<^sup>* (proto_of C J cs) (proto_of C J cs')"

lemma cs_to_trans: "cs_to A C J safe K cs1 cs2 \<Longrightarrow> cs_to A C J safe K cs2 cs3 \<Longrightarrow> cs_to A C J safe K cs1 cs3"
  unfolding cs_to_def by (meson rtranclp_trans)

lemma cs_to_step: "cs_wf A C J cs' \<Longrightarrow> pstep safe K (proto_of C J cs) (proto_of C J cs') \<Longrightarrow> cs_to A C J safe K cs cs'"
  by (simp add: cs_to_def)

text \<open>Changes the protocol does not see.\<close>

definition unseen where
  "unseen cs cs' \<longleftrightarrow> core cs' = core cs \<and> sent_of (cs_out cs') = sent_of (cs_out cs) \<and> due_of (cs_out cs') = due_of (cs_out cs)"

lemma unseen_trans: "unseen a b \<Longrightarrow> unseen b c \<Longrightarrow> unseen a c"
  by (simp add: unseen_def)

lemma unseen_refl [simp]: "unseen a a"
  by (simp add: unseen_def)

lemma unseen_proto: "unseen cs cs' \<Longrightarrow> proto_of C J cs' = proto_of C J cs"
  by (simp add: unseen_def core_def proto_of_def)

lemma unseen_wf: "unseen cs cs' \<Longrightarrow> cs_wf A C J cs' = cs_wf A C J cs"
  by (rule wf_core) (simp add: unseen_def)

lemma unseen_to: "unseen cs cs' \<Longrightarrow> cs_wf A C J cs \<Longrightarrow> cs_to A C J safe K cs cs'"
  using unseen_proto [of cs cs'] unseen_wf [of cs cs'] by (simp add: cs_to_def)

lemma newStep_unseen [simp]: "unseen cs (newStep cs)"
  by (simp add: newStep_def unseen_def core_def cs_emit_def RoundStateMessage_def Let_def)

lemma begin_cons_unseen [simp]: "unseen cs (begin_cons E cs)"
  by (simp add: begin_cons_def unseen_def core_def)

section \<open>Steps within a round\<close>

lemma SignVote_same:
  assumes "SignVote C pv chainID v = (Inr v', pv')"
  shows "\<exists>sig. v' = v\<lparr>v_Signature := sig\<rparr>"
  using assms by (auto simp: SignVote_def split: sum.splits prod.splits)

lemma signVote_vote:
  assumes "signVote C E t hash pv vals cs = (Inr v, pv')" and "0 \<le> cs_Round cs" and "cs_Round cs < 2 ^ 31"
  shows "v_Height v = cs_Height cs" and "v_Round v = cs_Round cs" and "v_Type v = t" and "v_BlockID v = hash"
proof -
  have r: "to_int32 (cs_Round cs) = cs_Round cs"
    using assms(2,3) by (intro to_int32_id) (simp add: in32_def)
  obtain sig where "v = \<lparr>v_ValidatorAddress = pv_Address pv, v_ValidatorIndex = to_int32 (fst (vs_GetByAddress vals (pv_Address pv))),
        v_Height = cs_Height cs, v_Round = to_int32 (cs_Round cs), v_Timestamp = en_now E, v_Type = t,
        v_BlockID = hash, v_Signature = sig\<rparr>"
    using SignVote_same [OF assms(1) [unfolded signVote_def]] by auto
  then show "v_Height v = cs_Height cs" "v_Round v = cs_Round cs" "v_Type v = t" "v_BlockID v = hash"
    using r by simp_all
qed

lemma signAddVote_cases:
  assumes "signAddVote C E t hash cs = Inr cs'"
  obtains "cs' = cs"
  | pv where "cs' = cs\<lparr>cs_privValidator := pv\<rparr>"
  | v pv0 vals pv where "signVote C E t hash pv0 vals cs = (Inr v, pv)" "cs' = cs_emit (Ev_Internal (Msg_Vote v)) (cs\<lparr>cs_privValidator := Some pv\<rparr>)"
proof (cases "cs_privValidator cs")
  case None
  then show ?thesis
    using assms that(1) by (simp add: signAddVote_def)
next
  case (Some pv)
  then obtain vals where vals: "cs_Validators cs = Some vals"
    using assms by (cases "cs_Validators cs") (simp_all add: signAddVote_def)
  obtain res pv' where s: "signVote C E t hash pv vals cs = (res, pv')"
    by (cases "signVote C E t hash pv vals cs")
  consider "\<not> vs_HasAddress vals (pv_Address pv)" | e where "vs_HasAddress vals (pv_Address pv)" "res = Inl e"
    | v where "vs_HasAddress vals (pv_Address pv)" "res = Inr v"
    by (cases res) auto
  then show ?thesis
  proof cases
    case 1
    then have "cs' = cs"
      using assms Some vals by (simp add: signAddVote_def)
    then show ?thesis
      by (rule that(1))
  next
    case (2 e)
    then have "cs' = cs\<lparr>cs_privValidator := Some pv'\<rparr>"
      using assms Some vals s by (simp add: signAddVote_def split: if_splits)
    then show ?thesis
      by (rule that(2))
  next
    case (3 v)
    then have "cs' = cs_emit (Ev_Internal (Msg_Vote v)) (cs\<lparr>cs_privValidator := Some pv'\<rparr>)"
      using assms Some vals s by (simp add: signAddVote_def)
    then show ?thesis
      using s 3(2) by (intro that(3)) simp_all
  qed
qed

lemma signAddVote_core:
  assumes "signAddVote C E t hash cs = Inr cs'" and "0 \<le> cs_Round cs" and "cs_Round cs < 2 ^ 31"
  shows "core cs' = core cs \<and> due_of (cs_out cs') = due_of (cs_out cs)
    \<and> (\<exists>vs. opt_vote (cs_Height cs, cs_Round cs, t, hash) vs \<and> sent_of (cs_out cs') = sent_of (cs_out cs) @ vs)"
  using assms(1)
proof (cases rule: signAddVote_cases)
  case (3 v pv0 vals pv)
  then show ?thesis
    using signVote_vote [OF 3(1) assms(2,3)] by (simp add: core_def opt_vote_def cs_emit_def)
qed (auto simp: core_def opt_vote_def)

lemma defaultDoPrevote_vote:
  assumes "defaultDoPrevote C J E cs = Inr cs'"
  shows "\<exists>hash. signAddVote C E VoteTypePrevote hash cs = Inr cs' \<and> (\<forall>b. cs_LockedBlock cs = Some b \<longrightarrow> hash = block_Hash C J b)"
  using assms by (auto simp: defaultDoPrevote_def sbind_Inr split: option.splits if_splits)

lemma not_past:
  assumes "\<not> step_past h r s cs" and "r \<le> cs_Round cs"
  shows "cs_Height cs = h" and "r = cs_Round cs" and "cs_Step cs < s"
  using assms by (auto simp: step_past_def)

lemma enterPrevote_to:
  assumes "enterPrevote C J E h r cs = Inr cs'" and wf: "cs_wf A C J cs" and r: "r \<le> cs_Round cs"
  shows "cs_to A C J safe K cs cs' \<and> cs_Height cs' = cs_Height cs \<and> cs_Round cs' = cs_Round cs
    \<and> cs_Votes cs' = cs_Votes cs"
proof (cases "step_past h r RoundStepPrevote cs")
  case True
  then show ?thesis
    using assms by (simp add: enterPrevote_def unseen_to)
next
  case False
  note n = not_past [OF False r]
  obtain cs1 hash where s: "signAddVote C E VoteTypePrevote hash cs = Inr cs1"
      and l: "\<forall>b. cs_LockedBlock cs = Some b \<longrightarrow> hash = block_Hash C J b"
      and cs': "cs' = newStep (updateRoundStep r RoundStepPrevote cs1)"
    using assms(1) False defaultDoPrevote_vote by (fastforce simp: enterPrevote_def sbind_Inr)
  obtain vs where c: "core cs1 = core cs" "due_of (cs_out cs1) = due_of (cs_out cs)"
      and vs: "opt_vote (cs_Height cs, cs_Round cs, VoteTypePrevote, hash) vs" "sent_of (cs_out cs1) = sent_of (cs_out cs) @ vs"
    using signAddVote_core [OF s] wf by (auto simp: cs_wf_def)
  let ?cs = "updateRoundStep r RoundStepPrevote cs1"
  have u: "unseen ?cs cs'"
    by (simp add: cs')
  have p: "proto_of C J ?cs = (proto_of C J cs)\<lparr>pr_s := 4, pr_sent := pr_sent (proto_of C J cs) @ vs\<rparr>"
    using c vs n by (simp add: proto_of_def core_def updateRoundStep_def RoundStepPrevote_def)
  have "pstep safe K (proto_of C J cs) (proto_of C J ?cs)"
    unfolding p by (rule p_prevote [of _ hash]) (use n l vs in \<open>auto simp: proto_of_def round_steps VoteTypePrevote_def\<close>)
  moreover have "cs_wf A C J ?cs"
    using wf c n by (auto simp: cs_wf_def core_def updateRoundStep_def)
  ultimately have "cs_to A C J safe K cs cs'"
    using unseen_proto [OF u] unseen_wf [OF u] by (simp add: cs_to_def r_into_rtranclp)
  then show ?thesis
    using u c n by (auto simp: unseen_def core_def updateRoundStep_def)
qed

text \<open>Steps that stay at the height and do not go back to an earlier round.\<close>

definition cs_in where
  "cs_in A C J safe K cs cs' \<longleftrightarrow> cs_to A C J safe K cs cs' \<and> cs_Height cs' = cs_Height cs \<and> cs_Round cs \<le> cs_Round cs'"

lemma cs_in_trans: "cs_in A C J safe K cs1 cs2 \<Longrightarrow> cs_in A C J safe K cs2 cs3 \<Longrightarrow> cs_in A C J safe K cs1 cs3"
  using cs_to_trans [of A C J safe K cs1 cs2 cs3] by (simp add: cs_in_def)

lemma cs_in_wf: "cs_in A C J safe K cs cs' \<Longrightarrow> cs_wf A C J cs'"
  by (simp add: cs_in_def cs_to_def)

lemma unseen_in: "unseen cs cs' \<Longrightarrow> cs_wf A C J cs \<Longrightarrow> cs_in A C J safe K cs cs'"
  using unseen_to [of cs cs'] by (simp add: cs_in_def unseen_def core_def)

lemma advance_in:
  assumes "cs_wf A C J cs" and "cs_Round cs < r \<or> cs_Round cs = r \<and> cs_Step cs \<le> s" and "r < 2 ^ 31"
  shows "cs_in A C J safe K cs (newStep (updateRoundStep r s cs))"
proof -
  let ?cs = "updateRoundStep r s cs"
  have "proto_of C J ?cs = (proto_of C J cs)\<lparr>pr_r := r, pr_s := s\<rparr>"
    by (simp add: proto_of_def updateRoundStep_def)
  moreover have "pstep safe K (proto_of C J cs) ((proto_of C J cs)\<lparr>pr_r := r, pr_s := s\<rparr>)"
    by (rule p_advance) (use assms(2) in \<open>simp add: proto_of_def\<close>)
  moreover have "cs_wf A C J ?cs"
    using assms by (auto simp: cs_wf_def updateRoundStep_def)
  ultimately have "cs_in A C J safe K cs ?cs"
    using assms(2) by (auto simp: cs_in_def cs_to_def updateRoundStep_def)
  then show ?thesis
    by (rule cs_in_trans) (simp add: unseen_in cs_in_wf \<open>cs_wf A C J ?cs\<close>)
qed

lemma schedule_in:
  assumes "cs_wf A C J cs"
  shows "cs_in A C J safe K cs (scheduleTimeout d (cs_Height cs) (cs_Round cs) s cs)"
proof -
  let ?cs = "scheduleTimeout d (cs_Height cs) (cs_Round cs) s cs"
  have "proto_of C J ?cs = (proto_of C J cs)\<lparr>pr_due := insert (pr_h (proto_of C J cs), pr_r (proto_of C J cs)) (pr_due (proto_of C J cs))\<rparr>"
    by (simp add: proto_of_def scheduleTimeout_def cs_emit_def)
  then have "pstep safe K (proto_of C J cs) (proto_of C J ?cs)"
    using p_schedule [of safe K "proto_of C J cs"] by simp
  moreover have "cs_wf A C J ?cs"
    using assms by (subst wf_core [of _ cs]) (simp_all add: core_def scheduleTimeout_def cs_emit_def)
  ultimately show ?thesis
    by (simp add: cs_in_def cs_to_def scheduleTimeout_def cs_emit_def r_into_rtranclp)
qed

lemma defaultDecideProposal_unseen:
  assumes "defaultDecideProposal C J E h r cs = Inr cs'"
  shows "unseen cs cs'"
proof -
  obtain bo where bo: "(case cs_LockedBlock cs of Some b \<Rightarrow> Inr (Some b) | None \<Rightarrow> createProposalBlock C J E cs) = Inr bo"
    using assms unfolding defaultDecideProposal_def sbind_Inr by blast
  show ?thesis
  proof (cases bo)
    case None
    then show ?thesis
      using assms bo unfolding defaultDecideProposal_def by (simp add: sbind_def)
  next
    case (Some b)
    then obtain H pv where H: "cs_Votes cs = Some H" "cs_privValidator cs = Some pv"
      using assms bo unfolding defaultDecideProposal_def
      by (cases "cs_Votes cs"; cases "cs_privValidator cs") (auto simp: sbind_def)
    then obtain polRound polBlockID where p: "hv_POLInfo H = Inr (polRound, polBlockID)"
      using assms bo Some unfolding defaultDecideProposal_def by (cases "hv_POLInfo H") (auto simp: sbind_def)
    let ?s = "SignProposal C pv (st_ChainID (cs_state cs)) (NewProposal (en_now E) h r (block_Hash C J b) polRound polBlockID)"
    obtain res pv' where s: "?s = (res, pv')"
      by (cases ?s)
    show ?thesis
      using assms bo Some H p s unfolding defaultDecideProposal_def
      by (cases res) (auto simp: sbind_def unseen_def core_def cs_emit_def split: if_splits)
  qed
qed

lemma isProposer_unseen:
  assumes "isProposer cs = Inr (b, cs')"
  shows "unseen cs cs'"
proof -
  obtain vals pv where v: "cs_Validators cs = Some vals" "cs_privValidator cs = Some pv"
    using assms by (cases "cs_Validators cs"; cases "cs_privValidator cs") (auto simp: isProposer_def)
  obtain res vals' where g: "GetProposer vals = (res, vals')"
    by (cases "GetProposer vals")
  then obtain p where "res = Inr (Some p)"
    using assms v by (auto simp: isProposer_def split: sum.splits option.splits)
  then have "cs' = cs\<lparr>cs_Validators := Some vals'\<rparr>"
    using assms v g by (simp add: isProposer_def)
  then show ?thesis
    by (simp add: unseen_def core_def)
qed

lemma enterPropose_body_unseen:
  assumes "enterPropose_body C J E h r cs = Inr cs'"
  shows "unseen cs cs'"
proof (cases "cs_privValidator cs")
  case None
  then show ?thesis
    using assms by (simp add: enterPropose_body_def)
next
  case (Some pv)
  then obtain vals where v: "cs_Validators cs = Some vals"
    using assms by (cases "cs_Validators cs") (auto simp: enterPropose_body_def)
  show ?thesis
  proof (cases "vs_HasAddress vals (pv_Address pv)")
    case True
    then obtain ours cs1 where i: "isProposer cs = Inr (ours, cs1)"
      using assms Some v by (cases "isProposer cs") (auto simp: enterPropose_body_def sbind_def)
    then have "cs' = cs1 \<or> defaultDecideProposal C J E h r cs1 = Inr cs'"
      using assms Some v True by (auto simp: enterPropose_body_def sbind_def split: if_splits)
    then show ?thesis
      using isProposer_unseen [OF i] defaultDecideProposal_unseen unseen_trans by blast
  next
    case False
    then show ?thesis
      using assms Some v by (simp add: enterPropose_body_def)
  qed
qed

lemma enterPrevote_in:
  "enterPrevote C J E h r cs = Inr cs' \<Longrightarrow> cs_wf A C J cs \<Longrightarrow> r \<le> cs_Round cs \<Longrightarrow> cs_in A C J safe K cs cs'"
  using enterPrevote_to unfolding cs_in_def by fastforce

lemma enterPropose_in:
  assumes "enterPropose C J E h r cs = Inr cs'" and wf: "cs_wf A C J cs" and r: "r \<le> cs_Round cs"
  shows "cs_in A C J safe K cs cs'"
proof (cases "step_past h r RoundStepPropose cs")
  case True
  then show ?thesis
    using assms by (simp add: enterPropose_def unseen_in)
next
  case False
  note n = not_past [OF False r]
  define cs1 where "cs1 = (if cs_Round cs = 0 \<and> cs_begCons cs = None then cs\<lparr>cs_begCons := Some (en_now E)\<rparr> else cs)"
  define cs2 where "cs2 = scheduleTimeout (Propose_time (en_cfg E) r) h r RoundStepPropose cs1"
  obtain cs3 where b: "enterPropose_body C J E h r cs2 = Inr cs3"
    and e: "cs' = newStep (updateRoundStep r RoundStepPropose cs3) \<or>
      enterPrevote C J E h (cs_Round (newStep (updateRoundStep r RoundStepPropose cs3))) (newStep (updateRoundStep r RoundStepPropose cs3)) = Inr cs'"
    using assms(1) False unfolding enterPropose_def cs1_def cs2_def by (auto simp: Let_def sbind_Inr split: if_splits)
  let ?cs4 = "newStep (updateRoundStep r RoundStepPropose cs3)"
  have u1: "unseen cs cs1"
    by (simp add: cs1_def unseen_def core_def)
  then have c1: "cs_Height cs1 = h" "cs_Round cs1 = r" "cs_Step cs1 = cs_Step cs"
    using n by (simp_all add: unseen_def core_def)
  have i2: "cs_in A C J safe K cs cs2"
    using unseen_in [OF u1 wf] schedule_in [of A C J cs1 safe K] cs_in_trans [of A C J safe K cs cs1] cs_in_wf c1 unfolding cs2_def by blast
  have u3: "unseen cs2 cs3"
    by (rule enterPropose_body_unseen [OF b])
  have i3: "cs_in A C J safe K cs cs3"
    using cs_in_trans [OF i2 unseen_in [OF u3 cs_in_wf [OF i2]]] .
  have "cs_Round cs3 = r" "cs_Step cs3 = cs_Step cs"
    using u3 c1 by (simp_all add: unseen_def core_def cs2_def scheduleTimeout_def cs_emit_def)
  then have i4: "cs_in A C J safe K cs ?cs4"
    using cs_in_trans [OF i3 advance_in [OF cs_in_wf [OF i3]]] n wf by (auto simp: cs_wf_def)
  show ?thesis
    using e i4 cs_in_trans [OF i4 enterPrevote_in [OF _ cs_in_wf [OF i4]]] by auto
qed

section \<open>Majorities\<close>

lemma addRound_maj:
  assumes "hv_addRound H r = Inr H'"
  shows "maj_set H' = maj_set H"
proof -
  have n: "hv_roundVoteSets H r = None"
    using assms by (auto simp: hv_addRound_def split: if_splits)
  obtain a b where ab: "NewVoteSet (hv_chainID H) (hv_height H) r VoteTypePrevote (hv_valSet H) = Inr a"
      "NewVoteSet (hv_chainID H) (hv_height H) r VoteTypePrecommit (hv_valSet H) = Inr b"
      "H' = H\<lparr>hv_roundVoteSets := (hv_roundVoteSets H)(r \<mapsto> \<lparr>rv_Prevotes = a, rv_Precommits = b\<rparr>)\<rparr>"
    using assms by (auto simp: hv_addRound_def split: if_splits sum.splits)
  then have "vt_maj23 a = None" "vt_maj23 b = None"
    by (auto simp: NewVoteSet_def split: if_splits)
  then show ?thesis
    using n ab(3) by (auto simp: maj_set_def hv_getVoteSet_def split: if_splits)
qed

lemma addRounds_maj: "addRounds H rs = Inr H' \<Longrightarrow> maj_set H' = maj_set H"
  by (induction rs arbitrary: H) (auto dest: addRound_maj split: if_splits sum.splits)

lemma maj_set_cong: "hv_roundVoteSets H' = hv_roundVoteSets H \<Longrightarrow> maj_set H' = maj_set H"
  by (simp add: maj_set_def hv_getVoteSet_def)

lemma SetRound_maj:
  assumes "hv_SetRound H r = Inr H'"
  shows "maj_set H' = maj_set H"
proof -
  obtain H1 where "addRounds H [hv_round H + 1 .. r] = Inr H1" "H' = H1\<lparr>hv_round := r\<rparr>"
    using assms by (auto simp: hv_SetRound_def split: if_splits sum.splits)
  then show ?thesis
    using addRounds_maj maj_set_cong [of H' H1] by simp
qed

text \<open>A majority is never lost.\<close>

lemma addVote_maj:
  assumes "vt_maj23 V = Some b"
  shows "vt_maj23 (snd (vt_addVote C V vo)) = Some b"
  using assms
  by (auto simp: vt_addVote_def addVote_of_def vt_addVerifiedVote_def add_canonical_def add_to_block_def Let_def
      split: option.splits if_splits sum.splits prod.splits)

lemma SetPeerMaj23_maj: "vt_maj23 (vt_SetPeerMaj23 V p b) = vt_maj23 V"
  by (simp add: vt_SetPeerMaj23_def Let_def split: option.splits)

lemma hv_put_get:
  assumes "hv_getVoteSet H r t = Inr (Some V)" and "IsVoteTypeValid t" and "IsVoteTypeValid t'"
  shows "hv_getVoteSet (hv_put H r t V') r' t' = (if r' = r \<and> t' = t then Inr (Some V') else hv_getVoteSet H r' t')"
  using assms
  by (auto simp: hv_getVoteSet_def hv_put_def IsVoteTypeValid_def VoteTypePrevote_def VoteTypePrecommit_def split: option.splits)

lemma put_maj:
  assumes "hv_getVoteSet H r t = Inr (Some V)" and "IsVoteTypeValid t" and "\<And>b. vt_maj23 V = Some b \<Longrightarrow> vt_maj23 V' = Some b"
  shows "maj_set H \<subseteq> maj_set (hv_put H r t V')"
  using assms(1,3) unfolding maj_set_def by (auto simp: hv_put_get [OF assms(1,2)])

lemma put_maj_same:
  assumes "hv_getVoteSet H r t = Inr (Some V)" and "IsVoteTypeValid t" and "vt_maj23 V' = vt_maj23 V"
  shows "maj_set (hv_put H r t V') = maj_set H"
  using assms(1,3) unfolding maj_set_def by (auto simp: hv_put_get [OF assms(1,2)] split: if_splits)

lemma add_to_maj:
  assumes "hv_getVoteSet H (v_Round v) (to_byte (v_Type v)) = Inr (Some V)" and "IsVoteTypeValid (to_byte (v_Type v))"
  shows "maj_set H \<subseteq> maj_set (snd (hv_add_to C H v (Some V)))"
proof -
  obtain res V' where a: "vt_addVote C V (Some v) = (res, V')"
    by (cases "vt_addVote C V (Some v)")
  have "snd (hv_add_to C H v (Some V)) = hv_put H (v_Round v) (to_byte (v_Type v)) V'"
    by (simp add: hv_add_to_def vt_AddVote_def a)
  then show ?thesis
    using put_maj [OF assms, of V'] addVote_maj [of V _ C "Some v"] by (simp add: a)
qed

lemma AddVote_maj: "maj_set H \<subseteq> maj_set (snd (hv_AddVote C H v p))"
proof (cases "IsVoteTypeValid (to_byte (v_Type v))")
  case False
  then show ?thesis
    by (simp add: hv_AddVote_def)
next
  case valid: True
  let ?r = "v_Round v" and ?t = "to_byte (v_Type v)"
  consider e where "hv_getVoteSet H ?r ?t = Inl e" | V where "hv_getVoteSet H ?r ?t = Inr (Some V)" | "hv_getVoteSet H ?r ?t = Inr None"
    by (cases "hv_getVoteSet H ?r ?t") auto
  then show ?thesis
  proof cases
    case (1 e)
    then show ?thesis
      using valid by (simp add: hv_AddVote_def)
  next
    case (2 V)
    then show ?thesis
      using valid add_to_maj [OF 2 valid] by (simp add: hv_AddVote_def)
  next
    case 3
    show ?thesis
    proof (cases "length (hv_peerCatchupRounds H p) < 2 \<and> (\<exists>H1. hv_addRound H ?r = Inr H1)")
      case True
      then obtain H1 where H1: "hv_addRound H ?r = Inr H1"
        by blast
      let ?H = "H1\<lparr>hv_peerCatchupRounds := (hv_peerCatchupRounds H1)(p := hv_peerCatchupRounds H p @ [?r])\<rparr>"
      have m: "maj_set ?H = maj_set H"
        using addRound_maj [OF H1] maj_set_cong [of ?H H1] by simp
      obtain V where V: "hv_getVoteSet H1 ?r ?t = Inr (Some V)"
        using H1 valid
        by (auto simp: hv_addRound_def hv_getVoteSet_def IsVoteTypeValid_def VoteTypePrevote_def VoteTypePrecommit_def
            split: if_splits sum.splits)
      then have "hv_getVoteSet ?H ?r ?t = Inr (Some V)"
        by (simp add: hv_getVoteSet_def)
      from add_to_maj [OF this valid, of C] show ?thesis
        using valid 3 True H1 V m by (simp add: hv_AddVote_def Let_def)
    next
      case False
      then show ?thesis
        using valid 3 by (auto simp: hv_AddVote_def Let_def split: sum.splits)
    qed
  qed
qed

lemma hv_SetPeerMaj23_maj:
  assumes "hv_SetPeerMaj23 H r t p b = Inr H'"
  shows "maj_set H' = maj_set H"
proof (cases "IsVoteTypeValid t \<and> (\<exists>V. hv_getVoteSet H r t = Inr (Some V))")
  case True
  then obtain V where V: "IsVoteTypeValid t" "hv_getVoteSet H r t = Inr (Some V)"
    by blast
  then have "H' = hv_put H r t (vt_SetPeerMaj23 V p b)"
    using assms by (simp add: hv_SetPeerMaj23_def)
  then show ?thesis
    using put_maj_same [OF V(2,1) SetPeerMaj23_maj] by simp
next
  case False
  then show ?thesis
    using assms by (auto simp: hv_SetPeerMaj23_def split: if_splits sum.splits option.splits)
qed

lemma New_maj:
  assumes "NewHeightVoteSet chainID h S = Inr H"
  shows "maj_set H = {}"
proof -
  obtain H1 where "hv_addRound \<lparr>hv_chainID = chainID, hv_height = h, hv_valSet = S, hv_round = 0,
       hv_roundVoteSets = (\<lambda>_. None), hv_peerCatchupRounds = (\<lambda>_. [])\<rparr> 0 = Inr H1" "H = H1\<lparr>hv_round := 0\<rparr>"
    using assms by (auto simp: NewHeightVoteSet_def hv_Reset_def split: sum.splits)
  then show ?thesis
    using addRound_maj maj_set_cong [of H H1] by (simp add: maj_set_def hv_getVoteSet_def)
qed

lemma cs_Prevotes_maj:
  assumes "cs_Prevotes cs r = Inr V" and "vt_TwoThirdsMajority V = (b, True)"
  shows "(1, r, b) \<in> pr_maj (proto_of C J cs)"
  using assms
  by (auto simp: cs_Prevotes_def hv_Prevotes_def vt_TwoThirdsMajority_def proto_of_def maj_set_def IsVoteTypeValid_def VoteTypePrevote_def
      split: option.splits)

lemma cs_Precommits_maj:
  assumes "cs_Precommits cs r = Inr V" and "vt_TwoThirdsMajority V = (b, True)"
  shows "(2, r, b) \<in> pr_maj (proto_of C J cs)"
  using assms
  by (auto simp: cs_Precommits_def hv_Precommits_def vt_TwoThirdsMajority_def proto_of_def maj_set_def IsVoteTypeValid_def VoteTypePrecommit_def
      split: option.splits)

section \<open>The steps of a round\<close>

lemma new_round_core:
  "cs_Height (new_round r vals H cs) = cs_Height cs" "cs_Round (new_round r vals H cs) = r" "cs_Step (new_round r vals H cs) = 2"
  "cs_Votes (new_round r vals H cs) = Some H" "cs_state (new_round r vals H cs) = cs_state cs"
  "cs_LockedRound (new_round r vals H cs) = cs_LockedRound cs" "cs_LockedBlock (new_round r vals H cs) = cs_LockedBlock cs"
  "cs_CommitRound (new_round r vals H cs) = cs_CommitRound cs"
  "sent_of (cs_out (new_round r vals H cs)) = sent_of (cs_out cs)" "due_of (cs_out (new_round r vals H cs)) = due_of (cs_out cs)"
  by (simp_all add: new_round_def updateRoundStep_def RoundStepNewRound_def cs_emit_def RoundStateMessage_def Let_def)

lemma propose_or_wait_in:
  assumes "propose_or_wait C J E (cs_Height cs) (cs_Round cs) cs = Inr cs'" and wf: "cs_wf A C J cs"
  shows "cs_in A C J safe K cs cs'"
proof (cases "WaitForTxs (en_cfg E) \<and> cs_Round cs = 0")
  case True
  let ?cs = "if cf_createEmptyBlocksInterval (en_cfg E) > 0
    then scheduleTimeout (EmptyBlocksInterval (en_cfg E)) (cs_Height cs) (cs_Round cs) RoundStepNewRound cs else cs"
  have 1: "cs_in A C J safe K cs ?cs"
    using schedule_in [OF wf] unseen_in [OF unseen_refl wf] by simp
  have "cs' = cs_emit (Ev_Heartbeat (cs_Height cs) (cs_Round cs)) ?cs"
    using assms(1) True by (auto simp: propose_or_wait_def)
  then have "unseen ?cs cs'"
    by (simp add: unseen_def core_def cs_emit_def)
  then show ?thesis
    using cs_in_trans [OF 1] unseen_in cs_in_wf [OF 1] by blast
next
  case False
  then show ?thesis
    using assms by (intro enterPropose_in) (auto simp: propose_or_wait_def)
qed

lemma new_round_in:
  assumes wf: "cs_wf A C J cs" and r: "cs_Round cs < r \<or> cs_Round cs = r \<and> cs_Step cs = 1" "r < 2 ^ 31"
    and H: "cs_Votes cs = Some H" "hv_SetRound H (r + 1) = Inr H1"
  shows "cs_in A C J safe K cs (new_round r vals H1 cs)"
proof -
  let ?cs = "new_round r vals H1 cs"
  obtain S where S: "st_Validators (cs_state cs) = Some S" "hv_from A C (st_ChainID (cs_state cs)) (cs_Height cs) S H"
    using wf H(1) by (auto simp: cs_wf_def)
  have "hv_from A C (st_ChainID (cs_state cs)) (cs_Height cs) S H1"
    by (rule from_set [OF S(2) _ H(2)]) (use wf r(1) in \<open>auto simp: cs_wf_def\<close>)
  then have "cs_wf A C J ?cs"
    using wf S(1) r unfolding cs_wf_def new_round_core by auto
  moreover have "proto_of C J ?cs = (proto_of C J cs)\<lparr>pr_r := r, pr_s := 2\<rparr>"
    using SetRound_maj [OF H(2)] H(1) unfolding proto_of_def new_round_core by simp
  moreover have "pstep safe K (proto_of C J cs) ((proto_of C J cs)\<lparr>pr_r := r, pr_s := 2\<rparr>)"
    by (rule p_advance) (use r in \<open>auto simp: proto_of_def\<close>)
  ultimately show ?thesis
    using r(1) by (auto simp: cs_in_def cs_to_def new_round_core)
qed

lemma enterNewRound_in:
  assumes "enterNewRound C J E h r cs = Inr cs'" and wf: "cs_wf A C J cs" and r: "r < 2 ^ 31"
  shows "cs_in A C J safe K cs cs' \<and> (cs_Height cs = h \<longrightarrow> r \<le> cs_Round cs')"
proof (cases "cs_Height cs \<noteq> h \<or> r < cs_Round cs \<or> cs_Round cs = r \<and> cs_Step cs \<noteq> RoundStepNewHeight")
  case True
  then have "cs' = cs"
    using assms(1) by (simp add: enterNewRound_def)
  then show ?thesis
    using True wf by (auto simp: unseen_in)
next
  case False
  then have n: "cs_Height cs = h" "cs_Round cs < r \<or> cs_Round cs = r \<and> cs_Step cs = 1"
    by (auto simp: RoundStepNewHeight_def)
  obtain H where H: "cs_Votes cs = Some H"
    using wf by (auto simp: cs_wf_def)
  obtain vals where vals: "cs_Validators cs = Some vals"
    using assms(1) H unfolding enterNewRound_def if_not_P [OF False] by (cases "cs_Validators cs") simp_all
  obtain vals1 H1 where H1: "hv_SetRound H (r + 1) = Inr H1" "propose_or_wait C J E h r (new_round r vals1 H1 cs) = Inr cs'"
    using assms(1) H vals unfolding enterNewRound_def if_not_P [OF False] by (auto simp: sbind_Inr)
  note i = new_round_in [OF wf n(2) r H H1(1), of safe K vals1]
  have "cs_in A C J safe K (new_round r vals1 H1 cs) cs'"
    using H1(2) n(1) by (intro propose_or_wait_in [OF _ cs_in_wf [OF i]]) (simp add: new_round_core)
  then show ?thesis
    using cs_in_trans [OF i] by (auto simp: cs_in_def new_round_core)
qed

lemma enterPrevoteWait_in:
  assumes "enterPrevoteWait E h r cs = Inr cs'" and wf: "cs_wf A C J cs" and r: "r \<le> cs_Round cs"
  shows "cs_in A C J safe K cs cs'"
proof (cases "step_past h r RoundStepPrevoteWait cs")
  case True
  then show ?thesis
    using assms by (simp add: enterPrevoteWait_def unseen_in)
next
  case False
  note n = not_past [OF False r]
  let ?cs = "scheduleTimeout (Prevote_time (en_cfg E) r) (cs_Height cs) (cs_Round cs) RoundStepPrevoteWait cs"
  have 1: "cs_in A C J safe K cs ?cs"
    by (rule schedule_in [OF wf])
  have "cs' = newStep (updateRoundStep r RoundStepPrevoteWait ?cs)"
    using assms(1) False n by (auto simp: enterPrevoteWait_def sbind_Inr split: if_splits)
  then show ?thesis
    using cs_in_trans [OF 1 advance_in [OF cs_in_wf [OF 1]]] n wf
    by (simp add: scheduleTimeout_def cs_emit_def cs_wf_def)
qed

lemma enterPrecommitWait_in:
  assumes "enterPrecommitWait E h r cs = Inr cs'" and wf: "cs_wf A C J cs" and r: "r \<le> cs_Round cs"
  shows "cs_in A C J safe K cs cs'"
proof (cases "step_past h r RoundStepPrecommitWait cs")
  case True
  then show ?thesis
    using assms by (simp add: enterPrecommitWait_def unseen_in)
next
  case False
  note n = not_past [OF False r]
  let ?cs = "scheduleTimeout (Precommit_time (en_cfg E) r) (cs_Height cs) (cs_Round cs) RoundStepPrecommitWait cs"
  have 1: "cs_in A C J safe K cs ?cs"
    by (rule schedule_in [OF wf])
  have "cs' = newStep (updateRoundStep r RoundStepPrecommitWait ?cs)"
    using assms(1) False n by (auto simp: enterPrecommitWait_def sbind_Inr split: if_splits)
  then show ?thesis
    using cs_in_trans [OF 1 advance_in [OF cs_in_wf [OF 1]]] n wf
    by (simp add: scheduleTimeout_def cs_emit_def cs_wf_def)
qed

text \<open>The precommit of a round, with the lock that \<open>cs1\<close> has.\<close>

definition relocked where
  "relocked cs cs1 \<longleftrightarrow> cs_Height cs1 = cs_Height cs \<and> cs_Round cs1 = cs_Round cs \<and> cs_Step cs1 = cs_Step cs
     \<and> cs_Votes cs1 = cs_Votes cs \<and> cs_state cs1 = cs_state cs \<and> cs_CommitRound cs1 = cs_CommitRound cs \<and> cs_out cs1 = cs_out cs"

lemma precommit_in:
  assumes wf: "cs_wf A C J cs" and re: "relocked cs cs1" and s: "signAddVote C E VoteTypePrecommit hash cs1 = Inr cs2"
    and lock: "\<forall>b. cs_LockedBlock cs1 = Some b \<longrightarrow> block_Hash C J b \<noteq> []"
    and p: "\<And>vs. opt_vote (cs_Height cs, cs_Round cs, 2, hash) vs \<Longrightarrow> pstep safe K (proto_of C J cs)
      ((proto_of C J cs)\<lparr>pr_s := 6, pr_lock := pr_lock (proto_of C J cs1), pr_sent := pr_sent (proto_of C J cs) @ vs\<rparr>)"
  shows "cs_in A C J safe K cs (newStep (updateRoundStep (cs_Round cs) RoundStepPrecommit cs2))"
proof -
  let ?cs = "updateRoundStep (cs_Round cs) RoundStepPrecommit cs2"
  obtain vs where c: "core cs2 = core cs1" "due_of (cs_out cs2) = due_of (cs_out cs1)"
      and vs: "opt_vote (cs_Height cs, cs_Round cs, 2, hash) vs" "sent_of (cs_out cs2) = sent_of (cs_out cs1) @ vs"
    using signAddVote_core [OF s] re wf by (auto simp: cs_wf_def relocked_def VoteTypePrecommit_def)
  have "proto_of C J ?cs = (proto_of C J cs)\<lparr>pr_s := 6, pr_lock := pr_lock (proto_of C J cs1), pr_sent := pr_sent (proto_of C J cs) @ vs\<rparr>"
    using c vs re by (simp add: proto_of_def core_def updateRoundStep_def RoundStepPrecommit_def relocked_def)
  then have 1: "pstep safe K (proto_of C J cs) (proto_of C J ?cs)"
    using p [OF vs(1)] by simp
  have w: "cs_wf A C J ?cs"
    using wf c re lock by (auto simp: cs_wf_def core_def relocked_def updateRoundStep_def)
  have "cs_in A C J safe K cs ?cs"
    using 1 w c re by (simp add: cs_in_def cs_to_def core_def relocked_def updateRoundStep_def r_into_rtranclp)
  then show ?thesis
    by (rule cs_in_trans) (simp add: unseen_in w)
qed

lemma HashesTo_iff: "HashesTo C J (Some b) hash \<longleftrightarrow> hash \<noteq> [] \<and> block_Hash C J b = hash"
  by (simp add: HashesTo_def)

lemma HashesTo_None [simp]: "\<not> HashesTo C J None hash"
  by (simp add: HashesTo_def)

lemma precommit_polka_in:
  assumes wf: "cs_wf A C J cs" and s: "cs_Step cs < 6" and maj: "(1, cs_Round cs, b) \<in> pr_maj (proto_of C J cs)"
    and pp: "precommit_polka C J E (cs_Round cs) b cs = Inr cs2"
  shows "cs_in A C J safe K cs (newStep (updateRoundStep (cs_Round cs) RoundStepPrecommit cs2))"
proof -
  let ?P = "proto_of C J cs"
  have pr: "pr_h ?P = cs_Height cs" "pr_r ?P = cs_Round cs" "pr_s ?P < 6"
    using s by (simp_all add: proto_of_def)
  have lock0: "\<forall>b. cs_LockedBlock cs = Some b \<longrightarrow> block_Hash C J b \<noteq> []"
    using wf by (simp add: cs_wf_def)
  have unlock: "cs_in A C J safe K cs (newStep (updateRoundStep (cs_Round cs) RoundStepPrecommit cs2))"
    if "signAddVote C E VoteTypePrecommit [] cs1 = Inr cs2" "relocked cs cs1" "cs_LockedBlock cs1 = None" "\<not> HashesTo C J (cs_LockedBlock cs) b" for cs1
  proof (rule precommit_in [OF wf that(2,1)])
    fix vs assume "opt_vote (cs_Height cs, cs_Round cs, 2, []) vs"
    moreover have "\<forall>lr b0. pr_lock ?P = Some (lr, b0) \<longrightarrow> b \<noteq> b0"
      using that(4) lock0 by (cases "cs_LockedBlock cs") (auto simp: proto_of_def HashesTo_iff)
    moreover have "pr_lock (proto_of C J cs1) = None"
      using that(3) by (simp add: proto_of_def)
    ultimately show "pstep safe K ?P (?P\<lparr>pr_s := 6, pr_lock := pr_lock (proto_of C J cs1), pr_sent := pr_sent ?P @ vs\<rparr>)"
      using maj pr by (intro p_nil [of _ _ b]) auto
  qed (use that in simp)
  have lock: "cs_in A C J safe K cs (newStep (updateRoundStep (cs_Round cs) RoundStepPrecommit cs2))"
    if "signAddVote C E VoteTypePrecommit b cs1 = Inr cs2" "relocked cs cs1" "cs_LockedRound cs1 = cs_Round cs" "HashesTo C J (cs_LockedBlock cs1) b" for cs1
  proof (rule precommit_in [OF wf that(2,1)])
    fix vs assume "opt_vote (cs_Height cs, cs_Round cs, 2, b) vs"
    moreover have "b \<noteq> []" "pr_lock (proto_of C J cs1) = Some (cs_Round cs, b)"
      using that(3,4) by (cases "cs_LockedBlock cs1"; simp add: proto_of_def HashesTo_iff)+
    ultimately show "pstep safe K ?P (?P\<lparr>pr_s := 6, pr_lock := pr_lock (proto_of C J cs1), pr_sent := pr_sent ?P @ vs\<rparr>)"
      using maj pr p_lock [of ?P b vs safe K] by auto
  qed (use that(4) in \<open>cases "cs_LockedBlock cs1"; auto simp: HashesTo_iff\<close>)
  consider "b = []" | "b \<noteq> []" "HashesTo C J (cs_LockedBlock cs) b"
    | "b \<noteq> []" "\<not> HashesTo C J (cs_LockedBlock cs) b" "HashesTo C J (cs_ProposalBlock cs) b"
    | "b \<noteq> []" "\<not> HashesTo C J (cs_LockedBlock cs) b" "\<not> HashesTo C J (cs_ProposalBlock cs) b"
    by blast
  then show ?thesis
  proof cases
    case 1
    show ?thesis
      by (rule unlock [of "if cs_LockedBlock cs = None then cs else cs\<lparr>cs_LockedRound := 0, cs_LockedBlock := None\<rparr>"])
        (use 1 pp in \<open>auto simp: precommit_polka_def relocked_def HashesTo_def\<close>)
  next
    case 2
    show ?thesis
      by (rule lock [of "cs\<lparr>cs_LockedRound := cs_Round cs\<rparr>"]) (use 2 pp in \<open>auto simp: precommit_polka_def relocked_def\<close>)
  next
    case 3
    show ?thesis
      by (rule lock [of "cs\<lparr>cs_LockedRound := cs_Round cs, cs_LockedBlock := cs_ProposalBlock cs\<rparr>"])
        (use 3 pp in \<open>auto simp: precommit_polka_def relocked_def sbind_Inr split: if_splits\<close>)
  next
    case 4
    let ?cs = "cs\<lparr>cs_LockedRound := 0, cs_LockedBlock := None\<rparr>"
    show ?thesis
      by (rule unlock [of "if cs_ProposalBlockHash ?cs \<noteq> b then ?cs\<lparr>cs_ProposalBlock := None, cs_ProposalBlockHash := b\<rparr> else ?cs"])
        (use 4 pp in \<open>auto simp: precommit_polka_def relocked_def Let_def\<close>)
  qed
qed

lemma enterPrecommit_in:
  assumes "enterPrecommit C J E h r cs = Inr cs'" and wf: "cs_wf A C J cs" and r: "r \<le> cs_Round cs"
  shows "cs_in A C J safe K cs cs'"
proof (cases "step_past h r RoundStepPrecommit cs")
  case True
  then show ?thesis
    using assms by (simp add: enterPrecommit_def unseen_in)
next
  case False
  note n = not_past [OF False r]
  have s6: "cs_Step cs < 6"
    using n(3) by (simp add: RoundStepPrecommit_def)
  obtain V where V: "cs_Prevotes cs (cs_Round cs) = Inr V"
    using assms(1) False n(2) by (auto simp: enterPrecommit_def sbind_Inr)
  obtain b ok where b: "vt_TwoThirdsMajority V = (b, ok)"
    by (cases "vt_TwoThirdsMajority V")
  show ?thesis
  proof (cases ok)
    case True
    have m: "(1, cs_Round cs, b) \<in> pr_maj (proto_of C J cs)"
      using cs_Prevotes_maj [OF V, of b] b True by simp
    obtain cs2 where "precommit_polka C J E (cs_Round cs) b cs = Inr cs2"
        "cs' = newStep (updateRoundStep (cs_Round cs) RoundStepPrecommit cs2)"
      using assms(1) False n(2) V b True
      by (auto simp: enterPrecommit_def sbind_Inr split: option.splits if_splits)
    then show ?thesis
      using precommit_polka_in [OF wf s6 m] by simp
  next
    case False
    obtain cs2 where s: "signAddVote C E VoteTypePrecommit [] cs = Inr cs2"
        "cs' = newStep (updateRoundStep (cs_Round cs) RoundStepPrecommit cs2)"
      using assms(1) \<open>\<not> step_past h r RoundStepPrecommit cs\<close> n(2) V b False
      by (auto simp: enterPrecommit_def sbind_Inr)
    have "cs_in A C J safe K cs (newStep (updateRoundStep (cs_Round cs) RoundStepPrecommit cs2))"
    proof (rule precommit_in [OF wf _ s(1)])
      fix vs assume "opt_vote (cs_Height cs, cs_Round cs, 2, []) vs"
      then show "pstep safe K (proto_of C J cs)
          ((proto_of C J cs)\<lparr>pr_s := 6, pr_lock := pr_lock (proto_of C J cs), pr_sent := pr_sent (proto_of C J cs) @ vs\<rparr>)"
        using s6 by (intro p_nil) (auto simp: proto_of_def)
    qed (use wf in \<open>auto simp: relocked_def cs_wf_def\<close>)
    then show ?thesis
      using s(2) by simp
  qed
qed

section \<open>Commits\<close>

text \<open>The next state after an applied block: of the height of the block, with the block as the last one.\<close>

lemma exec_ApplyBlock_state:
  assumes "exec_ApplyBlock C J P s bid b = (Inr s', P')"
  shows "st_LastBlockHeight s' = add64 (st_LastBlockHeight s) 1" and "st_LastBlockID s' = bid" and "st_ChainID s' = st_ChainID s"
proof -
  have a: "fst (ApplyBlock C J (ep_stateDB P) s bid b) = Inr s'"
    using assms by (auto simp: exec_ApplyBlock_def split: sum.splits prod.splits)
  then have "hd_Height (b_Header b) = add64 (st_LastBlockHeight s) 1"
    by (intro validate_inv(1) [OF apply_inv(1)])
  then show "st_LastBlockHeight s' = add64 (st_LastBlockHeight s) 1" "st_LastBlockID s' = bid" "st_ChainID s' = st_ChainID s"
    using apply_inv(2) [OF a] by (auto simp: updateState_def split: option.splits sum.splits)
qed

lemma next_validators_state:
  assumes "next_validators C E h s = Inr s'"
  shows "st_LastBlockHeight s' = st_LastBlockHeight s" and "st_LastBlockID s' = st_LastBlockID s" and "st_ChainID s' = st_ChainID s"
  using assms by (auto simp: next_validators_def sbind_Inr split: option.splits if_splits prod.splits)

lemma updateToState_new:
  assumes u: "updateToState E s cs = Inr cs'" and wf: "cs_wf A C J cs" and h: "st_LastBlockHeight s = cs_Height cs" and "cs_Height cs < MaxInt64"
  shows "cs_wf A C J cs'" and "cs_Height cs' = cs_Height cs + 1" and "cs_Round cs' = 0" and "cs_Step cs' = 1" and "cs_LockedBlock cs' = None"
    and "\<exists>H. cs_Votes cs' = Some H \<and> maj_set H = {}" and "cs_state cs' = s"
    and "sent_of (cs_out cs') = sent_of (cs_out cs)" and "due_of (cs_out cs') = due_of (cs_out cs)"
    and "cs_Validators cs' = st_Validators s"
proof -
  have w: "cs_Height cs = st_LastBlockHeight (cs_state cs) + 1" "0 < cs_Height cs" "cs_Height cs \<le> MaxInt64"
    using wf by (auto simp: cs_wf_def)
  have a: "add64 (cs_Height cs) 1 = cs_Height cs + 1"
    using w assms(4) by (simp add: add64_nonneg)
  have ne: "\<not> st_LastBlockHeight s \<le> st_LastBlockHeight (cs_state cs)"
    using h w(1) by simp
  obtain L vals where vals: "st_Validators s = Some vals" "last_precommits cs = Inr L"
    using u ne by (auto simp: updateToState_def sbind_Inr split: if_splits option.splits)
  then obtain H where H: "NewHeightVoteSet (st_ChainID s) (cs_Height cs + 1) vals = Inr H"
    using u ne h a by (auto simp: updateToState_def sbind_Inr Let_def split: if_splits)
  define cs1 where "cs1 = (updateRoundStep 0 RoundStepNewHeight (updateHeight (cs_Height cs + 1) cs))
     \<lparr>cs_StartTime := Commit_time (en_cfg E) (case cs_CommitTime cs of None \<Rightarrow> en_now E | Some t \<Rightarrow> t), cs_Validators := Some vals, cs_Proposal := None,
                   cs_ProposalBlock := None, cs_ProposalBlockHash := [], cs_LockedRound := 0, cs_LockedBlock := None,
                   cs_Votes := Some H, cs_CommitRound := -1, cs_LastCommit := L,
                   cs_LastValidators := st_LastValidators s, cs_begCons := None, cs_state := s\<rparr>"
  have cs': "cs' = newStep cs1"
    using u ne h a vals H unfolding cs1_def by (auto simp: updateToState_def sbind_def Let_def split: if_splits)
  have n: "core (newStep cs1) = core cs1" "sent_of (cs_out (newStep cs1)) = sent_of (cs_out cs1)" "due_of (cs_out (newStep cs1)) = due_of (cs_out cs1)"
    using newStep_unseen [of cs1] unfolding unseen_def by blast+
  show "cs_Height cs' = cs_Height cs + 1" "cs_Round cs' = 0" "cs_Step cs' = 1" "cs_LockedBlock cs' = None" "cs_state cs' = s"
      "sent_of (cs_out cs') = sent_of (cs_out cs)" "due_of (cs_out cs') = due_of (cs_out cs)" "\<exists>H. cs_Votes cs' = Some H \<and> maj_set H = {}"
    using n New_maj [OF H] unfolding cs' by (simp_all add: core_def cs1_def updateRoundStep_def updateHeight_def RoundStepNewHeight_def)
  show "cs_Validators cs' = st_Validators s"
    using vals by (simp add: cs' newStep_def cs_emit_def cs1_def Let_def)
  have "cs_wf A C J cs1"
    using from_new [OF H, of A C] vals h w assms(4) by (simp add: cs_wf_def cs1_def updateRoundStep_def updateHeight_def)
  then show "cs_wf A C J cs'"
    using wf_core [OF n(1)] unfolding cs' by blast
qed

text \<open>The answers of the chain never fail a commit.\<close>

definition chain_accepts :: "'tx env \<Rightarrow> bool" where
  "chain_accepts E \<longleftrightarrow> (\<forall>h txs. en_CommitBlock E h txs) \<and> (\<forall>h. en_CheckCommit E h)"

lemma chain_commit_accepts: "chain_accepts E \<Longrightarrow> chain_commit E s b cs = Inr d \<Longrightarrow> d"
  by (auto simp: chain_accepts_def chain_commit_def sbind_Inr Let_def split: option.splits if_splits)

lemma scheduleRound0_in:
  assumes "cs_wf A C J cs" and "cs_Round cs = 0"
  shows "cs_in A C J safe K cs (scheduleRound0 now cs)"
  using schedule_in [OF assms(1)] assms(2) unfolding scheduleRound0_def by metis

lemma block_applied_to:
  assumes "block_applied C J E b s cs = Inr cs'" and wf: "cs_wf A C J cs" and hmax: "cs_Height cs < MaxInt64"
    and maj: "(2, r, bid) \<in> pr_maj (proto_of C J cs)" "bid \<noteq> []"
    and s: "st_LastBlockHeight s = cs_Height cs" "st_LastBlockID s = bid"
    and safe: "safe \<Longrightarrow> chain_accepts E"
  shows "cs_to A C J safe K cs cs'"
proof -
  obtain reached where c: "chain_commit E s b cs = Inr reached"
    using assms(1) by (auto simp: block_applied_def sbind_Inr)
  show ?thesis
  proof (cases reached)
    case False
    let ?cs = "cs\<lparr>cs_LockedRound := 0, cs_LockedBlock := None\<rparr>"
    have "\<not> safe"
      using safe chain_commit_accepts [OF _ c] False by blast
    then have "pstep safe K (proto_of C J cs) ((proto_of C J cs)\<lparr>pr_lock := None\<rparr>)"
      using maj by (rule p_fail)
    moreover have "proto_of C J ?cs = (proto_of C J cs)\<lparr>pr_lock := None\<rparr>"
      by (simp add: proto_of_def)
    moreover have w: "cs_wf A C J ?cs"
      using wf unfolding cs_wf_def by auto
    ultimately have "cs_to A C J safe K cs ?cs"
      by (simp add: cs_to_def r_into_rtranclp)
    moreover have "enterNewRound C J E (cs_Height cs) (cs_CommitRound cs + 1) ?cs = Inr cs'"
      using assms(1) c False by (simp add: block_applied_def sbind_def)
    then have "cs_in A C J safe K ?cs cs'"
      using enterNewRound_in [OF _ w] wf by (auto simp: cs_wf_def)
    ultimately show ?thesis
      using cs_to_trans cs_in_def by blast
  next
    case True
    obtain s1 cs1 where s1: "next_validators C E (hd_Height (b_Header b)) s = Inr s1" and u: "updateToState E s1 cs = Inr cs1"
        and cs': "cs' = scheduleRound0 (en_now E) cs1"
      using assms(1) c True by (auto simp: block_applied_def sbind_Inr)
    note n = next_validators_state [OF s1]
    note t = updateToState_new [OF u wf n(1) [unfolded s] hmax]
    have "proto_of C J cs1 = (proto_of C J cs)\<lparr>pr_h := pr_h (proto_of C J cs) + 1, pr_r := 0, pr_s := 1, pr_lock := None, pr_maj := {},
        pr_last := (pr_h (proto_of C J cs), bid)\<rparr>"
      using t n s by (auto simp: proto_of_def)
    then have "pstep safe K (proto_of C J cs) (proto_of C J cs1)"
      using p_commit [OF maj, of safe K] by simp
    then have "cs_to A C J safe K cs cs1"
      using t(1) by (simp add: cs_to_def r_into_rtranclp)
    then show ?thesis
      using scheduleRound0_in [OF t(1,3)] cs_to_trans unfolding cs' cs_in_def by blast
  qed
qed

lemma finalizeCommit_to:
  assumes "finalizeCommit C J E h cs = Inr cs'" and wf: "cs_wf A C J cs" and hmax: "cs_Height cs < MaxInt64" and safe: "safe \<Longrightarrow> chain_accepts E"
  shows "cs_to A C J safe K cs cs'"
proof (cases "cs_Height cs \<noteq> h \<or> cs_Step cs \<noteq> RoundStepCommit")
  case True
  then show ?thesis
    using assms by (simp add: finalizeCommit_def unseen_to)
next
  case False
  obtain V where V: "cs_Precommits cs (cs_CommitRound cs) = Inr V"
    using assms(1) False by (auto simp: finalizeCommit_def sbind_Inr)
  obtain bid ok where m: "vt_TwoThirdsMajority V = (bid, ok)"
    by (cases "vt_TwoThirdsMajority V")
  then have ok: "ok"
    using assms(1) False V by (cases ok) (auto simp: finalizeCommit_def sbind_def)
  obtain b where b: "cs_ProposalBlock cs = Some b" "HashesTo C J (Some b) bid"
    using assms(1) False V m ok by (auto simp: finalizeCommit_def sbind_def split: option.splits if_splits)
  have maj: "(2, cs_CommitRound cs, bid) \<in> pr_maj (proto_of C J cs)" "bid \<noteq> []" "block_Hash C J b = bid"
    using cs_Precommits_maj [OF V, of bid] m ok b by (auto simp: HashesTo_iff)
  obtain res P where x: "exec_ApplyBlock C J (cs_evpool cs) (cs_state cs) bid b = (res, P)"
    by (cases "exec_ApplyBlock C J (cs_evpool cs) (cs_state cs) bid b")
  let ?cs = "cs\<lparr>cs_evpool := P\<rparr>"
  have u: "unseen cs ?cs"
    by (simp add: unseen_def core_def)
  have w: "cs_wf A C J ?cs"
    using unseen_wf [OF u] wf by blast
  have "cs_to A C J safe K ?cs cs'"
  proof (cases res)
    case (Inl e)
    then have "enterNewRound C J E (cs_Height cs) (cs_CommitRound cs + 1) ?cs = Inr cs'"
      using assms(1) False V m ok b x maj(3) by (auto simp: finalizeCommit_def sbind_Inr split: if_splits)
    then show ?thesis
      using enterNewRound_in [OF _ w] wf by (auto simp: cs_wf_def cs_in_def)
  next
    case (Inr s)
    note st = exec_ApplyBlock_state [OF x [unfolded Inr]]
    have "st_LastBlockHeight s = cs_Height ?cs"
      using st(1) wf by (simp add: cs_wf_def add64_nonneg)
    moreover have "block_applied C J E b s ?cs = Inr cs'"
      using assms(1) False V m ok b x maj(3) Inr by (auto simp: finalizeCommit_def sbind_Inr split: if_splits)
    ultimately show ?thesis
      using block_applied_to [OF _ w, of E b s cs' "cs_CommitRound cs" bid safe K] maj st(2) hmax safe unseen_proto [OF u] by simp
  qed
  then show ?thesis
    using cs_to_trans [OF unseen_to [OF u wf]] by blast
qed

lemma tryFinalizeCommit_to:
  assumes "tryFinalizeCommit C J E h cs = Inr cs'" and wf: "cs_wf A C J cs" and "cs_Height cs < MaxInt64" and "safe \<Longrightarrow> chain_accepts E"
  shows "cs_to A C J safe K cs cs'"
proof -
  obtain V where V: "cs_Precommits cs (cs_CommitRound cs) = Inr V"
    using assms(1) by (auto simp: tryFinalizeCommit_def sbind_Inr split: if_splits)
  have "cs' = cs \<or> finalizeCommit C J E h cs = Inr cs'"
    using assms(1) V by (cases "vt_TwoThirdsMajority V") (auto simp: tryFinalizeCommit_def sbind_def split: if_splits)
  then show ?thesis
    using finalizeCommit_to [OF _ wf assms(3,4)] unseen_to [OF unseen_refl wf] by blast
qed

lemma commit_block_unseen: "unseen cs (commit_block C J b cs)"
  by (simp add: commit_block_def Let_def unseen_def core_def)

lemma enterCommit_to:
  assumes "enterCommit C J E h r cs = Inr cs'" and wf: "cs_wf A C J cs" and hmax: "cs_Height cs < MaxInt64" and safe: "safe \<Longrightarrow> chain_accepts E"
    and r: "r < 2 ^ 31 - 1"
  shows "cs_to A C J safe K cs cs'"
proof (cases "cs_Height cs \<noteq> h \<or> RoundStepCommit \<le> cs_Step cs")
  case True
  then show ?thesis
    using assms by (simp add: enterCommit_def unseen_to)
next
  case False
  obtain V where V0: "cs_Precommits cs r = Inr V"
    using assms(1) False by (auto simp: enterCommit_def sbind_Inr)
  obtain b where "vt_TwoThirdsMajority V = (b, True)"
    using assms(1) False V0 by (cases "vt_TwoThirdsMajority V"; cases "snd (vt_TwoThirdsMajority V)") (auto simp: enterCommit_def sbind_def)
  note V = V0 this
  define cs1 where "cs1 = commit_block C J b cs"
  define cs2 where "cs2 = (updateRoundStep (cs_Round cs1) RoundStepCommit cs1)\<lparr>cs_CommitRound := r, cs_CommitTime := Some (en_now E)\<rparr>"
  have u: "unseen cs cs1"
    by (simp add: cs1_def commit_block_unseen)
  have t: "tryFinalizeCommit C J E h (newStep cs2) = Inr cs'"
    using assms(1) False V unfolding enterCommit_def cs1_def cs2_def by (simp add: sbind_def Let_def)
  have c1: "cs_Height cs1 = cs_Height cs" "cs_Step cs1 < 8" "cs_wf A C J cs1"
    using u False unseen_wf [OF u] wf by (auto simp: unseen_def core_def RoundStepCommit_def)
  have w: "cs_wf A C J cs2"
    using c1(3) r unfolding cs_wf_def cs2_def updateRoundStep_def by auto
  have "proto_of C J cs2 = (proto_of C J cs1)\<lparr>pr_r := cs_Round cs1, pr_s := 8\<rparr>"
    by (simp add: proto_of_def cs2_def updateRoundStep_def RoundStepCommit_def)
  moreover have "pstep safe K (proto_of C J cs1) ((proto_of C J cs1)\<lparr>pr_r := cs_Round cs1, pr_s := 8\<rparr>)"
    by (rule p_advance) (use c1 in \<open>simp add: proto_of_def\<close>)
  ultimately have "cs_to A C J safe K cs1 cs2"
    using w by (simp add: cs_to_def r_into_rtranclp)
  then have "cs_to A C J safe K cs (newStep cs2)"
    by (intro cs_to_trans [OF unseen_to [OF u wf]] cs_to_trans [OF _ unseen_to [OF newStep_unseen w]])
  moreover have "cs_Height (newStep cs2) = cs_Height cs"
    using newStep_unseen [of cs2] c1(1) by (simp add: unseen_def core_def cs2_def updateRoundStep_def)
  ultimately show ?thesis
    using cs_to_trans [OF _ tryFinalizeCommit_to [OF t _ _ safe]] hmax by (auto simp: cs_to_def)
qed

section \<open>Messages\<close>

lemma defaultSetProposal_unseen:
  assumes "defaultSetProposal C E p cs = Inr (e, cs')"
  shows "unseen cs cs'"
proof -
  let ?cs = "begin_cons E cs"
  have v: "unseen cs (?cs\<lparr>cs_Validators := x\<rparr>)" "unseen cs (?cs\<lparr>cs_Validators := x, cs_Proposal := y, cs_ProposalBlockHash := z\<rparr>)" for x y z
    using begin_cons_unseen [of cs E] by (simp_all add: unseen_def core_def)
  consider "cs' = cs" | "cs' = ?cs" | vals where "cs_Validators ?cs = Some vals"
      "(case GetProposer vals of
               (Inr (Some proposer), vals') \<Rightarrow>
                 let cs2 = ?cs\<lparr>cs_Validators := Some vals'\<rparr> in
                 (case PubKeyFromBytes C (val_PubKey proposer) of
                    None \<Rightarrow> Inr (Some (CErr (AErr ErrPubKeyFromBytes)), cs2)
                  | Some pubkey \<Rightarrow>
                      (case SignatureFromBytes C (p_Signature p) of
                         None \<Rightarrow> Inr (Some (CErr (AErr ErrSignatureFromBytes)), cs2)
                       | Some sig \<Rightarrow>
                           if \<not> VerifyBytes C pubkey (SignBytes_proposal (st_ChainID (cs_state cs2)) p) sig
                           then Inr (Some ErrInvalidProposalSignature, cs2)
                           else Inr (None, cs2\<lparr>cs_Proposal := Some p, cs_ProposalBlockHash := p_Blockhash p\<rparr>)))
             | _ \<Rightarrow> Inl TmPanic) = Inr (e, cs')"
    using assms unfolding defaultSetProposal_def Let_def by (auto split: if_splits option.splits)
  then show ?thesis
  proof cases
    case (3 vals)
    then obtain proposer vals' where "GetProposer vals = (Inr (Some proposer), vals')"
      by (cases "GetProposer vals"; cases "fst (GetProposer vals)") (auto split: option.splits)
    then show ?thesis
      using 3(2) v by (auto simp: Let_def split: option.splits if_splits)
  qed simp_all
qed

lemma addProposalBlock_to:
  assumes "addProposalBlock C J E b cs = Inr cs'" and wf: "cs_wf A C J cs" and hmax: "cs_Height cs < MaxInt64" and safe: "safe \<Longrightarrow> chain_accepts E"
  shows "cs_to A C J safe K cs cs'"
proof -
  let ?cs = "(begin_cons E cs)\<lparr>cs_ProposalBlock := Some b\<rparr>"
  have u1: "unseen cs (begin_cons E cs)" and u2: "unseen cs ?cs"
    using begin_cons_unseen [of cs E] by (auto simp: unseen_def core_def)
  have w: "cs_wf A C J ?cs" and c: "cs_Height ?cs < MaxInt64"
    using unseen_wf [OF u2] wf u2 hmax by (auto simp: unseen_def core_def)
  have "cs' = cs \<or> cs' = begin_cons E cs \<or> enterPrevote C J E (cs_Height ?cs) (cs_Round ?cs) ?cs = Inr cs'
      \<or> tryFinalizeCommit C J E (cs_Height ?cs) ?cs = Inr cs' \<or> cs' = ?cs"
    using assms(1) by (auto simp: addProposalBlock_def Let_def split: if_splits)
  moreover have "cs_to A C J safe K cs cs'" if "enterPrevote C J E (cs_Height ?cs) (cs_Round ?cs) ?cs = Inr cs'"
    using cs_to_trans [OF unseen_to [OF u2 wf]] enterPrevote_to [OF that w] by blast
  moreover have "cs_to A C J safe K cs cs'" if "tryFinalizeCommit C J E (cs_Height ?cs) ?cs = Inr cs'"
    using cs_to_trans [OF unseen_to [OF u2 wf]] tryFinalizeCommit_to [OF that w c safe] by blast
  ultimately show ?thesis
    using unseen_to [OF u1 wf] unseen_to [OF u2 wf] unseen_to [OF unseen_refl wf] by metis
qed

lemma unlock_in:
  assumes wf: "cs_wf A C J cs" and V: "cs_Prevotes cs r = Inr V"
  shows "cs_in A C J safe K cs (unlock_by_polka C J r V cs)"
proof (cases "unlock_by_polka C J r V cs = cs")
  case True
  then show ?thesis
    using unseen_in [OF unseen_refl wf] by simp
next
  case False
  obtain b ok where m: "vt_TwoThirdsMajority V = (b, ok)"
    by (cases "vt_TwoThirdsMajority V")
  then have c: "ok" "cs_LockedBlock cs \<noteq> None" "cs_LockedRound cs < r" "r \<le> cs_Round cs" "\<not> HashesTo C J (cs_LockedBlock cs) b"
      and e: "unlock_by_polka C J r V cs = cs\<lparr>cs_LockedRound := 0, cs_LockedBlock := None\<rparr>"
    using False by (auto simp: unlock_by_polka_def split: if_splits)
  obtain b0 where b0: "cs_LockedBlock cs = Some b0"
    using c(2) by blast
  have "pstep safe K (proto_of C J cs) ((proto_of C J cs)\<lparr>pr_lock := None\<rparr>)"
  proof (rule p_unlock)
    show "pr_lock (proto_of C J cs) = Some (cs_LockedRound cs, block_Hash C J b0)"
      by (simp add: proto_of_def b0)
    show "(1, r, b) \<in> pr_maj (proto_of C J cs)"
      using cs_Prevotes_maj [OF V, of b] m c(1) by simp
    show "b \<noteq> block_Hash C J b0"
      using c(5) b0 wf by (auto simp: HashesTo_iff cs_wf_def)
  qed (use c in \<open>simp_all add: proto_of_def\<close>)
  moreover have "proto_of C J (cs\<lparr>cs_LockedRound := 0, cs_LockedBlock := None\<rparr>) = (proto_of C J cs)\<lparr>pr_lock := None\<rparr>"
    by (simp add: proto_of_def)
  moreover have "cs_wf A C J (cs\<lparr>cs_LockedRound := 0, cs_LockedBlock := None\<rparr>)"
    using wf unfolding cs_wf_def by auto
  ultimately show ?thesis
    unfolding e by (simp add: cs_in_def cs_to_def r_into_rtranclp)
qed

lemma added_prevote_in:
  assumes "added_prevote C J E h r cs = Inr cs'" and wf: "cs_wf A C J cs" and h: "cs_Height cs = h" and r: "r < 2 ^ 31"
  shows "cs_in A C J safe K cs cs'"
proof -
  obtain V where V: "cs_Prevotes cs r = Inr V"
    using assms(1) by (auto simp: added_prevote_def sbind_Inr)
  define cs1 where "cs1 = unlock_by_polka C J r V cs"
  have i1: "cs_in A C J safe K cs cs1"
    unfolding cs1_def by (rule unlock_in [OF wf V])
  note w1 = cs_in_wf [OF i1]
  have h1: "cs_Height cs1 = h"
    using i1 h by (simp add: cs_in_def)
  have e: "(if cs_Round cs1 \<le> r \<and> vt_HasTwoThirdsAny V then
         sbind (enterNewRound C J E h r cs1) (\<lambda>cs2.
           if vt_HasTwoThirdsMajority V then enterPrecommit C J E h r cs2
           else sbind (enterPrevote C J E h r cs2) (enterPrevoteWait E h r))
       else if (case cs_Proposal cs1 of None \<Rightarrow> False | Some p \<Rightarrow> 0 \<le> p_POLRound p \<and> p_POLRound p = r) then
         sbind (isProposalComplete cs1) (\<lambda>complete.
           if complete then enterPrevote C J E h (cs_Round cs1) cs1 else Inr cs1)
       else Inr cs1) = Inr cs'"
    using assms(1) unfolding added_prevote_def V sbind_def [of "Inr V"] sum.case Let_def cs1_def .
  consider "cs' = cs1"
    | "enterPrevote C J E h (cs_Round cs1) cs1 = Inr cs'"
    | cs2 where "enterNewRound C J E h r cs1 = Inr cs2" "enterPrecommit C J E h r cs2 = Inr cs'"
    | cs2 cs3 where "enterNewRound C J E h r cs1 = Inr cs2" "enterPrevote C J E h r cs2 = Inr cs3" "enterPrevoteWait E h r cs3 = Inr cs'"
  proof (cases "cs_Round cs1 \<le> r \<and> vt_HasTwoThirdsAny V")
    case True
    then show ?thesis
      using e that(3,4) by (cases "vt_HasTwoThirdsMajority V") (simp_all add: sbind_Inr, blast+)
  next
    case False
    then have "cs' = cs1 \<or> enterPrevote C J E h (cs_Round cs1) cs1 = Inr cs'"
      using e unfolding if_not_P [OF False] by (auto simp: sbind_Inr split: if_splits)
    then show ?thesis
      using that(1,2) by blast
  qed
  then have "cs_in A C J safe K cs1 cs'"
  proof cases
    case 1
    then show ?thesis
      using unseen_in [OF unseen_refl w1] by simp
  next
    case 2
    then show ?thesis
      using enterPrevote_in [OF 2 w1] by simp
  next
    case (3 cs2)
    note e = enterNewRound_in [OF 3(1) w1 r, of safe K]
    have "cs_in A C J safe K cs2 cs'"
      by (rule enterPrecommit_in [OF 3(2) cs_in_wf]) (use e h1 in blast)+
    then show ?thesis
      using e cs_in_trans by blast
  next
    case (4 cs2 cs3)
    note e = enterNewRound_in [OF 4(1) w1 r, of safe K]
    have r2: "r \<le> cs_Round cs2"
      using e h1 by blast
    have i3: "cs_in A C J safe K cs2 cs3"
      by (rule enterPrevote_in [OF 4(2) cs_in_wf r2]) (use e in blast)
    have "cs_in A C J safe K cs3 cs'"
      using i3 r2 by (intro enterPrevoteWait_in [OF 4(3) cs_in_wf [OF i3]]) (simp add: cs_in_def)
    then show ?thesis
      using e i3 cs_in_trans by blast
  qed
  then show ?thesis
    by (rule cs_in_trans [OF i1])
qed

lemma added_precommit_to:
  assumes "added_precommit C J E h r cs = Inr cs'" and wf: "cs_wf A C J cs" and h: "cs_Height cs = h" and r: "r < 2 ^ 31 - 1"
    and hmax: "cs_Height cs < MaxInt64" and safe: "safe \<Longrightarrow> chain_accepts E"
  shows "cs_to A C J safe K cs cs'"
proof -
  have r31: "r < 2 ^ 31" "r + 1 < 2 ^ 31"
    using r by simp_all
  consider "cs' = cs" | "enterNewRound C J E h (r + 1) cs = Inr cs'"
    | cs1 cs2 where "enterNewRound C J E h r cs = Inr cs1" "enterPrecommit C J E h r cs1 = Inr cs2" "enterPrecommitWait E h r cs2 = Inr cs'"
    | cs1 cs2 cs3 where "enterNewRound C J E h r cs = Inr cs1" "enterPrecommit C J E h r cs1 = Inr cs2" "enterCommit C J E h r cs2 = Inr cs3"
        "cs' = cs3 \<or> enterNewRound C J E (cs_Height cs3) 0 cs3 = Inr cs'"
    using assms(1) unfolding added_precommit_def by (auto simp: sbind_Inr split: if_splits prod.splits)
  then show ?thesis
  proof cases
    case 1
    then show ?thesis
      using unseen_to [OF unseen_refl wf] by simp
  next
    case 2
    then show ?thesis
      using enterNewRound_in [OF 2 wf r31(2), of safe K] by (simp add: cs_in_def)
  next
    case (3 cs1 cs2)
    have e: "cs_in A C J safe K cs cs1" "r \<le> cs_Round cs1"
      using enterNewRound_in [OF 3(1) wf r31(1), of safe K] h by auto
    have p: "cs_in A C J safe K cs1 cs2"
      by (rule enterPrecommit_in [OF 3(2) cs_in_wf [OF e(1)] e(2)])
    have "cs_in A C J safe K cs2 cs'"
      using p e(2) by (intro enterPrecommitWait_in [OF 3(3) cs_in_wf [OF p]]) (simp add: cs_in_def)
    then show ?thesis
      using e(1) p cs_in_trans unfolding cs_in_def by blast
  next
    case (4 cs1 cs2 cs3)
    have e: "cs_in A C J safe K cs cs1" "r \<le> cs_Round cs1"
      using enterNewRound_in [OF 4(1) wf r31(1), of safe K] h by auto
    have p: "cs_in A C J safe K cs1 cs2"
      by (rule enterPrecommit_in [OF 4(2) cs_in_wf [OF e(1)] e(2)])
    have h2: "cs_Height cs2 < MaxInt64"
      using e p hmax by (simp add: cs_in_def)
    have c: "cs_to A C J safe K cs2 cs3"
      by (rule enterCommit_to [OF 4(3) cs_in_wf [OF p] h2 safe r])
    have "cs_to A C J safe K cs3 cs'"
      using 4(4) enterNewRound_in [of C J E "cs_Height cs3" 0 cs3 cs' A safe K] unseen_to [OF unseen_refl, of A C J cs3] c
      by (auto simp: cs_in_def cs_to_def)
    then show ?thesis
      using e(1) p c cs_to_trans unfolding cs_in_def by blast
  qed
qed

lemma learn_in:
  assumes v: "v \<in> A" and wf: "cs_wf A C J cs" and H: "cs_Votes cs = Some H" and K: "\<forall>(t, r, b) \<in> maj_set (snd (hv_AddVote C H v p)). (cs_Height cs, t, r, b) \<in> K"
  shows "cs_in A C J safe K cs (cs\<lparr>cs_Votes := Some (snd (hv_AddVote C H v p))\<rparr>)"
proof -
  let ?cs = "cs\<lparr>cs_Votes := Some (snd (hv_AddVote C H v p))\<rparr>"
  obtain S where S: "st_Validators (cs_state cs) = Some S" "hv_from A C (st_ChainID (cs_state cs)) (cs_Height cs) S H"
    using wf H by (auto simp: cs_wf_def)
  have "cs_wf A C J ?cs"
    using wf S(1) from_add [OF S(2) v, of p] unfolding cs_wf_def by auto
  moreover have "proto_of C J ?cs = (proto_of C J cs)\<lparr>pr_maj := maj_set (snd (hv_AddVote C H v p))\<rparr>"
    by (simp add: proto_of_def)
  moreover have "pstep safe K (proto_of C J cs) ((proto_of C J cs)\<lparr>pr_maj := maj_set (snd (hv_AddVote C H v p))\<rparr>)"
    by (rule p_learn) (use H AddVote_maj [of H C v p] K in \<open>auto simp: proto_of_def\<close>)
  ultimately show ?thesis
    by (simp add: cs_in_def cs_to_def r_into_rtranclp)
qed

text \<open>A vote that may be added, and the majorities that it may make known.\<close>

definition learns where
  "learns A C K v p cs \<longleftrightarrow> v \<in> A \<and> (\<forall>H. v_Height v = cs_Height cs \<and> cs_Votes cs = Some H
     \<longrightarrow> (\<forall>(t, r, b) \<in> maj_set (snd (hv_AddVote C H v p)). (cs_Height cs, t, r, b) \<in> K))"

lemma cs_addVote_to:
  assumes "cs_addVote C J E v p cs = Inr (e, cs')" and wf: "cs_wf A C J cs" and hmax: "cs_Height cs < MaxInt64"
    and safe: "safe \<Longrightarrow> chain_accepts E" and r: "v_Round v < 2 ^ 31 - 1" and K: "learns A C K v p cs"
  shows "cs_to A C J safe K cs cs'"
proof (cases "v_Height v = cs_Height cs")
  case False
  then show ?thesis
    using assms(1) unseen_to [OF unseen_refl wf] by (simp add: cs_addVote_def)
next
  case True
  define cs1 where "cs1 = begin_cons E cs"
  have u1: "unseen cs cs1"
    by (simp add: cs1_def)
  obtain H where H: "cs_Votes cs = Some H"
    using wf by (auto simp: cs_wf_def)
  have w1: "cs_wf A C J cs1" and H1: "cs_Votes cs1 = Some H" and h1: "cs_Height cs1 = cs_Height cs"
    using unseen_wf [OF u1] wf u1 H by (auto simp: unseen_def core_def)
  obtain added err H' where a: "hv_AddVote C H v p = ((added, err), H')"
    by (cases "hv_AddVote C H v p") auto
  define cs2 where "cs2 = cs1\<lparr>cs_Votes := Some H'\<rparr>"
  have "cs_in A C J safe K cs1 cs2"
    using learn_in [OF _ w1 H1, of v p K safe] K H True a h1 unfolding cs2_def learns_def by auto
  then have i2: "cs_in A C J safe K cs cs2"
    by (rule cs_in_trans [OF unseen_in [OF u1 wf]])
  define cs3 where "cs3 = cs_emit (Ev_HasVote (v_Height v) (v_Round v) (v_Type v) (v_ValidatorIndex v)) cs2"
  have "unseen cs2 cs3"
    by (simp add: cs3_def unseen_def core_def cs_emit_def)
  then have i3: "cs_in A C J safe K cs cs3"
    by (intro cs_in_trans [OF i2] unseen_in cs_in_wf [OF i2])
  have h3: "cs_Height cs3 = cs_Height cs" "cs_Height cs2 = cs_Height cs"
    using i2 i3 by (simp_all add: cs_in_def)
  have "cs' = cs2 \<or> added_prevote C J E (cs_Height cs2) (v_Round v) cs3 = Inr cs' \<or> added_precommit C J E (cs_Height cs2) (v_Round v) cs3 = Inr cs'"
    using assms(1) True H1 a unfolding cs_addVote_def cs1_def [symmetric] Let_def cs3_def cs2_def
    by (auto simp: sbind_Inr split: if_splits)
  moreover have "cs_in A C J safe K cs3 cs'" if "added_prevote C J E (cs_Height cs2) (v_Round v) cs3 = Inr cs'"
    by (rule added_prevote_in [OF that cs_in_wf [OF i3]]) (use h3 r in auto)
  moreover have "cs_to A C J safe K cs3 cs'" if "added_precommit C J E (cs_Height cs2) (v_Round v) cs3 = Inr cs'"
    by (rule added_precommit_to [OF that cs_in_wf [OF i3] _ r]) (use h3 hmax safe in auto)
  ultimately show ?thesis
    using i2 i3 cs_to_trans unfolding cs_in_def by blast
qed

lemma tryAddVote_to:
  assumes "tryAddVote C J E v p cs = Inr (e, cs')" and wf: "cs_wf A C J cs" and hmax: "cs_Height cs < MaxInt64"
    and safe: "safe \<Longrightarrow> chain_accepts E" and r: "v_Round v < 2 ^ 31 - 1" and K: "learns A C K v p cs"
  shows "cs_to A C J safe K cs cs'"
proof -
  obtain err cs1 where a: "cs_addVote C J E v p cs = Inr (err, cs1)"
    using assms(1) by (auto simp: tryAddVote_def sbind_Inr)
  have t: "cs_to A C J safe K cs cs1"
    by (rule cs_addVote_to [OF a wf hmax safe r K])
  have "cs' = cs1 \<or> (\<exists>P. cs' = cs1\<lparr>cs_evpool := P\<rparr>)"
    using assms(1) a by (auto simp: tryAddVote_def sbind_def split: option.splits cs_err.splits add_err.splits if_splits prod.splits)
  then have "unseen cs1 cs'"
    by (auto simp: unseen_def core_def)
  then show ?thesis
    using cs_to_trans [OF t] unseen_to t unfolding cs_to_def by blast
qed

lemma SetPeerMaj23_to:
  assumes "cs_SetPeerMaj23 h r t p b cs = Inr cs'" and wf: "cs_wf A C J cs"
  shows "cs_to A C J safe K cs cs'"
proof (cases "h = cs_Height cs")
  case False
  then show ?thesis
    using assms unseen_to [OF unseen_refl wf] by (simp add: cs_SetPeerMaj23_def)
next
  case True
  obtain S H where H: "st_Validators (cs_state cs) = Some S" "cs_Votes cs = Some H" "hv_from A C (st_ChainID (cs_state cs)) (cs_Height cs) S H"
    using wf by (auto simp: cs_wf_def)
  obtain H' where H': "hv_SetPeerMaj23 H r t p b = Inr H'" "cs' = cs\<lparr>cs_Votes := Some H'\<rparr>"
    using assms(1) True H(2) by (auto simp: cs_SetPeerMaj23_def sbind_Inr)
  have "proto_of C J cs' = proto_of C J cs"
    using hv_SetPeerMaj23_maj [OF H'(1)] H(2) H'(2) by (simp add: proto_of_def)
  moreover have "cs_wf A C J cs'"
    using wf H(1) from_peer [OF H(3) H'(1)] H'(2) unfolding cs_wf_def by auto
  ultimately show ?thesis
    by (simp add: cs_to_def)
qed

text \<open>
  The inputs of a run: below the largest height and round, votes of rounds below the largest, and timeouts
  that were scheduled.
\<close>

definition input_ok :: "('tx, 'pub, 'sig, 'priv) ConsensusState \<Rightarrow> 'tx input \<Rightarrow> bool" where
  "input_ok cs i \<longleftrightarrow> cs_Height cs < MaxInt64 \<and> cs_Round cs < 2 ^ 31 - 1
     \<and> (case i of In_Msg (Msg_Vote v) p \<Rightarrow> v_Round v < 2 ^ 31 - 1 | In_Timeout ti \<Rightarrow> Ev_Timeout ti \<in> set (cs_out cs) | _ \<Rightarrow> True)"

definition input_learns where
  "input_learns A C K i cs \<longleftrightarrow> (case i of In_Msg (Msg_Vote v) p \<Rightarrow> learns A C K v p cs | _ \<Rightarrow> True)"

lemma handleTimeout_to:
  assumes t: "handleTimeout C J E ti cs = Inr cs'" and wf: "cs_wf A C J cs" and ok: "input_ok cs (In_Timeout ti)" and inv: "pinv (proto_of C J cs)"
  shows "cs_to A C J safe K cs cs'"
proof -
  have "(ti_Height ti, ti_Round ti) \<in> pr_due (proto_of C J cs)"
    using ok by (force simp: input_ok_def proto_of_def due_of_def)
  from pinvD(4) [OF inv this] have le: "ti_Height ti = cs_Height cs \<Longrightarrow> ti_Round ti \<le> cs_Round cs"
    by (simp add: proto_of_def)
  have r: "cs_Round cs < 2 ^ 31 - 1" "0 \<le> cs_Round cs"
    using ok wf by (auto simp: input_ok_def cs_wf_def)
  let ?h = "ti_Height ti" and ?r = "ti_Round ti"
  consider "cs' = cs" | "?h = cs_Height cs" "enterNewRound C J E ?h 0 cs = Inr cs'" | "?h = cs_Height cs" "enterPropose C J E ?h 0 cs = Inr cs'"
    | "?h = cs_Height cs" "enterPrevote C J E ?h ?r cs = Inr cs'" | "?h = cs_Height cs" "enterPrecommit C J E ?h ?r cs = Inr cs'"
    | "?h = cs_Height cs" "enterNewRound C J E ?h (?r + 1) cs = Inr cs'"
    using t unfolding handleTimeout_def by (auto split: if_splits)
  then show ?thesis
  proof cases
    case 1
    then show ?thesis
      using unseen_to [OF unseen_refl wf] by simp
  next
    case 2
    then show ?thesis
      using enterNewRound_in [OF 2(2) wf, of safe K] by (simp add: cs_in_def)
  next
    case 3
    then show ?thesis
      using enterPropose_in [OF 3(2) wf r(2), of safe K] by (simp add: cs_in_def)
  next
    case 4
    then show ?thesis
      using enterPrevote_in [OF 4(2) wf le [OF 4(1)], of safe K] by (simp add: cs_in_def)
  next
    case 5
    then show ?thesis
      using enterPrecommit_in [OF 5(2) wf le [OF 5(1)], of safe K] by (simp add: cs_in_def)
  next
    case 6
    then show ?thesis
      using enterNewRound_in [OF 6(2) wf, of safe K] le [OF 6(1)] r by (simp add: cs_in_def)
  qed
qed

lemma receive_to:
  assumes rc: "receive C J E i cs = Inr cs'" and wf: "cs_wf A C J cs" and ok: "input_ok cs i" and inv: "pinv (proto_of C J cs)"
    and safe: "safe \<Longrightarrow> chain_accepts E" and K: "input_learns A C K i cs"
  shows "cs_to A C J safe K cs cs'"
proof -
  have hmax: "cs_Height cs < MaxInt64" and r: "0 \<le> cs_Round cs"
    using ok wf by (auto simp: input_ok_def cs_wf_def)
  show ?thesis
  proof (cases i)
    case (In_TxsAvailable h)
    then show ?thesis
      using rc enterPropose_in [OF _ wf r, of E h cs' safe K] by (simp add: receive_def handleTxsAvailable_def cs_in_def)
  next
    case (In_Timeout ti)
    then show ?thesis
      using handleTimeout_to [OF _ wf _ inv, of E ti cs'] rc ok by (simp add: receive_def)
  next
    case (In_PeerMaj23 h r t p b)
    then show ?thesis
      using SetPeerMaj23_to [OF _ wf] rc by (simp add: receive_def)
  next
    case m: (In_Msg m p)
    show ?thesis
    proof (cases m)
      case (Msg_Proposal pr)
      then obtain e where "defaultSetProposal C E pr cs = Inr (e, cs')"
        using rc m by (auto simp: receive_def handleMsg_def sbind_Inr)
      then show ?thesis
        using unseen_to [OF defaultSetProposal_unseen wf] by blast
    next
      case (Msg_Block b)
      then show ?thesis
        using addProposalBlock_to [OF _ wf hmax safe] rc m by (simp add: receive_def handleMsg_def)
    next
      case (Msg_Vote v)
      then obtain e where "tryAddVote C J E v p cs = Inr (e, cs')"
        using rc m by (auto simp: receive_def handleMsg_def sbind_Inr)
      then show ?thesis
        using tryAddVote_to [OF _ wf hmax safe] ok K m Msg_Vote by (simp add: input_ok_def input_learns_def)
    next
      case Msg_Unknown
      then show ?thesis
        using rc m unseen_to [OF unseen_refl wf] by (simp add: receive_def handleMsg_def)
    qed
  qed
qed

end
