(* ===== verification/ConsensusRun.thy ===== *)
theory ConsensusRun
  imports ConsensusRefine
begin

text \<open>
  Runs of the consensus state machine of \<^verbatim>\<open>src/plugin/consensus/tendermint/consensus_state.go\<close>: one node from its
  start through any sequence of inputs, and a network of nodes that exchange signed votes.
\<close>

section \<open>Runs\<close>

lemma updateToState_first:
  assumes u: "updateToState E s cs = Inr cs1" and cs: "cs_Height cs = 0" "cs_state cs = zero_state" "cs_Votes cs = None" "cs_broadcastChannel cs = False"
    "cs_out cs = []"
  obtains vals H where "st_Validators s = Some vals" and "NewHeightVoteSet (st_ChainID s) (add64 (st_LastBlockHeight s) 1) vals = Inr H"
    and "cs_state cs1 = s" and "cs_Height cs1 = add64 (st_LastBlockHeight s) 1" and "cs_Round cs1 = 0" and "cs_LockedBlock cs1 = None"
    and "cs_Votes cs1 = Some H" and "cs_out cs1 = []" and "cs_CommitRound cs1 = -1"
proof -
  have e: "state_IsEmpty (cs_state cs)"
    by (simp add: cs state_IsEmpty_def zero_state_def)
  obtain L vals where vals: "st_Validators s = Some vals" "last_precommits cs = Inr L"
    using u e cs(1) by (auto simp: updateToState_def sbind_Inr split: option.splits)
  then obtain H where H: "NewHeightVoteSet (st_ChainID s) (add64 (st_LastBlockHeight s) 1) vals = Inr H"
    using u e cs(1) by (auto simp: updateToState_def sbind_Inr Let_def)
  have cs1: "cs1 = newStep ((updateRoundStep 0 RoundStepNewHeight (updateHeight (add64 (st_LastBlockHeight s) 1) cs))
     \<lparr>cs_StartTime := Commit_time (en_cfg E) (case cs_CommitTime cs of None \<Rightarrow> en_now E | Some t \<Rightarrow> t), cs_Validators := Some vals, cs_Proposal := None,
                   cs_ProposalBlock := None, cs_ProposalBlockHash := [], cs_LockedRound := 0, cs_LockedBlock := None,
                   cs_Votes := Some H, cs_CommitRound := -1, cs_LastCommit := L,
                   cs_LastValidators := st_LastValidators s, cs_begCons := None, cs_state := s\<rparr>)"
    using u e cs(1) vals H by (simp add: updateToState_def sbind_def Let_def)
  show thesis
    by (rule that [OF vals(1) H])
      (simp_all add: cs1 newStep_def cs_emit_def updateRoundStep_def updateHeight_def cs(4,5) Let_def)
qed

lemma NewConsensusState_new:
  assumes "NewConsensusState C E seen P s = Inr cs"
  obtains vals H where "st_Validators s = Some vals" and "NewHeightVoteSet (st_ChainID s) (add64 (st_LastBlockHeight s) 1) vals = Inr H"
    and "cs_state cs = s" and "cs_Height cs = add64 (st_LastBlockHeight s) 1" and "cs_Round cs = 0" and "cs_LockedBlock cs = None"
    and "cs_Votes cs = Some H" and "cs_out cs = []" and "cs_CommitRound cs = -1"
proof -
  obtain cs0 cs1 where u: "updateToState E s cs0 = Inr cs1" and r: "reconstructLastCommit C seen s cs1 = Inr cs"
      and cs0: "cs_Height cs0 = 0" "cs_state cs0 = zero_state" "cs_Votes cs0 = None" "cs_broadcastChannel cs0 = False" "cs_out cs0 = []"
    using assms unfolding NewConsensusState_def sbind_Inr by fastforce
  have c: "core cs = core cs1" "cs_out cs = cs_out cs1"
    using r by (auto simp: reconstructLastCommit_def sbind_Inr core_def split: if_splits option.splits)
  show thesis
    by (rule updateToState_first [OF u cs0], rule that) (use c in \<open>simp_all add: core_def\<close>)
qed

lemma start_fresh:
  assumes "StartConsensus C doc E curHeight blockInfo query evs pv = Inr cs"
  obtains vals H where "st_Validators (cs_state cs) = Some vals"
    and "NewHeightVoteSet (st_ChainID (cs_state cs)) (add64 (st_LastBlockHeight (cs_state cs)) 1) vals = Inr H"
    and "cs_Height cs = add64 (st_LastBlockHeight (cs_state cs)) 1" and "cs_Round cs = 0" and "cs_LockedBlock cs = None"
    and "cs_Votes cs = Some H" and "sent_of (cs_out cs) = []" and "due_of (cs_out cs) = {(cs_Height cs, 0)}" and "cs_CommitRound cs = -1"
proof -
  obtain P s cs0 where n: "NewConsensusState C E (Option.bind blockInfo snd) P s = Inr cs0"
      and cs: "cs = scheduleRound0 (en_now E) (cs0\<lparr>cs_privValidator := Some (pv_ResetLastHeight pv (st_LastBlockHeight s)), cs_broadcastChannel := True\<rparr>)"
    using assms unfolding StartConsensus_def Let_def by (auto split: sum.splits)
  show thesis
    by (rule NewConsensusState_new [OF n], rule that)
      (simp_all add: cs scheduleRound0_def scheduleTimeout_def cs_emit_def sent_of_def due_of_def)
qed

lemma start_wf:
  assumes st: "StartConsensus C doc E curHeight blockInfo query evs pv = Inr cs"
    and h: "0 \<le> st_LastBlockHeight (cs_state cs)" "st_LastBlockHeight (cs_state cs) < MaxInt64"
  shows "cs_wf A C J cs" and "pr_sent (proto_of C J cs) = []" and "pr_lock (proto_of C J cs) = None" and "pr_maj (proto_of C J cs) = {}"
    and "pinv (proto_of C J cs)"
proof -
  obtain vals H where d: "st_Validators (cs_state cs) = Some vals"
      "NewHeightVoteSet (st_ChainID (cs_state cs)) (cs_Height cs) vals = Inr H"
      "cs_Height cs = add64 (st_LastBlockHeight (cs_state cs)) 1" "cs_Round cs = 0" "cs_LockedBlock cs = None"
      "cs_Votes cs = Some H" "sent_of (cs_out cs) = []" "due_of (cs_out cs) = {(cs_Height cs, 0)}" "cs_CommitRound cs = -1"
    using start_fresh [OF st] by metis
  have a: "cs_Height cs = st_LastBlockHeight (cs_state cs) + 1"
    using h d(3) by (simp add: add64_nonneg)
  show "cs_wf A C J cs"
    using d from_new [OF d(2), of A C] h a by (simp add: cs_wf_def)
  show p: "pr_sent (proto_of C J cs) = []" "pr_lock (proto_of C J cs) = None" "pr_maj (proto_of C J cs) = {}"
    using d New_maj [OF d(2)] by (simp_all add: proto_of_def)
  have "pr_due (proto_of C J cs) = {(pr_h (proto_of C J cs), 0)}" "pr_r (proto_of C J cs) = 0"
    using d by (simp_all add: proto_of_def)
  then show "pinv (proto_of C J cs)"
    using p by (simp add: pinv_def)
qed

text \<open>The states a node starts in, at a height that its successor does not overflow.\<close>

definition started :: "('pub, 'sig) crypto \<Rightarrow> ('tx, 'pub, 'sig, 'priv) ConsensusState \<Rightarrow> bool" where
  "started C cs \<longleftrightarrow> (\<exists>doc E curHeight blockInfo query evs pv. StartConsensus C doc E curHeight blockInfo query evs pv = Inr cs)
     \<and> 0 \<le> st_LastBlockHeight (cs_state cs) \<and> st_LastBlockHeight (cs_state cs) < MaxInt64"

lemma started_wf:
  assumes "started C cs"
  shows "cs_wf A C J cs" and "pr_sent (proto_of C J cs) = [] \<and> pr_lock (proto_of C J cs) = None \<and> pr_maj (proto_of C J cs) = {} \<and> pinv (proto_of C J cs)"
proof -
  obtain doc E curHeight blockInfo query evs pv where s: "StartConsensus C doc E curHeight blockInfo query evs pv = Inr cs"
      "0 \<le> st_LastBlockHeight (cs_state cs)" "st_LastBlockHeight (cs_state cs) < MaxInt64"
    using assms unfolding started_def by blast
  show "cs_wf A C J cs"
    by (rule start_wf(1) [OF s])
  show "pr_sent (proto_of C J cs) = [] \<and> pr_lock (proto_of C J cs) = None \<and> pr_maj (proto_of C J cs) = {} \<and> pinv (proto_of C J cs)"
    using start_wf(2-5) [OF s, of J] by simp
qed

text \<open>
  Runs of one node from a start, without a restart, with environments that satisfy \<open>ok\<close>. A run ends where a
  handler panics.
\<close>

inductive cs_run :: "('pub, 'sig) crypto \<Rightarrow> coding \<Rightarrow> ('tx env \<Rightarrow> bool) \<Rightarrow> ('tx, 'pub, 'sig, 'priv) ConsensusState \<Rightarrow> bool"
  for C J ok where
  run_start: "started C cs \<Longrightarrow> cs_run C J ok cs"
| run_receive: "cs_run C J ok cs \<Longrightarrow> ok E \<Longrightarrow> input_ok cs i \<Longrightarrow> receive C J E i cs = Inr cs' \<Longrightarrow> cs_run C J ok cs'"

lemma psteps_pinv: "(pstep safe K)\<^sup>*\<^sup>* p q \<Longrightarrow> pinv p \<Longrightarrow> pinv q"
  by (induction rule: rtranclp_induct) (auto intro: pstep_pinv)

lemma psteps_hrs: "(pstep safe K)\<^sup>*\<^sup>* p q \<Longrightarrow> hrs_le p q"
proof (induction rule: rtranclp_induct)
  case (step y z)
  then show ?case
    using pstep_hrs [OF step.hyps(2)] by (auto simp: hrs_le_def)
qed (simp add: hrs_le_def)

lemma psteps_plock: "(pstep True K)\<^sup>*\<^sup>* p q \<Longrightarrow> pinv p \<Longrightarrow> plock p \<Longrightarrow> plock q"
  by (induction rule: rtranclp_induct) (auto intro: pstep_plock psteps_pinv)

lemma input_learns_UNIV [simp]: "input_learns UNIV C UNIV i cs"
  by (auto simp: input_learns_def learns_def split: input.split msg.split)

lemma run_wf:
  assumes "cs_run C J ok cs"
  shows "cs_wf UNIV C J cs \<and> pinv (proto_of C J cs)"
  using assms
proof (induction rule: cs_run.induct)
  case (run_start cs)
  then show ?case
    by (simp add: started_wf)
next
  case (run_receive cs E i cs')
  then have "cs_to UNIV C J False UNIV cs cs'"
    using receive_to [of C J E i cs cs' UNIV False UNIV] by simp
  then show ?case
    using run_receive.IH psteps_pinv unfolding cs_to_def by blast
qed

lemma run_plock:
  assumes "cs_run C J chain_accepts cs"
  shows "plock (proto_of C J cs)"
  using assms
proof (induction rule: cs_run.induct)
  case (run_start cs)
  then show ?case
    by (simp add: started_wf plock_def)
next
  case (run_receive cs E i cs')
  then have "cs_to UNIV C J True UNIV cs cs'"
    using receive_to [of C J E i cs cs' UNIV True UNIV] run_wf [OF run_receive.hyps(1)] by simp
  then show ?case
    using run_receive.IH run_wf [OF run_receive.hyps(1)] psteps_plock unfolding cs_to_def by blast
qed

section \<open>The network\<close>

text \<open>
  The validators that follow the code, \<open>G\<close>, are named by their index. At the height \<open>h\<close> they have the same
  chain id, and the validators of their states have the same keys and powers.
\<close>

definition val_keys :: "ValidatorSet \<Rightarrow> (bytes \<times> int) list" where
  "val_keys S = map (\<lambda>v. (val_PubKey v, val_VotingPower v)) (vs_Validators S)"

definition at_height :: "string \<Rightarrow> ValidatorSet \<Rightarrow> int \<Rightarrow> ('tx, 'pub, 'sig, 'priv) ConsensusState \<Rightarrow> bool" where
  "at_height chainID S h cs \<longleftrightarrow> (cs_Height cs = h \<longrightarrow> st_ChainID (cs_state cs) = chainID
     \<and> (case st_Validators (cs_state cs) of None \<Rightarrow> False | Some S' \<Rightarrow> powers_ok S' \<and> val_keys S' = val_keys S))"

text \<open>
  Signatures are not forged: a vote of the height that verifies with the key of a validator of \<open>G\<close> was signed
  by it.
\<close>

definition genuine :: "('pub, 'sig) crypto \<Rightarrow> string \<Rightarrow> ValidatorSet \<Rightarrow> nat set \<Rightarrow> int \<Rightarrow> (nat \<times> pvote) list \<Rightarrow> vote set" where
  "genuine C chainID S G h log = {v. \<forall>i \<in> G. v_Height v = h \<and> signed_by C chainID S i v
     \<longrightarrow> (i, h, v_Round v, v_Type v, v_BlockID v) \<in> set log}"

definition input_genuine :: "vote set \<Rightarrow> 'tx input \<Rightarrow> bool" where
  "input_genuine A x \<longleftrightarrow> (case x of In_Msg (Msg_Vote v) p \<Rightarrow> v \<in> A | _ \<Rightarrow> True)"

definition cs_new_votes :: "('tx, 'pub, 'sig, 'priv) ConsensusState \<Rightarrow> ('tx, 'pub, 'sig, 'priv) ConsensusState \<Rightarrow> pvote list" where
  "cs_new_votes cs cs' = drop (length (sent_of (cs_out cs))) (sent_of (cs_out cs'))"

definition cs_decision ::
    "nat \<Rightarrow> ('tx, 'pub, 'sig, 'priv) ConsensusState \<Rightarrow> ('tx, 'pub, 'sig, 'priv) ConsensusState \<Rightarrow> (nat \<times> int \<times> blockID) set" where
  "cs_decision i cs cs' = (if cs_Height cs < cs_Height cs' then {(i, st_LastBlockHeight (cs_state cs'), st_LastBlockID (cs_state cs'))} else {})"

inductive cs_net ::
    "('pub, 'sig) crypto \<Rightarrow> coding \<Rightarrow> ('tx env \<Rightarrow> bool) \<Rightarrow> string \<Rightarrow> ValidatorSet \<Rightarrow> nat set \<Rightarrow> int \<Rightarrow> (nat \<Rightarrow> ('tx, 'pub, 'sig, 'priv) ConsensusState)
      \<Rightarrow> (nat \<times> pvote) list \<Rightarrow> (nat \<times> int \<times> blockID) set \<Rightarrow> bool"
  for C J ok chainID S G h where
  cs_net_start: "\<forall>i \<in> G. started C (ns i) \<and> at_height chainID S h (ns i) \<Longrightarrow> cs_net C J ok chainID S G h ns [] {}"
| cs_net_receive: "cs_net C J ok chainID S G h ns log D \<Longrightarrow> i \<in> G \<Longrightarrow> ok E \<Longrightarrow> input_ok (ns i) x
    \<Longrightarrow> input_genuine (genuine C chainID S G h log) x \<Longrightarrow> receive C J E x (ns i) = Inr cs' \<Longrightarrow> at_height chainID S h cs'
    \<Longrightarrow> cs_net C J ok chainID S G h (ns(i := cs')) (log @ map (Pair i) (cs_new_votes (ns i) cs')) (D \<union> cs_decision i (ns i) cs')"

lemma val_keys_same:
  assumes "val_keys S' = val_keys S"
  shows "members S' = members S" and "power_at S' = power_at S" and "signed_by C chainID S' i v = signed_by C chainID S i v"
proof -
  have l: "length (vs_Validators S') = length (vs_Validators S)"
    using assms unfolding val_keys_def by (rule map_eq_imp_length_eq)
  have k: "val_PubKey (vs_Validators S' ! i) = val_PubKey (vs_Validators S ! i) \<and> val_VotingPower (vs_Validators S' ! i) = val_VotingPower (vs_Validators S ! i)"
    if "i < length (vs_Validators S)" for i
    using arg_cong [OF assms, of "\<lambda>xs. xs ! i"] that l by (simp add: val_keys_def)
  show "members S' = members S" "power_at S' = power_at S" "signed_by C chainID S' i v = signed_by C chainID S i v"
    using l k by (auto simp: members_def power_at_def signed_by_def vs_Size_def fun_eq_iff)
qed

text \<open>The majorities of a node at the height are backed by the log.\<close>

lemma majority_backed:
  assumes H: "hv_from (genuine C chainID S G h log) C chainID h S' H" and S': "powers_ok S'" "val_keys S' = val_keys S"
    and maj: "(t, r, b) \<in> maj_set H"
  shows "backed (members S) (power_at S) G log (h, t, r, b)"
proof -
  obtain V where V: "hv_getVoteSet H r t = Inr (Some V)" "IsVoteTypeValid t" "vt_maj23 V = Some b"
    using maj by (auto simp: maj_set_def)
  note k = val_keys_same [OF S'(2)]
  obtain Q where Q: "Q \<subseteq> members S" "3 * sum (power_at S) Q > 2 * sum (power_at S) (members S)"
      "\<forall>i \<in> Q. \<exists>v \<in> genuine C chainID S G h log. signed_by C chainID S i v \<and> v_Height v = h \<and> v_Round v = r \<and> v_Type v = t \<and> v_BlockID v = b"
    using majority_signed [OF H S'(1) V] unfolding k by blast
  have "(i, h, r, t, b) \<in> set log" if "i \<in> Q \<inter> G" for i
    using that Q(3) by (fastforce simp: genuine_def)
  then show ?thesis
    using Q(1,2) unfolding backed_def quorum_def by auto
qed

lemma wf_mono: "cs_wf A C J cs \<Longrightarrow> A \<subseteq> B \<Longrightarrow> cs_wf B C J cs"
  unfolding cs_wf_def using hv_from_mono by blast

lemma genuine_mono: "genuine C chainID S G h log \<subseteq> genuine C chainID S G h (log @ xs)"
  by (auto simp: genuine_def)

lemma at_height_set:
  assumes "cs_wf A C J cs" and "at_height chainID S h cs" and "cs_Height cs = h" and "cs_Votes cs = Some H"
  obtains S' where "hv_from A C chainID h S' H" and "powers_ok S'" and "val_keys S' = val_keys S"
  using assms by (auto simp: cs_wf_def at_height_def)

lemma genuine_learns:
  assumes wf: "cs_wf (genuine C chainID S G h log) C J cs" and at: "at_height chainID S h cs"
    and x: "input_genuine (genuine C chainID S G h log) x"
  shows "input_learns (genuine C chainID S G h log) C (known (members S) (power_at S) G h log) x cs"
proof -
  let ?A = "genuine C chainID S G h log"
  have "(cs_Height cs, t, r, b) \<in> known (members S) (power_at S) G h log"
    if v: "v \<in> ?A" and H: "cs_Votes cs = Some H" and m: "(t, r, b) \<in> maj_set (snd (hv_AddVote C H v p))" for v H p t r b
  proof (cases "cs_Height cs = h")
    case True
    obtain S' where S': "hv_from ?A C chainID h S' H" "powers_ok S'" "val_keys S' = val_keys S"
      using at_height_set [OF wf at True H] by blast
    show ?thesis
      using majority_backed [OF from_add [OF S'(1) v] S'(2,3) m] True by (simp add: known_def)
  next
    case False
    then show ?thesis
      by (simp add: known_def)
  qed
  then show ?thesis
    using x by (auto simp: input_learns_def input_genuine_def learns_def split: input.split msg.split)
qed

text \<open>A handler is a sequence of steps of the network of the protocol.\<close>

lemma pstep_last:
  assumes "pstep safe K p q" and "pr_h p = pr_h q"
  shows "pr_last p = pr_last q"
  using assms by cases simp_all

lemma pstep_more: "pstep safe K p q \<Longrightarrow> K \<subseteq> K' \<Longrightarrow> pstep safe K' p q"
proof (induction rule: pstep.induct)
  case (p_learn p M)
  then show ?case
    by (intro pstep.p_learn) auto
qed (blast intro: pstep.intros)+

lemma known_append: "known U w G h log \<subseteq> known U w G h (log @ xs)"
  by (auto simp: known_def intro: backed_append)

lemma net_steps:
  assumes "(pstep True (known U w G h log))\<^sup>*\<^sup>* (ps i) q" and "net U w G h ps log D" and "i \<in> G"
  shows "\<exists>D'. D \<union> decision i (ps i) q \<subseteq> D' \<and> net U w G h (ps(i := q)) (log @ map (Pair i) (new_votes (ps i) q)) D'
    \<and> pr_h (ps i) \<le> pr_h q \<and> (\<exists>vs. pr_sent q = pr_sent (ps i) @ vs)"
  using assms(1)
proof (induction rule: rtranclp_induct)
  case base
  then show ?case
    using assms(2) by (intro exI [of _ D]) (simp add: decision_def new_votes_def)
next
  case (step y z)
  let ?vs = "map (Pair i) (new_votes (ps i) y)"
  obtain D' vs where D': "D \<union> decision i (ps i) y \<subseteq> D'" "net U w G h (ps(i := y)) (log @ ?vs) D'" "pr_h (ps i) \<le> pr_h y" "pr_sent y = pr_sent (ps i) @ vs"
    using step.IH by blast
  obtain ws where ws: "pr_sent z = pr_sent y @ ws"
    using pstep_sent [OF step.hyps(2)] by blast
  have "pstep True (known U w G h (log @ ?vs)) ((ps(i := y)) i) z"
    using pstep_more [OF step.hyps(2) known_append] by simp
  from net_step [of U w G h "ps(i := y)", OF D'(2) assms(3) this]
  have n: "net U w G h (ps(i := z)) (log @ map (Pair i) (new_votes (ps i) z)) (D' \<union> decision i y z)"
    using D'(4) ws by (simp add: new_votes_def)
  have le: "pr_h y \<le> pr_h z"
    using pstep_hrs [OF step.hyps(2)] by (auto simp: hrs_le_def)
  have "decision i (ps i) z \<subseteq> D' \<union> decision i y z"
    using D'(1,3) le pstep_last [OF step.hyps(2)] by (auto simp: decision_def split: if_splits)
  then have "D \<union> decision i (ps i) z \<subseteq> D' \<union> decision i y z"
    using D'(1) by blast
  moreover have "pr_h (ps i) \<le> pr_h z" "\<exists>vs. pr_sent z = pr_sent (ps i) @ vs"
    using D'(3,4) le ws by auto
  ultimately show ?case
    using n by blast
qed

definition net_ok where
  "net_ok C J chainID S G h ns log D \<longleftrightarrow>
     (\<forall>i \<in> G. cs_wf (genuine C chainID S G h log) C J (ns i) \<and> at_height chainID S h (ns i) \<and> pinv (proto_of C J (ns i)))
     \<and> (\<exists>D'. D \<subseteq> D' \<and> net (members S) (power_at S) G h (\<lambda>i. proto_of C J (ns i)) log D')"

lemma net_pinv:
  assumes "net U w G h ps log D" and "i \<in> G"
  shows "pinv (ps i)"
  using net_invD(1) [OF net_invariant [OF assms(1)] assms(2)] by (simp add: node_ok_def)

lemma receive_net:
  assumes ok: "net_ok C J chainID S G h ns log D" and i: "i \<in> G" and E: "chain_accepts E" and x: "input_ok (ns i) x"
      "input_genuine (genuine C chainID S G h log) x" and rc: "receive C J E x (ns i) = Inr cs'" and at: "at_height chainID S h cs'"
  shows "net_ok C J chainID S G h (ns(i := cs')) (log @ map (Pair i) (cs_new_votes (ns i) cs')) (D \<union> cs_decision i (ns i) cs')"
proof -
  let ?A = "genuine C chainID S G h log" and ?K = "known (members S) (power_at S) G h log" and ?ps = "\<lambda>i. proto_of C J (ns i)"
  obtain D' where D': "D \<subseteq> D'" "net (members S) (power_at S) G h ?ps log D'"
    using ok by (auto simp: net_ok_def)
  have w: "cs_wf ?A C J (ns j)" "at_height chainID S h (ns j)" "pinv (?ps j)" if "j \<in> G" for j
    using ok that by (auto simp: net_ok_def)
  have to: "cs_to ?A C J True ?K (ns i) cs'"
    by (rule receive_to [OF rc w(1) [OF i] x(1) w(3) [OF i] E genuine_learns [OF w(1,2) [OF i] x(2)]])
  then have st: "(pstep True ?K)\<^sup>*\<^sup>* (?ps i) (proto_of C J cs')" and wf': "cs_wf ?A C J cs'"
    by (simp_all add: cs_to_def)
  have v: "new_votes (?ps i) (proto_of C J cs') = cs_new_votes (ns i) cs'" "decision i (?ps i) (proto_of C J cs') = cs_decision i (ns i) cs'"
    by (simp_all add: new_votes_def cs_new_votes_def decision_def cs_decision_def proto_of_def)
  let ?log = "log @ map (Pair i) (cs_new_votes (ns i) cs')"
  obtain D'' where D'': "D' \<union> cs_decision i (ns i) cs' \<subseteq> D''" "net (members S) (power_at S) G h (?ps(i := proto_of C J cs')) ?log D''"
    using net_steps [OF st D'(2) i] unfolding v by blast
  have e: "?ps(i := proto_of C J cs') = (\<lambda>j. proto_of C J ((ns(i := cs')) j))"
    by auto
  have "cs_wf (genuine C chainID S G h ?log) C J ((ns(i := cs')) j) \<and> at_height chainID S h ((ns(i := cs')) j) \<and> pinv (proto_of C J ((ns(i := cs')) j))"
    if "j \<in> G" for j
  proof (cases "j = i")
    case True
    then show ?thesis
      using wf_mono [OF wf' genuine_mono] at net_pinv [OF D''(2) that] by simp
  next
    case False
    then show ?thesis
      using wf_mono [OF w(1) [OF that] genuine_mono] w(2,3) [OF that] by simp
  qed
  moreover have "D \<union> cs_decision i (ns i) cs' \<subseteq> D''"
    using D'(1) D''(1) by blast
  ultimately show ?thesis
    unfolding net_ok_def using D''(2) [unfolded e] by (intro conjI ballI exI [of _ D'']) simp_all
qed

lemma cs_net_ok: "cs_net C J chain_accepts chainID S G h ns log D \<Longrightarrow> net_ok C J chainID S G h ns log D"
proof (induction rule: cs_net.induct)
  case (cs_net_start ns)
  have "net (members S) (power_at S) G h (\<lambda>i. proto_of C J (ns i)) [] {}"
    by (rule net_start) (use cs_net_start.hyps in \<open>simp add: started_wf(2)\<close>)
  then show ?case
    using cs_net_start.hyps by (auto simp: net_ok_def started_wf)
next
  case (cs_net_receive ns log D i E x cs')
  show ?case
    by (rule receive_net [OF cs_net_receive.IH cs_net_receive.hyps(2-7)])
qed

text \<open>Each node of a network runs.\<close>

lemma cs_net_run: "cs_net C J ok chainID S G h ns log D \<Longrightarrow> i \<in> G \<Longrightarrow> cs_run C J ok (ns i)"
proof (induction rule: cs_net.induct)
  case (cs_net_start ns)
  then show ?case
    by (auto intro: run_start)
next
  case (cs_net_receive ns log D j E x cs')
  then show ?case
    by (cases "i = j") (auto intro: run_receive)
qed

end
