(* ===== verification/ConsensusSafety.thy ===== *)
theory ConsensusSafety
  imports ConsensusRun
begin

text \<open>
  What the consensus state machine of \<^verbatim>\<open>src/plugin/consensus/tendermint/consensus_state.go\<close> promises, on its runs and on
  networks of nodes, and what a failed write of a block costs. Networks are run on concrete inputs by the
  function \<open>deliver\<close>.
\<close>

section \<open>Running a network\<close>

definition is_genuine :: "('pub, 'sig) crypto \<Rightarrow> string \<Rightarrow> ValidatorSet \<Rightarrow> nat list \<Rightarrow> int \<Rightarrow> (nat \<times> pvote) list \<Rightarrow> 'tx input \<Rightarrow> bool" where
  "is_genuine C chainID S G h log x \<longleftrightarrow> (case x of
     In_Msg (Msg_Vote v) p \<Rightarrow> v_Height v \<noteq> h \<or> list_all (\<lambda>i. signed_by C chainID S i v \<longrightarrow> (i, h, v_Round v, v_Type v, v_BlockID v) \<in> set log) G
   | _ \<Rightarrow> True)"

definition ev_input :: "'tx cs_event \<Rightarrow> 'tx input option" where
  "ev_input e = (case e of Ev_Internal m \<Rightarrow> Some (In_Msg m []) | Ev_Timeout ti \<Rightarrow> Some (In_Timeout ti) | _ \<Rightarrow> None)"

text \<open>Output \<open>k\<close> of node \<open>j\<close> is given to node \<open>i\<close>, with the answers of the client \<open>E\<close>.\<close>

fun deliver :: "('pub, 'sig) crypto \<Rightarrow> coding \<Rightarrow> string \<Rightarrow> ValidatorSet \<Rightarrow> int \<Rightarrow> ('tx env \<times> nat \<times> nat \<times> nat) list
    \<Rightarrow> ('tx, 'pub, 'sig, 'priv) ConsensusState list \<times> (nat \<times> pvote) list \<times> (nat \<times> int \<times> blockID) set
    \<Rightarrow> (('tx, 'pub, 'sig, 'priv) ConsensusState list \<times> (nat \<times> pvote) list \<times> (nat \<times> int \<times> blockID) set) option" where
  "deliver C J chainID S h [] s = Some s"
| "deliver C J chainID S h ((E, i, j, k) # xs) (ns, log, D) =
     (if i < length ns \<and> j < length ns \<and> k < length (cs_out (ns ! j)) then
        case ev_input (cs_out (ns ! j) ! k) of
          None \<Rightarrow> None
        | Some x \<Rightarrow>
            if input_ok (ns ! i) x \<and> is_genuine C chainID S [0..<length ns] h log x then
              case receive C J E x (ns ! i) of
                Inl _ \<Rightarrow> None
              | Inr cs' \<Rightarrow>
                  if at_height chainID S h cs' then
                    deliver C J chainID S h xs (ns[i := cs'], log @ map (Pair i) (cs_new_votes (ns ! i) cs'), D \<union> cs_decision i (ns ! i) cs')
                  else None
            else None
      else None)"

lemma is_genuine_input: "is_genuine C chainID S G h log x \<longleftrightarrow> input_genuine (genuine C chainID S (set G) h log) x"
  by (auto simp: is_genuine_def input_genuine_def genuine_def list_all_iff split: input.split msg.split)

definition nodes :: "('tx, 'pub, 'sig, 'priv) ConsensusState list \<Rightarrow> nat \<Rightarrow> ('tx, 'pub, 'sig, 'priv) ConsensusState" where
  "nodes ns i = ns ! i"

lemma nodes_update: "i < length ns \<Longrightarrow> nodes (ns[i := cs]) = (nodes ns)(i := cs)"
  by (auto simp: nodes_def fun_eq_iff nth_list_update)

lemma nodes_at: "nodes ns i = ns ! i"
  by (simp add: nodes_def)

lemma deliver_net:
  assumes "deliver C J chainID S h xs (ns, log, D) = Some (ns', log', D')" and "cs_net C J ok chainID S (set [0..<length ns]) h (nodes ns) log D"
    and "list_all (\<lambda>x. ok (fst x)) xs"
  shows "cs_net C J ok chainID S (set [0..<length ns]) h (nodes ns') log' D' \<and> length ns' = length ns"
  using assms
proof (induction xs arbitrary: ns log D)
  case Nil
  then show ?case
    by simp
next
  case (Cons a xs)
  obtain E i j k where a: "a = (E, i, j, k)"
    by (cases a) auto
  obtain x cs' where x: "i < length ns" "j < length ns" "k < length (cs_out (ns ! j))" "ev_input (cs_out (ns ! j) ! k) = Some x" "input_ok (ns ! i) x"
      "is_genuine C chainID S [0..<length ns] h log x" "receive C J E x (ns ! i) = Inr cs'" "at_height chainID S h cs'"
    and d: "deliver C J chainID S h xs (ns[i := cs'], log @ map (Pair i) (cs_new_votes (ns ! i) cs'), D \<union> cs_decision i (ns ! i) cs') = Some (ns', log', D')"
    using Cons.prems(1) unfolding a deliver.simps by (auto split: if_splits option.splits sum.splits)
  have "cs_net C J ok chainID S (set [0..<length ns]) h ((nodes ns)(i := cs')) (log @ map (Pair i) (cs_new_votes (nodes ns i) cs')) (D \<union> cs_decision i (nodes ns i) cs')"
    by (rule cs_net_receive [OF Cons.prems(2), of i E x])
      (use x Cons.prems(3) a in \<open>simp_all add: is_genuine_input nodes_def\<close>)
  then have "cs_net C J ok chainID S (set [0..<length (ns[i := cs'])]) h (nodes (ns[i := cs'])) (log @ map (Pair i) (cs_new_votes (ns ! i) cs'))
      (D \<union> cs_decision i (ns ! i) cs')"
    by (simp only: nodes_update [OF x(1)] nodes_at length_list_update)
  from Cons.IH [OF d this] show ?case
    using Cons.prems(3) by simp
qed

text \<open>Two validators, the second with most of the power; the blocks of different rounds have different hashes.\<close>

definition doc_ab :: GenesisDoc where
  "doc_ab = \<lparr>gd_GenesisTime = None, gd_ChainID = ''chain'', gd_ConsensusParams = None,
     gd_Validators = [\<lparr>gv_PubKey = ''61'', gv_Power = 10\<rparr>, \<lparr>gv_PubKey = ''62'', gv_Power = 100\<rparr>], gd_AppHash = []\<rparr>"

definition env_ab :: "bool \<Rightarrow> bytes env" where
  "env_ab w = \<lparr>en_cfg = \<lparr>cf_timeoutPropose = 3, cf_timeoutProposeDelta = 1, cf_timeoutPrevote = 1, cf_timeoutPrevoteDelta = 1,
       cf_timeoutPrecommit = 1, cf_timeoutPrecommitDelta = 1, cf_timeoutCommit = 1, cf_skipTimeoutCommit = True,
       cf_createEmptyBlocks = True, cf_createEmptyBlocksInterval = 0\<rparr>,
     en_now = 7, en_BuildBlock = (1, []), en_CommitBlock = (\<lambda>_ _. w), en_CheckCommit = (\<lambda>_. True), en_QueryValidators = (\<lambda>_. None),
     en_CreateBlockInfoTx = (\<lambda>_ _ _ _ _. ''info''), en_Marshal = (\<lambda>_. [])\<rparr>"

definition round_coding :: coding where
  "round_coding = toy_coding\<lparr>json_header := (\<lambda>h. if hd_Round h = 0 then ''abcA'' else ''abcB'')\<rparr>"

definition start_of :: "bytes \<Rightarrow> (bytes, bytes, bytes, bytes) ConsensusState" where
  "start_of k = projr (StartConsensus toy_crypto doc_ab (env_ab True) 0 None (\<lambda>_. QErr) [] (GenPrivValidatorImp toy_crypto toy_keys k ''priv.json''))"

definition set_two :: ValidatorSet where
  "set_two = the (st_Validators (cs_state (start_of ''a'')))"

definition start_ab :: "(bytes, bytes, bytes, bytes) ConsensusState list" where
  "start_ab = [start_of ''a'', start_of ''b'']"

text \<open>Height 1: the second validator proposes; both decide. In the other run its write fails in round 0.\<close>

definition run_ab :: "(bytes env \<times> nat \<times> nat \<times> nat) list" where
  "run_ab = map (Pair (env_ab True)) [(1, 1, 0), (1, 1, 3), (1, 1, 4), (1, 1, 6), (1, 1, 9), (0, 0, 0), (0, 1, 3), (0, 1, 4), (0, 1, 6), (0, 1, 9)]"

definition fail_ab :: "(bytes env \<times> nat \<times> nat \<times> nat) list" where
  "fail_ab = map (Pair (env_ab True)) [(1, 1, 0), (1, 1, 3), (1, 1, 4), (1, 1, 6)] @ [(env_ab False, 1, 1, 9)]
     @ map (Pair (env_ab True)) [(1, 1, 15), (1, 1, 16), (1, 1, 18), (1, 1, 21), (0, 0, 0), (0, 1, 3), (0, 1, 4), (0, 1, 6), (0, 1, 9)]"

definition first_timeout :: timeoutInfo where
  "first_timeout = \<lparr>ti_Duration = 1000000, ti_Height = 1, ti_Round = 0, ti_Step = 1\<rparr>"

definition proposing :: "(bytes, bytes, bytes, bytes) ConsensusState" where
  "proposing = projr (receive toy_crypto round_coding (env_ab True) (In_Timeout first_timeout) (start_of ''b''))"

lemma start_of_started: "started toy_crypto (start_of ''a'')" "started toy_crypto (start_of ''b'')"
proof -
  have "StartConsensus toy_crypto doc_ab (env_ab True) 0 None (\<lambda>_. QErr) [] (GenPrivValidatorImp toy_crypto toy_keys k ''priv.json'') = Inr (start_of k)"
    if "k = ''a'' \<or> k = ''b''" for k
  proof -
    have "\<not> isl (StartConsensus toy_crypto doc_ab (env_ab True) 0 None (\<lambda>_. QErr) [] (GenPrivValidatorImp toy_crypto toy_keys ''a'' ''priv.json''))"
      "\<not> isl (StartConsensus toy_crypto doc_ab (env_ab True) 0 None (\<lambda>_. QErr) [] (GenPrivValidatorImp toy_crypto toy_keys ''b'' ''priv.json''))"
      by code_simp+
    then show ?thesis
      using that by (auto simp: start_of_def)
  qed
  moreover have "0 \<le> st_LastBlockHeight (cs_state (start_of ''a''))" "st_LastBlockHeight (cs_state (start_of ''a'')) < MaxInt64"
    "0 \<le> st_LastBlockHeight (cs_state (start_of ''b''))" "st_LastBlockHeight (cs_state (start_of ''b'')) < MaxInt64"
    by code_simp+
  ultimately show "started toy_crypto (start_of ''a'')" "started toy_crypto (start_of ''b'')"
    unfolding started_def by blast+
qed

lemma start_ab_net: "cs_net toy_crypto round_coding ok ''chain'' set_two (set [0..<length start_ab]) 1 (nodes start_ab) [] {}"
proof -
  have "at_height ''chain'' set_two 1 (start_of ''a'')" "at_height ''chain'' set_two 1 (start_of ''b'')"
    by code_simp+
  then show ?thesis
    by (intro cs_net_start) (auto simp: start_ab_def nodes_def start_of_started less_Suc_eq)
qed

lemma run_ab_result:
  "(case deliver toy_crypto round_coding ''chain'' set_two 1 run_ab (start_ab, [], {}) of None \<Rightarrow> False
    | Some (ns, log, D) \<Rightarrow> (0, 1, ''A'') \<in> D \<and> (1, 1, ''A'') \<in> D)"
  by code_simp

lemma fail_ab_result:
  "(case deliver toy_crypto round_coding ''chain'' set_two 1 fail_ab (start_ab, [], {}) of None \<Rightarrow> False
    | Some (ns, log, D) \<Rightarrow> (0, 1, ''A'') \<in> D \<and> (1, 1, ''B'') \<in> D)"
  by code_simp

definition set_ok :: "State \<Rightarrow> bool" where
  "set_ok s \<longleftrightarrow> (case st_Validators s of None \<Rightarrow> True | Some S \<Rightarrow> powers_ok S)"

lemma run_ab_votes:
  "(case deliver toy_crypto round_coding ''chain'' set_two 1 run_ab (start_ab, [], {}) of None \<Rightarrow> False
    | Some (ns, log, D) \<Rightarrow> 9 < length (cs_out (ns ! 1)) \<and> ev_vote (cs_out (ns ! 1) ! 6) = [(1, 0, 1, ''A'')] \<and> ev_vote (cs_out (ns ! 1) ! 9) = [(1, 0, 2, ''A'')])"
  by code_simp

lemma run_ab_locked:
  "(case deliver toy_crypto round_coding ''chain'' set_two 1 (take 4 run_ab) (start_ab, [], {}) of None \<Rightarrow> False
    | Some (ns, log, D) \<Rightarrow> cs_Height (ns ! 1) = 1 \<and> 9 < length (cs_out (ns ! 1)) \<and> ev_vote (cs_out (ns ! 1) ! 9) = [(1, 0, 2, ''A'')] \<and> cs_Votes (ns ! 1) \<noteq> None)"
  by code_simp

lemma proposing_receive:
  "receive toy_crypto round_coding (env_ab True) (In_Timeout first_timeout) (start_of ''b'') = Inr proposing" (is "?r = _")
proof -
  have "\<not> isl ?r"
    by code_simp
  then show ?thesis
    by (auto simp: proposing_def)
qed

lemma proposing_facts:
  "input_ok (start_of ''b'') (In_Timeout first_timeout)" "cs_Step proposing = 3" "cs_Step (start_of ''b'') = 1" "set_ok (cs_state (start_of ''b''))"
  by code_simp+

lemma proposing_proposal:
  "(case cs_out proposing ! 3 of Ev_Internal (Msg_Proposal p) \<Rightarrow> p_Blockhash p = ''A'' \<and> cs_Proposal proposing = None
     \<and> (case defaultSetProposal toy_crypto (env_ab True) p proposing of Inr (None, cs) \<Rightarrow> cs_Proposal cs = Some p | _ \<Rightarrow> False) | _ \<Rightarrow> False)"
  by code_simp

section \<open>Votes that were signed\<close>

lemma sent_of_nth: "j < length out \<Longrightarrow> out ! j = Ev_Internal (Msg_Vote v) \<Longrightarrow> (v_Height v, v_Round v, v_Type v, v_BlockID v) \<in> set (sent_of out)"
  by (force simp: sent_of_def in_set_conv_nth)

lemma sent_in_order:
  assumes so: "sorted_wrt in_order (sent_of out)" and ij: "i < j" "j < length out" and v: "out ! i = Ev_Internal (Msg_Vote v)"
    and w: "out ! j = Ev_Internal (Msg_Vote w)"
  shows "in_order (v_Height v, v_Round v, v_Type v, v_BlockID v) (v_Height w, v_Round w, v_Type w, v_BlockID w)"
proof -
  have "sent_of out = sent_of (take j out) @ sent_of (drop j out)"
    by (metis append_take_drop_id concat_append map_append sent_of_def)
  moreover have "(v_Height v, v_Round v, v_Type v, v_BlockID v) \<in> set (sent_of (take j out))"
    using sent_of_nth [of i "take j out" v] ij v by simp
  moreover have "(v_Height w, v_Round w, v_Type w, v_BlockID w) \<in> set (sent_of (drop j out))"
    using sent_of_nth [of 0 "drop j out" w] ij w by simp
  ultimately show ?thesis
    using so by (simp add: sorted_wrt_append)
qed

text \<open>The majorities that votes signed by more than two thirds of the power make.\<close>

definition signed_majority :: "('pub, 'sig) crypto \<Rightarrow> State \<Rightarrow> (int \<times> nat \<times> int \<times> blockID) set" where
  "signed_majority C s = {(h, t, r, b). \<exists>S Q. st_Validators s = Some S \<and> Q \<subseteq> members S
     \<and> 3 * sum (power_at S) Q > 2 * sum (power_at S) (members S)
     \<and> (\<forall>i \<in> Q. \<exists>v. signed_by C (st_ChainID s) S i v \<and> v_Height v = h \<and> v_Round v = r \<and> v_Type v = t \<and> v_BlockID v = b)}"

lemma learns_signed:
  assumes wf: "cs_wf UNIV C J cs" and S: "set_ok (cs_state cs)"
  shows "input_learns UNIV C (signed_majority C (cs_state cs)) i cs"
proof -
  have "(cs_Height cs, t, r, b) \<in> signed_majority C (cs_state cs)"
    if H: "cs_Votes cs = Some H" and m: "(t, r, b) \<in> maj_set (snd (hv_AddVote C H v p))" for v H p t r b
  proof -
    obtain S where S': "st_Validators (cs_state cs) = Some S" "powers_ok S" "hv_from UNIV C (st_ChainID (cs_state cs)) (cs_Height cs) S H"
      using wf H S by (auto simp: cs_wf_def set_ok_def)
    obtain V where V: "hv_getVoteSet (snd (hv_AddVote C H v p)) r t = Inr (Some V)" "IsVoteTypeValid t" "vt_maj23 V = Some b"
      using m by (auto simp: maj_set_def)
    show ?thesis
      using majority_signed [OF from_add [OF S'(3), of v p] S'(2) V] S'(1) unfolding signed_majority_def by auto
  qed
  then show ?thesis
    by (auto simp: input_learns_def learns_def split: input.split msg.split)
qed

section \<open>Properties\<close>

text \<open>
  C1. Agreement. In a network of nodes that run the code, exchange votes whose signatures are not forged and
  whose writes of blocks succeed, no two of these nodes decide different blocks at a height, if the other
  validators have less than a third of the power: whatever they send, whatever messages are lost, delayed or
  reordered, and whenever timeouts fire.
\<close>

theorem consensus_agreement:
  assumes "cs_net C J chain_accepts chainID S G h ns log D" and "3 * sum (power_at S) (members S - G) < sum (power_at S) (members S)"
    and "(i, h, b) \<in> D" and "(j, h, b') \<in> D"
  shows "b = b'"
proof -
  obtain D' where "D \<subseteq> D'" "net (members S) (power_at S) G h (\<lambda>i. proto_of C J (ns i)) log D'"
    using cs_net_ok [OF assms(1)] by (auto simp: net_ok_def)
  then show ?thesis
    using vpow.agreement [OF _ assms(2)] assms(3,4) by blast
qed

lemma run_ab_net:
  obtains ns log D where "cs_net toy_crypto round_coding chain_accepts ''chain'' set_two {0, 1} 1 (nodes ns) log D"
    and "(0, 1, ''A'') \<in> D" and "(1, 1, ''A'') \<in> D" and "deliver toy_crypto round_coding ''chain'' set_two 1 run_ab (start_ab, [], {}) = Some (ns, log, D)"
proof -
  obtain ns log D where d: "deliver toy_crypto round_coding ''chain'' set_two 1 run_ab (start_ab, [], {}) = Some (ns, log, D)"
      "(0, 1, ''A'') \<in> D" "(1, 1, ''A'') \<in> D"
    using run_ab_result by (auto split: option.splits)
  have G: "set [0..<length start_ab] = {0, 1}"
    by (auto simp: start_ab_def)
  have "list_all (\<lambda>x. chain_accepts (fst x)) run_ab"
    by (simp add: run_ab_def chain_accepts_def env_ab_def)
  then show thesis
    using that [OF _ d(2,3,1)] deliver_net [OF d(1) start_ab_net] unfolding G by blast
qed

lemma set_two_power: "3 * sum (power_at set_two) (members set_two - {0, 1}) < sum (power_at set_two) (members set_two)"
  by code_simp

theorem consensus_agreement_witness:
  "\<exists>ns log D b b'. deliver toy_crypto round_coding ''chain'' set_two 1 run_ab (start_ab, [], {}) = Some (ns, log, D)
     \<and> (0, 1, b) \<in> D \<and> (1, 1, b') \<in> D \<and> b = b' \<and> b = ''A''"
proof -
  obtain ns log D where n: "cs_net toy_crypto round_coding chain_accepts ''chain'' set_two {0, 1} 1 (nodes ns) log D"
      "(0, 1, ''A'') \<in> D" "(1, 1, ''A'') \<in> D" "deliver toy_crypto round_coding ''chain'' set_two 1 run_ab (start_ab, [], {}) = Some (ns, log, D)"
    by (rule run_ab_net)
  then show ?thesis
    using consensus_agreement [OF n(1) set_two_power n(2,3)] by blast
qed

text \<open>
  C23. A failed write of a block costs agreement: finalizeCommit gives up the lock when the write fails, although
  more than two thirds of the power have precommitted the block. In a network of two nodes that run the code,
  with no forged votes and no other validators, one decides the block of round 0 and the other, whose write of
  that block fails, the block of round 1.
\<close>

theorem failed_commit_forks:
  "\<exists>(ns :: (bytes, bytes, bytes, bytes) ConsensusState list) log D. cs_net toy_crypto round_coding (\<lambda>_. True) ''chain'' set_two {0, 1} 1 (nodes ns) log D \<and> members set_two = {0, 1}
     \<and> (0, 1, ''A'') \<in> D \<and> (1, 1, ''B'') \<in> D"
proof -
  obtain ns log D where d: "deliver toy_crypto round_coding ''chain'' set_two 1 fail_ab (start_ab, [], {}) = Some (ns, log, D)"
      "(0, 1, ''A'') \<in> D" "(1, 1, ''B'') \<in> D"
    using fail_ab_result by (auto split: option.splits)
  have G: "set [0..<length start_ab] = {0, 1}"
    by (auto simp: start_ab_def)
  have "cs_net toy_crypto round_coding (\<lambda>_. True) ''chain'' set_two {0, 1} 1 (nodes ns) log D \<and> length ns = length start_ab"
    by (rule deliver_net [OF d(1) start_ab_net, unfolded G]) (simp add: list_all_iff)
  moreover have "members set_two = {0, 1}"
  proof -
    have "length (vs_Validators set_two) = 2"
      by code_simp
    then show ?thesis
      by (auto simp: members_def)
  qed
  ultimately show ?thesis
    using d(2,3) by (intro exI [of _ ns] exI [of _ log] exI [of _ D]) simp
qed

text \<open>
  C7. The state machine implements the protocol: whatever message, timeout or claim of a peer a running node
  handles, the change of its height, round and step, its lock, the majorities it knows, the votes it signs, the
  timeouts it schedules and its last block is a sequence of steps of the protocol. Only majorities become known
  that validators with more than two thirds of the power have signed, and the lock is given up without one only
  if a write of a block fails.
\<close>

theorem receive_refines:
  assumes "cs_run C J ok cs" and "ok E" and "input_ok cs i" and "receive C J E i cs = Inr cs'" and "set_ok (cs_state cs)"
  shows "(pstep (chain_accepts E) (signed_majority C (cs_state cs)))\<^sup>*\<^sup>* (proto_of C J cs) (proto_of C J cs')"
proof -
  have w: "cs_wf UNIV C J cs" "pinv (proto_of C J cs)"
    using run_wf [OF assms(1)] by simp_all
  have "cs_to UNIV C J (chain_accepts E) (signed_majority C (cs_state cs)) cs cs'"
    by (rule receive_to [OF assms(4) w(1) assms(3) w(2) _ learns_signed [OF w(1) assms(5)]])
  then show ?thesis
    by (simp add: cs_to_def)
qed

lemma start_b_run: "cs_run toy_crypto round_coding ok (start_of ''b'')"
  by (rule run_start [OF start_of_started(2)])

theorem receive_refines_witness:
  "receive toy_crypto round_coding (env_ab True) (In_Timeout first_timeout) (start_of ''b'') = Inr proposing
   \<and> (pstep True (signed_majority toy_crypto (cs_state (start_of ''b''))))\<^sup>*\<^sup>* (proto_of toy_crypto round_coding (start_of ''b'')) (proto_of toy_crypto round_coding proposing)"
proof -
  have "chain_accepts (env_ab True)"
    by (simp add: chain_accepts_def env_ab_def)
  then show ?thesis
    using proposing_receive receive_refines [OF start_b_run [of chain_accepts] _ proposing_facts(1) proposing_receive proposing_facts(4)] by simp
qed

text \<open>
  C6. A node that runs without a restart signs at most one vote for each height, round and type, and its votes
  never go back to an earlier height or round: the state machine needs no help of its signer, which itself would
  sign anything.
\<close>

theorem votes_once:
  assumes "cs_run C J ok cs" and "i < j" and "j < length (cs_out cs)" and "cs_out cs ! i = Ev_Internal (Msg_Vote v)"
    and "cs_out cs ! j = Ev_Internal (Msg_Vote w)"
  shows "(v_Height v, v_Round v, v_Type v) \<noteq> (v_Height w, v_Round w, v_Type w)
    \<and> (v_Height v < v_Height w \<or> v_Height v = v_Height w \<and> v_Round v \<le> v_Round w)"
proof -
  have "sorted_wrt in_order (sent_of (cs_out cs))"
    using pinvD(2) [of "proto_of C J cs"] run_wf [OF assms(1)] by (simp add: proto_of_def)
  from sent_in_order [OF this assms(2-5)] show ?thesis
    by (auto simp: in_order_def pv_key_def)
qed

lemma ev_vote_some: "ev_vote e = [x] \<Longrightarrow> \<exists>v. e = Ev_Internal (Msg_Vote v) \<and> x = (v_Height v, v_Round v, v_Type v, v_BlockID v)"
  by (cases e rule: ev_vote.cases) auto

theorem votes_once_witness:
  "\<exists>ns log D v w. deliver toy_crypto round_coding ''chain'' set_two 1 run_ab (start_ab, [], {}) = Some (ns, log, D)
     \<and> cs_out (nodes ns 1) ! 6 = Ev_Internal (Msg_Vote v) \<and> cs_out (nodes ns 1) ! 9 = Ev_Internal (Msg_Vote w)
     \<and> v_Height v = v_Height w \<and> v_Round v = v_Round w \<and> (v_Height v, v_Round v, v_Type v) \<noteq> (v_Height w, v_Round w, v_Type w)"
proof -
  obtain ns log D where n: "cs_net toy_crypto round_coding chain_accepts ''chain'' set_two {0, 1} 1 (nodes ns) log D"
      "deliver toy_crypto round_coding ''chain'' set_two 1 run_ab (start_ab, [], {}) = Some (ns, log, D)"
    using run_ab_net by metis
  have e: "9 < length (cs_out (nodes ns 1))" "ev_vote (cs_out (nodes ns 1) ! 6) = [(1, 0, 1, ''A'')]" "ev_vote (cs_out (nodes ns 1) ! 9) = [(1, 0, 2, ''A'')]"
    using run_ab_votes by (simp_all add: n(2) nodes_def)
  obtain v w where v: "cs_out (nodes ns 1) ! 6 = Ev_Internal (Msg_Vote v)" "v_Height v = 1" "v_Round v = 0"
      and w: "cs_out (nodes ns 1) ! 9 = Ev_Internal (Msg_Vote w)" "v_Height w = 1" "v_Round w = 0"
    using ev_vote_some [OF e(2)] ev_vote_some [OF e(3)] by auto
  have "(v_Height v, v_Round v, v_Type v) \<noteq> (v_Height w, v_Round w, v_Type w)"
    using votes_once [OF cs_net_run [OF n(1), of 1] _ e(1) v(1) w(1)] by simp
  then show ?thesis
    using n(2) v w by (intro exI [of _ ns] exI [of _ log] exI [of _ D] exI [of _ v] exI [of _ w]) simp
qed

text \<open>
  C22. Height, round and step of a running node only go up, in the order of CompareHRS, whatever it receives.
\<close>

theorem receive_monotone:
  assumes "cs_run C J ok cs" and "ok E" and "input_ok cs i" and "receive C J E i cs = Inr cs'"
  shows "0 \<le> CompareHRS (cs_Height cs') (cs_Round cs') (cs_Step cs') (cs_Height cs) (cs_Round cs) (cs_Step cs)"
proof -
  have "(pstep False UNIV)\<^sup>*\<^sup>* (proto_of C J cs) (proto_of C J cs')"
    using receive_to [OF assms(4) _ assms(3), of UNIV False UNIV] run_wf [OF assms(1)] unfolding cs_to_def by simp
  then have "hrs_le (proto_of C J cs) (proto_of C J cs')"
    by (rule psteps_hrs)
  then show ?thesis
    by (auto simp: hrs_le_def proto_of_def CompareHRS_def)
qed

theorem receive_monotone_witness:
  "receive toy_crypto round_coding (env_ab True) (In_Timeout first_timeout) (start_of ''b'') = Inr proposing
   \<and> 0 \<le> CompareHRS (cs_Height proposing) (cs_Round proposing) 3 (cs_Height (start_of ''b'')) (cs_Round (start_of ''b'')) 1"
  using proposing_receive proposing_facts(2,3)
    receive_monotone [OF start_b_run [of "\<lambda>_. True"] TrueI proposing_facts(1) proposing_receive] by simp



text \<open>
  C40. The signature of a proposal does not cover the hash of the block: a proposal that is accepted is accepted
  with any other hash, which the node then waits for.
\<close>

theorem proposal_hash_unsigned:
  assumes "defaultSetProposal C E p cs = Inr (None, cs')" and "cs_Proposal cs = None" and "cs_Proposal cs' = Some p"
  shows "defaultSetProposal C E (p\<lparr>p_Blockhash := x\<rparr>) cs = Inr (None, cs'\<lparr>cs_Proposal := Some (p\<lparr>p_Blockhash := x\<rparr>), cs_ProposalBlockHash := x\<rparr>)"
proof -
  have s: "SignBytes_proposal c (p\<lparr>p_Blockhash := x\<rparr>) = SignBytes_proposal c p" for c
    by (simp add: SignBytes_proposal_def)
  have b: "cs_Proposal (begin_cons E cs) = None"
    using assms(2) by (simp add: begin_cons_def)
  have r: "p_Height p = cs_Height cs \<and> p_Round p = cs_Round cs" "cs_Step (begin_cons E cs) < RoundStepCommit"
      "p_POLRound p = -1 \<or> 0 \<le> p_POLRound p \<and> p_POLRound p < p_Round p"
    using assms b by (auto simp: defaultSetProposal_def Let_def split: if_splits)
  obtain vals where vals: "cs_Validators (begin_cons E cs) = Some vals"
    using assms b r by (cases "cs_Validators (begin_cons E cs)") (auto simp: defaultSetProposal_def Let_def)
  obtain proposer vals' where pr: "GetProposer vals = (Inr (Some proposer), vals')"
    using assms(1,2) r vals by (auto simp: defaultSetProposal_def Let_def split: prod.splits sum.splits option.splits)
  have "PubKeyFromBytes C (val_PubKey proposer) \<noteq> None"
    using assms(1,2) r vals pr by (cases "PubKeyFromBytes C (val_PubKey proposer)") (auto simp: defaultSetProposal_def Let_def)
  then obtain pubkey where k: "PubKeyFromBytes C (val_PubKey proposer) = Some pubkey"
    by blast
  show ?thesis
    using assms b r vals pr k by (auto simp: defaultSetProposal_def Let_def s split: option.splits if_splits)
qed

theorem proposal_hash_unsigned_witness:
  "\<exists>p cs'. cs_out proposing ! 3 = Ev_Internal (Msg_Proposal p) \<and> p_Blockhash p = ''A''
     \<and> defaultSetProposal toy_crypto (env_ab True) (p\<lparr>p_Blockhash := ''X''\<rparr>) proposing = Inr (None, cs') \<and> cs_ProposalBlockHash cs' = ''X''"
proof -
  obtain p cs where p: "cs_out proposing ! 3 = Ev_Internal (Msg_Proposal p)" "p_Blockhash p = ''A''" "cs_Proposal proposing = None"
      "defaultSetProposal toy_crypto (env_ab True) p proposing = Inr (None, cs)" "cs_Proposal cs = Some p"
    using proposing_proposal by (auto split: cs_event.splits msg.splits sum.splits prod.splits option.splits)
  then show ?thesis
    using proposal_hash_unsigned [OF p(4,3,5), of "''X''"] by simp
qed

end
