(* ===== verification/Spec2Isabelle.thy ===== *)
theory Spec2Isabelle
  imports Hashlock Game MptStore ConsensusSafety
begin

text \<open>
  A verification library of the plugins of the chain33 blockchain (\<^verbatim>\<open>src/plugin\<close>): two executors with the account
  database and the block execution they rely on, the Merkle Patricia trie of the state store, and the Tendermint
  consensus plugin from its bit arrays up to the agreement of a network of nodes.

  \<^bold>\<open>The parts and how they interact.\<close> A node executes the transactions of a block one after the other on a
  key-value state. An executor (\<^verbatim>\<open>src/plugin/dapp\<close>) moves coins through the account database and writes its own
  records; the key-value pairs of the receipts are what the store keeps, under a root hash computed by the trie
  (\<^verbatim>\<open>src/plugin/store/mpt\<close>). Which blocks are executed is decided by a consensus plugin. In the Tendermint plugin
  (\<^verbatim>\<open>src/plugin/consensus/tendermint\<close>) validators with voting powers vote on a proposed block in rounds; more than two
  thirds of the power in precommits decide it, and conflicting votes are evidence.

  \<^bold>\<open>Conventions.\<close> A struct is a record, an enumeration or a tagged union a datatype, a map a function to an option or
  an association list. A 64-bit integer is an \<^typ>\<open>int\<close> whose operations wrap around explicitly; bytes and the words of
  bit arrays are machine words. A function that changes a state takes and returns it; one that may fail returns a
  sum with the error on the left, and a panic is an error of its own. Cryptography, hashes, JSON and protobuf texts, the
  clock and the answers of other modules are parameters, most of them fields of the records \<open>crypto\<close>, \<open>signing\<close>,
  \<open>coding\<close> and \<open>env\<close>. Locales state what one part relies on in another, and each is interpreted on the definitions of
  the part that provides it.

  \<^bold>\<open>Shared theories.\<close>
  \<^item> \<open>Prelude\<close>: 64-bit arithmetic, results, receipts, sums over maps.
  \<^item> \<open>Escrow\<close>: the contract of executors that freeze coins for entries of a table (locale \<open>escrow\<close>).
  \<^item> \<open>Driver\<close>: \<open>execTx\<close> and the block loop of \<^verbatim>\<open>src/vendor/github.com/33cn/chain33/executor\<close> with rollback, and the
    contracts \<open>dapp_driver\<close>, \<open>dapp_conserving\<close> and \<open>dapp_replaying\<close>: invariants, conserved totals and replayed receipts
    pass from one transaction to blocks.
  \<^item> \<open>Ledger\<close>: \<open>account.DB\<close> of \<^verbatim>\<open>src/vendor/github.com/33cn/chain33/account\<close>, coin accounts and the active and frozen
    balances of executor accounts.
  \<^item> \<open>ManageConf\<close>: the configuration values that executors read.

  \<^bold>\<open>Executors.\<close>
  \<^item> \<open>Hashlock\<close> (\<^verbatim>\<open>src/plugin/dapp/hashlock/executor\<close>: \<open>Hashlocklock\<close>, \<open>Hashlocksend\<close>, \<open>Hashlockunlock\<close>, the dispatch of
    \<open>Exec\<close> and the local records). After every block the frozen coins cover the open locks and totals are kept; the
    receipts replay to the state; a lock is paid once; the sender can take the coins back after the lock time; a second
    lock under a hash overwrites the first.
  \<^item> \<open>Game\<close> (\<^verbatim>\<open>src/plugin/dapp/game/executor\<close>: \<open>GameCreate\<close>, \<open>GameMatch\<close>, \<open>GameCancel\<close>, \<open>GameClose\<close>, the table of results, the
    payouts, the counts, the local index and its rollback). The same invariant, the payouts of every result, the refund of
    an unmatched game, the index as a listing of the games, and the count that the receipts store one too high.

  \<^bold>\<open>The trie\<close> (\<^verbatim>\<open>src/plugin/store/mpt/db\<close>).
  \<^item> \<open>MptEncoding\<close>: the nibble and compact key encodings and their round trips.
  \<^item> \<open>MptTrie\<close>, \<open>MptInsert\<close>, \<open>MptDelete\<close>: \<open>tryGet\<close>, \<open>insert\<close>, \<open>delete\<close> on nodes that may have to be loaded from the
    database, with the well-formedness \<open>trie\<close>. The recursions carry fuel because a damaged database may lead from hash
    node to hash node for ever; two calls for each nibble of the key and two more are enough for a well-formed trie,
    since every node but a hash node uses up a nibble and no hash node stands below another (\<open>mpt_walks_end\<close>).
  \<^item> \<open>MptStore\<close>: the trie is a map (locale \<open>kv_store\<close>), it is determined by its contents and so independent of the order
    of writes, and bulk operations.

  \<^bold>\<open>Tendermint data\<close> (\<^verbatim>\<open>src/plugin/consensus/tendermint/types\<close> and \<open>state.go\<close>, \<open>execution.go\<close>, \<open>evidence.go\<close>).
  \<^item> \<open>BitArray\<close>: the bit arrays of \<open>util.go\<close>, with what \<open>Sub\<close> and \<open>Or\<close> do to arrays of different lengths.
  \<^item> \<open>GoHeap\<close>: the priority queue of \<open>util.go\<close> on Go's \<open>container/heap\<close> (locale \<open>heap_order\<close>).
  \<^item> \<open>TmTypes\<close>: votes, proposals, what is signed of them, evidence and commits.
  \<^item> \<open>ValidatorSet\<close>: \<open>validator_set.go\<close>; the choice of proposers through the heap is a scan for the largest accumulated
    power; the set as a registry of addresses (locale \<open>registry\<close>).
  \<^item> \<open>TmExecution\<close>: \<open>updateValidators\<close>, and commits that are accepted only with two thirds of the power (locale
    \<open>weighted\<close>).
  \<^item> \<open>VoteSet\<close>, \<open>VoteSafety\<close>: \<open>vote_set.go\<close>; exact tallies, majorities, conflicts as evidence, commits that verify.
  \<^item> \<open>HeightVoteSet\<close>: \<open>height_vote_set.go\<close>; the rounds that peers can make a node keep are bounded.
  \<^item> \<open>VoteOrigin\<close>: the votes that a height vote set holds were given to it, so a majority is signed by more than two
    thirds of the power.
  \<^item> \<open>PrivValidator\<close>: \<open>priv_validator.go\<close>; the guard against signing twice, and that signing does not use it.
  \<^item> \<open>TmState\<close>, \<open>TmChain\<close>: \<open>state.go\<close>, \<open>execution.go\<close>, \<open>params.go\<close>, \<open>genesis.go\<close> and the blocks of \<open>block.go\<close>; the states of the
    chain, the votes behind every block, the acceptance of honest proposals, and saved states.
  \<^item> \<open>EvidencePool\<close>: \<open>evidence.go\<close>.

  \<^bold>\<open>Tendermint consensus.\<close>
  \<^item> \<open>ConsensusState\<close>: the state machine of \<open>consensus_state.go\<close> with every handler of messages, timeouts and claims of
    peers (\<open>receive\<close> is one round of \<open>receiveRoutine\<close>), and the start of a node (\<open>StartConsensus\<close> of \<open>tendermint.go\<close>). What
    a handler sends, schedules or queues is appended to \<open>cs_out\<close>; the configuration, the clock and the answers of the client
    are the record \<open>env\<close>.
  \<^item> \<open>TmProtocol\<close>: the voting protocol with locks as a step relation (\<open>pstep\<close>), networks of validators that follow it, and
    agreement, proved in the locale \<open>weighted\<close>.
  \<^item> \<open>ConsensusRefine\<close>: every handler of a well-formed state is a sequence of protocol steps on what the state stands for
    (\<open>proto_of\<close>).
  \<^item> \<open>ConsensusRun\<close>: runs of a node from its start, and networks of nodes (\<open>cs_net\<close>) in which any message, sent by anyone,
    may reach any node, in any order or never, and scheduled timeouts may fire at any time. A vote that verifies with the
    key of a validator that runs the code was signed by that validator.
  \<^item> \<open>ConsensusSafety\<close>: agreement of the nodes that run the code; at most one vote for each height, round and type; locks
    that are kept; height, round and step that never go back; the fork that one failed write of a block makes possible; the
    proposal whose block hash is not signed. Networks run on concrete inputs with \<open>deliver\<close>.

  The runs are without restart: the memory of the node is what prevents a second vote, since the signer does not
  (\<open>signVote_double_signs\<close>). Heights stay below the largest 64-bit number and rounds below the largest 32-bit number;
  votes carry a block id.

  \<^bold>\<open>Not modelled.\<close> Of the modelled parts: queries and lists for users, transaction construction, RPC services and
  command lines; the hashing, committing and unloading of trie nodes, proofs and iterators; the heartbeat of proposers;
  locks, channels and log messages. Of the repository: the peers, the gossip and the encrypted connections of
  Tendermint, which are network input and output and are covered by networks that deliver anything; the timer of
  timeouts, covered by timeouts that fire at any time; the consensus plugins pbft, raft, ticket and para; the store
  variants kvdb, kvmvcc and mpt/db2; the virtual machine (evm) and the executors other than hashlock and game; the
  cryptography of privacy, ecdsa and sm2; wallets, tools, generated protobuf code and registration.
\<close>

end
